(* ===== verification/Prelude.thy ===== *)
theory Prelude
  imports Main "HOL-Library.Word"
begin

text \<open>
  Shared vocabulary of the development: the machine integer types, the faults a C++
  execution can run into, the error monad that threads them, a generic theory of
  transition systems (a locale, interpreted by every step relation of the model), and
  the lemmas on lists and association lists that several components use.
\<close>

section \<open>Machine integers\<close>

type_synonym u8 = "8 word"
type_synonym u16 = "16 word"
type_synonym u32 = "32 word"

text \<open>\<open>size_t\<close> on the 64-bit Linux targets the build files name.\<close>

type_synonym size_t = "64 word"

lemma unat_of_size: "n < 2 ^ 64 \<Longrightarrow> unat (of_nat n :: size_t) = n"
  by (simp add: unat_of_nat)

section \<open>Faults\<close>

text \<open>
  What an execution does when it leaves the contract of the language or of the standard
  library. \<open>Out_of_bounds\<close>, \<open>Uninitialised\<close> and \<open>End_iterator\<close> are undefined
  behaviour (a read or write outside an object, the use of an indeterminate value, the
  dereference of an \<open>end()\<close> iterator); \<open>Bad_alloc\<close> is an exception that no frame
  of the program catches; \<open>Dead_string\<close> and \<open>Leaked_string\<close> are the two ways a
  union member of class type can be mishandled; \<open>Null_capture\<close> is the use of a
  capture pointer that no constructor has set; \<open>Use_after_free\<close> is an access to a manager that
  has been deleted; \<open>Division_by_zero\<close> is an integer division by zero,
  \<open>Signed_overflow\<close> signed arithmetic out of the range of its type.
\<close>

datatype fault =
    Out_of_bounds
  | Uninitialised
  | Bad_alloc
  | End_iterator
  | Dead_string
  | Leaked_string
  | Null_capture
  | Use_after_free
  | Division_by_zero
  | Signed_overflow

type_synonym 'a result = "fault + 'a"

section \<open>The error monad\<close>

named_theorems ebind_simps \<open>rewriting a chain of fallible steps\<close>

primrec ebind :: "'e + 'a \<Rightarrow> ('a \<Rightarrow> 'e + 'b) \<Rightarrow> 'e + 'b" where
  "ebind (Inl e) f = Inl e"
| "ebind (Inr x) f = f x"

lemma ebind_assoc: "ebind (ebind m f) g = ebind m (\<lambda>x. ebind (f x) g)"
  by (cases m) simp_all

lemma ebind_Inr_right [simp]: "ebind m Inr = m"
  by (cases m) simp_all

lemma ebind_eq_Inr: "ebind m f = Inr y \<longleftrightarrow> (\<exists>x. m = Inr x \<and> f x = Inr y)"
  by (cases m) simp_all

lemma ebind_eq_Inl: "ebind m f = Inl e \<longleftrightarrow> m = Inl e \<or> (\<exists>x. m = Inr x \<and> f x = Inl e)"
  by (cases m) simp_all

lemma ebind_if: "ebind (if b then m else n) f = (if b then ebind m f else ebind n f)"
  by simp

lemmas ebind_iffs = ebind_eq_Inr ebind_eq_Inl

declare ebind_assoc [ebind_simps] ebind_if [ebind_simps]

text \<open>Running a fallible step on every element of a list, left to right.\<close>

fun efold :: "('a \<Rightarrow> 's \<Rightarrow> 'e + 's) \<Rightarrow> 'a list \<Rightarrow> 's \<Rightarrow> 'e + 's" where
  "efold f [] s = Inr s"
| "efold f (x # xs) s = ebind (f x s) (efold f xs)"

lemma efold_append: "efold f (xs @ ys) s = ebind (efold f xs s) (efold f ys)"
proof (induction xs arbitrary: s)
  case Nil
  then show ?case by simp
next
  case (Cons x xs)
  then show ?case by (cases "f x s") simp_all
qed

lemma efold_pure: "(\<And>x s. x \<in> set xs \<Longrightarrow> f x s = Inr (g x s)) \<Longrightarrow> efold f xs s = Inr (fold g xs s)"
  by (induction xs arbitrary: s) simp_all

text \<open>An invariant of the fold: kept by every step that does not fault.\<close>

lemma efold_invariant:
  assumes "efold f xs s = Inr t" and "P s"
    and "\<And>x s t. x \<in> set xs \<Longrightarrow> P s \<Longrightarrow> f x s = Inr t \<Longrightarrow> P t"
  shows "P t"
  using assms
proof (induction xs arbitrary: s)
  case Nil
  then show ?case by simp
next
  case (Cons x xs)
  from Cons.prems(1) obtain u where u: "f x s = Inr u" and t: "efold f xs u = Inr t"
    by (auto simp: ebind_eq_Inr)
  from u Cons.prems(2,3) have "P u" by auto
  with t show ?case using Cons.IH Cons.prems(3) by auto
qed

section \<open>Transition systems\<close>

text \<open>
  The contract every state machine of the model is used through: an initial predicate, a
  step relation and an invariant that holds at the start and that every step keeps. The
  reachable states are shared by all of them.
\<close>

inductive reaches :: "('s \<Rightarrow> bool) \<Rightarrow> ('s \<Rightarrow> 's \<Rightarrow> bool) \<Rightarrow> 's \<Rightarrow> bool"
  for init :: "'s \<Rightarrow> bool" and step :: "'s \<Rightarrow> 's \<Rightarrow> bool" where
  reaches_init: "init s \<Longrightarrow> reaches init step s"
| reaches_step: "reaches init step s \<Longrightarrow> step s t \<Longrightarrow> reaches init step t"

locale inductive_invariant =
  fixes init :: "'s \<Rightarrow> bool"
    and step :: "'s \<Rightarrow> 's \<Rightarrow> bool"
    and inv :: "'s \<Rightarrow> bool"
  assumes inv_init: "init s \<Longrightarrow> inv s"
    and inv_step: "step s t \<Longrightarrow> inv s \<Longrightarrow> inv t"
begin

lemma inv_reaches: "reaches init step s \<Longrightarrow> inv s"
  by (induction rule: reaches.induct) (auto intro: inv_init inv_step)

lemma inv_steps: "step\<^sup>*\<^sup>* s t \<Longrightarrow> inv s \<Longrightarrow> inv t"
  by (induction rule: rtranclp_induct) (auto intro: inv_step)

end

section \<open>Lists\<close>

lemma map_the_map_Some [simp]: "map the (map Some xs) = xs"
  by (simp add: comp_def)

lemma filter_eq_single: "distinct xs \<Longrightarrow> x \<in> set xs \<Longrightarrow> filter (\<lambda>y. y = x) xs = [x]"
proof (induction xs)
  case Nil
  then show ?case by simp
next
  case (Cons y ys)
  then show ?case by (cases "y = x") (auto simp: filter_empty_conv)
qed

text \<open>Counting the elements that satisfy a predicate, over updates.\<close>

definition number :: "('a \<Rightarrow> bool) \<Rightarrow> 'a list \<Rightarrow> nat" where
  "number P xs = length (filter P xs)"

lemma number_simps [simp]:
  "number P [] = 0" "number P (x # xs) = (if P x then 1 else 0) + number P xs"
  "number P (xs @ ys) = number P xs + number P ys"
  "number P (replicate n x) = (if P x then n else 0)"
  by (simp_all add: number_def)

lemma number_le: "number P xs \<le> length xs"
  by (simp add: number_def)

lemma number_pos: "0 < number P xs \<longleftrightarrow> (\<exists>x \<in> set xs. P x)"
  by (auto simp: number_def filter_empty_conv)

lemma number_update:
  "i < length xs \<Longrightarrow> number P (xs[i := x]) + (if P (xs ! i) then 1 else 0) =
     number P xs + (if P x then 1 else 0)"
proof (induction xs arbitrary: i)
  case (Cons y ys)
  then show ?case
  proof (cases i)
    case (Suc j)
    with Cons.prems Cons.IH [of j] show ?thesis by simp
  qed simp
qed simp

lemma number_update_add: "i < length xs \<Longrightarrow> \<not> P (xs ! i) \<Longrightarrow> P x \<Longrightarrow> number P (xs[i := x]) = Suc (number P xs)"
  and number_update_sub: "i < length xs \<Longrightarrow> P (xs ! i) \<Longrightarrow> \<not> P x \<Longrightarrow> number P (xs[i := x]) = number P xs - 1"
  and number_update_same: "i < length xs \<Longrightarrow> P (xs ! i) = P x \<Longrightarrow> number P (xs[i := x]) = number P xs"
  using number_update [of i xs P x] by auto

lemma set_updateD: "x \<in> set (xs[i := y]) \<Longrightarrow> x = y \<or> x \<in> set xs"
  using set_update_subset_insert [of xs i y] by blast

end
