(* ===== verification/Table.thy ===== *)
theory Table
  imports Prelude "HOL-Library.AList"
begin

text \<open>
  The contract of \<open>std::unordered_map\<close> as the program uses it: find, assignment through
  \<open>operator[]\<close>, erase and iteration in an unspecified order. The locale \<open>table\<close> states
  the laws; \<open>keyed_table\<close> extends it by a field of the values (a descriptor, say) that no
  two entries may share. Both are interpreted on association lists with distinct keys, the
  representation the model uses for \<open>streams\<close> and \<open>watched_sockets\<close>.
\<close>

locale table =
  fixes lookup :: "'m \<Rightarrow> 'k \<Rightarrow> 'v option"
    and assign :: "'k \<Rightarrow> 'v \<Rightarrow> 'm \<Rightarrow> 'm"
    and erase :: "'k \<Rightarrow> 'm \<Rightarrow> 'm"
    and entries :: "'m \<Rightarrow> ('k \<times> 'v) list"
    and ok :: "'m \<Rightarrow> bool"
  assumes lookup_assign: "lookup (assign k v m) = (lookup m)(k \<mapsto> v)"
    and lookup_erase: "lookup (erase k m) = (lookup m)(k := None)"
    and entries_lookup: "ok m \<Longrightarrow> (k, v) \<in> set (entries m) \<longleftrightarrow> lookup m k = Some v"
    and entries_distinct: "ok m \<Longrightarrow> distinct (map fst (entries m))"
    and ok_assign: "ok m \<Longrightarrow> ok (assign k v m)"
    and ok_erase: "ok m \<Longrightarrow> ok (erase k m)"
begin

lemma erase_gone [simp]: "lookup (erase k m) k = None"
  by (simp add: lookup_erase)

lemma assign_found [simp]: "lookup (assign k v m) k = Some v"
  by (simp add: lookup_assign)

lemma key_in_entries:
  assumes "ok m"
  shows "k \<in> fst ` set (entries m) \<longleftrightarrow> lookup m k \<noteq> None"
proof -
  have "k \<in> fst ` set (entries m) \<longleftrightarrow> (\<exists>v. (k, v) \<in> set (entries m))" by force
  with assms show ?thesis by (simp add: entries_lookup)
qed

text \<open>A predicate of all values, kept by the three operations.\<close>

lemma all_assign:
  "(\<And>k v. lookup m k = Some v \<Longrightarrow> P k v) \<Longrightarrow> P k v \<Longrightarrow> lookup (assign k v m) k' = Some v' \<Longrightarrow> P k' v'"
  by (auto simp: lookup_assign split: if_splits)

lemma all_erase:
  "(\<And>k v. lookup m k = Some v \<Longrightarrow> P k v) \<Longrightarrow> lookup (erase k m) k' = Some v' \<Longrightarrow> P k' v'"
  by (auto simp: lookup_erase split: if_splits)

end

locale keyed_table = table lookup assign erase entries ok
  for lookup :: "'m \<Rightarrow> 'k \<Rightarrow> 'v option"
    and assign :: "'k \<Rightarrow> 'v \<Rightarrow> 'm \<Rightarrow> 'm"
    and erase :: "'k \<Rightarrow> 'm \<Rightarrow> 'm"
    and entries :: "'m \<Rightarrow> ('k \<times> 'v) list"
    and ok :: "'m \<Rightarrow> bool" +
  fixes field :: "'v \<Rightarrow> 'f"
    and unique :: "'m \<Rightarrow> bool"
  assumes unique_iff: "unique m \<longleftrightarrow>
      (\<forall>k k' v v'. lookup m k = Some v \<longrightarrow> lookup m k' = Some v' \<longrightarrow> field v = field v' \<longrightarrow> k = k')"
begin

lemma uniqueD: "unique m \<Longrightarrow> lookup m k = Some v \<Longrightarrow> lookup m k' = Some v' \<Longrightarrow> field v = field v' \<Longrightarrow> k = k'"
  by (simp add: unique_iff)

lemma unique_erase: "unique m \<Longrightarrow> unique (erase k m)"
  by (simp add: unique_iff lookup_erase)

lemma unique_assign_fresh:
  assumes "unique m" and "\<And>k' v'. lookup m k' = Some v' \<Longrightarrow> field v' \<noteq> field v"
  shows "unique (assign k v m)"
  unfolding unique_iff
proof (intro allI impI)
  fix k1 k2 v1 v2
  assume l: "lookup (assign k v m) k1 = Some v1" "lookup (assign k v m) k2 = Some v2"
    and f: "field v1 = field v2"
  show "k1 = k2"
  proof (cases "k1 = k"; cases "k2 = k")
    assume "k1 \<noteq> k" "k2 \<noteq> k"
    with l f show ?thesis using uniqueD [OF assms(1)] by (simp add: lookup_assign)
  qed (use l f assms(2) in \<open>force simp: lookup_assign\<close>)+
qed

text \<open>An update in place that leaves the field alone.\<close>

lemma unique_assign_same:
  assumes "unique m" and "lookup m k = Some w" and "field w = field v"
  shows "unique (assign k v m)"
  using assms unfolding unique_iff lookup_assign by (auto split: if_splits)

text \<open>
  A search by field, as the deferred delivery of the watcher does it: at most one entry of
  the iteration matches.
\<close>

lemma filter_unique:
  assumes "ok m" and "unique m" and "lookup m k = Some v"
  shows "filter (\<lambda>(k', v'). field v' = field v) (entries m) = [(k, v)]"
proof -
  have e: "(k, v) \<in> set (entries m)" using assms by (simp add: entries_lookup)
  have d: "distinct (entries m)" using entries_distinct [OF assms(1)] by (simp add: distinct_map)
  have key: "x = (k, v)" if "x \<in> set (entries m)" "field (snd x) = field v" for x
  proof -
    obtain k' v' where x: "x = (k', v')" by fastforce
    with that assms(1) have l: "lookup m k' = Some v'" by (simp add: entries_lookup)
    with that x have "k' = k" using uniqueD [OF assms(2) l assms(3)] by simp
    with l assms(3) x show ?thesis by simp
  qed
  have "filter (\<lambda>(k', v'). field v' = field v) (entries m) = filter (\<lambda>x. x = (k, v)) (entries m)"
  proof (rule filter_cong [OF refl])
    fix x
    assume x: "x \<in> set (entries m)"
    show "(case x of (k', v') \<Rightarrow> field v' = field v) = (x = (k, v))"
      using key [OF x] by (cases x) auto
  qed
  also have "\<dots> = [(k, v)]"
    by (rule filter_eq_single [OF d e])
  finally show ?thesis .
qed

end

section \<open>The representation\<close>

definition keys_ok :: "('k \<times> 'v) list \<Rightarrow> bool" where
  "keys_ok m \<longleftrightarrow> distinct (map fst m)"

definition fields_unique :: "('v \<Rightarrow> 'f) \<Rightarrow> ('k \<times> 'v) list \<Rightarrow> bool" where
  "fields_unique f m \<longleftrightarrow>
     (\<forall>k k' v v'. map_of m k = Some v \<longrightarrow> map_of m k' = Some v' \<longrightarrow> f v = f v' \<longrightarrow> k = k')"

interpretation tab: table map_of AList.update AList.delete "\<lambda>m. m" keys_ok
  by unfold_locales
    (simp_all add: AList.update_conv' AList.delete_conv' fun_upd_def keys_ok_def
      AList.distinct_update AList.distinct_delete)

interpretation ktab: keyed_table map_of AList.update AList.delete "\<lambda>m. m" keys_ok f "fields_unique f"
  for f :: "'v \<Rightarrow> 'f"
  by unfold_locales (simp add: fields_unique_def)

lemma key_in_keys: "map_of xs k = Some v \<Longrightarrow> k \<in> set (map fst xs)"
  by (induction xs) (auto split: if_splits)

lemma keys_ok_Nil [simp]: "keys_ok []"
  by (simp add: keys_ok_def)

lemma fields_unique_Nil [simp]: "fields_unique f []"
  by (simp add: fields_unique_def)

text \<open>An in-place map over the values keeps the keys.\<close>

lemma map_of_map_values: "map_of (map (\<lambda>(k, v). (k, g k v)) m) k = map_option (g k) (map_of m k)"
  by (induction m) auto

lemma keys_ok_map_values: "keys_ok (map (\<lambda>(k, v). (k, g k v)) m) = keys_ok m"
  by (simp add: keys_ok_def case_prod_beta comp_def)

end
