(* ===== verification/Memory.thy ===== *)
theory Memory
  imports Prelude
begin

text \<open>
  The memory model under packets.h: a buffer is a list of cells, a cell is a byte or
  indeterminate (what \<open>make_unique_for_overwrite\<close> and \<open>new unsigned char[n]\<close> hand
  out). Loads and stores are checked against the buffer's bounds, and a load of an
  indeterminate cell is a fault, so that a theorem that an operation returns \<open>Inr\<close>
  also says that it touches nothing outside its objects and uses no indeterminate byte.
  Multi-byte loads and stores are little-endian, as on the x86-64 targets of the build
  files (tests/test.cpp fixes the same order: bytes 8,0,0,0 are stream id 8).
\<close>

section \<open>Bytes of machine integers\<close>

named_theorems le_simps \<open>little-endian encoding and decoding\<close>

definition u16_bytes :: "u16 \<Rightarrow> u8 list" where
  "u16_bytes w = [ucast w, ucast (drop_bit 8 w)]"

definition u32_bytes :: "u32 \<Rightarrow> u8 list" where
  "u32_bytes w = [ucast w, ucast (drop_bit 8 w), ucast (drop_bit 16 w), ucast (drop_bit 24 w)]"

fun bytes_u16 :: "u8 list \<Rightarrow> u16" where
  "bytes_u16 [a, b] = or (ucast a) (push_bit 8 (ucast b))"
| "bytes_u16 _ = 0"

fun bytes_u32 :: "u8 list \<Rightarrow> u32" where
  "bytes_u32 [a, b, c, d] =
     or (or (ucast a) (push_bit 8 (ucast b))) (or (push_bit 16 (ucast c)) (push_bit 24 (ucast d)))"
| "bytes_u32 _ = 0"

lemma length_u16_bytes [simp]: "length (u16_bytes w) = 2"
  by (simp add: u16_bytes_def)

lemma length_u32_bytes [simp]: "length (u32_bytes w) = 4"
  by (simp add: u32_bytes_def)

lemma bit_u8_high [simp]: "\<not> bit (a :: u8) (8 + n)" "\<not> bit (a :: u8) (16 + n)" "\<not> bit (a :: u8) (24 + n)"
  by (auto dest: bit_imp_le_length)

lemma bytes_u16_u16_bytes [simp, le_simps]: "bytes_u16 (u16_bytes w) = w"
  by (rule bit_word_eqI) (auto simp: u16_bytes_def bit_simps)

lemma bytes_u32_u32_bytes [simp, le_simps]: "bytes_u32 (u32_bytes w) = w"
proof (rule bit_word_eqI)
  fix n
  assume "n < LENGTH(32)"
  then consider "n < 8" | "8 \<le> n" "n < 16" | "16 \<le> n" "n < 24" | "24 \<le> n" "n < 32"
    by fastforce
  then show "bit (bytes_u32 (u32_bytes w)) n \<longleftrightarrow> bit w n"
    by cases (auto simp: u32_bytes_def bit_simps)
qed

lemma list_length_two: "length xs = 2 \<Longrightarrow> \<exists>a b. xs = [a, b]"
  by (auto simp: length_Suc_conv numeral_2_eq_2)

lemma list_length_four: "length xs = 4 \<Longrightarrow> \<exists>a b c d. xs = [a, b, c, d]"
  by (auto simp: length_Suc_conv eval_nat_numeral)

lemma u16_bytes_bytes_u16 [le_simps]: "length bs = 2 \<Longrightarrow> u16_bytes (bytes_u16 bs) = bs"
  by (auto dest!: list_length_two simp: u16_bytes_def intro!: bit_word_eqI)
    (auto simp: bit_simps)

lemma u32_bytes_bytes_u32 [le_simps]: "length bs = 4 \<Longrightarrow> u32_bytes (bytes_u32 bs) = bs"
  by (auto dest!: list_length_four simp: u32_bytes_def intro!: bit_word_eqI)
    (auto simp: bit_simps)

section \<open>Buffers\<close>

type_synonym cell = "u8 option"
type_synonym buffer = "cell list"

text \<open>
  An allocation of more than \<open>PTRDIFF_MAX\<close> bytes is refused by the standard library
  (\<open>bad_array_new_length\<close>); a smaller one is taken to succeed.
\<close>

definition alloc :: "size_t \<Rightarrow> buffer result" where
  "alloc n = (if n < 0x8000000000000000 then Inr (replicate (unat n) None) else Inl Bad_alloc)"

definition load_cell :: "buffer \<Rightarrow> nat \<Rightarrow> u8 result" where
  "load_cell b i =
     (if i < length b then (case b ! i of None \<Rightarrow> Inl Uninitialised | Some v \<Rightarrow> Inr v)
      else Inl Out_of_bounds)"

fun load_bytes :: "buffer \<Rightarrow> nat \<Rightarrow> nat \<Rightarrow> u8 list result" where
  "load_bytes b i 0 = Inr []"
| "load_bytes b i (Suc n) =
     ebind (load_cell b i) (\<lambda>v. ebind (load_bytes b (Suc i) n) (\<lambda>vs. Inr (v # vs)))"

definition load_u8 :: "buffer \<Rightarrow> nat \<Rightarrow> u8 result" where
  "load_u8 b i = load_cell b i"

definition load_u16 :: "buffer \<Rightarrow> nat \<Rightarrow> u16 result" where
  "load_u16 b i = ebind (load_bytes b i 2) (\<lambda>vs. Inr (bytes_u16 vs))"

definition load_u32 :: "buffer \<Rightarrow> nat \<Rightarrow> u32 result" where
  "load_u32 b i = ebind (load_bytes b i 4) (\<lambda>vs. Inr (bytes_u32 vs))"

definition store_cells :: "buffer \<Rightarrow> nat \<Rightarrow> buffer \<Rightarrow> buffer result" where
  "store_cells b i cs =
     (if i + length cs \<le> length b then Inr (take i b @ cs @ drop (i + length cs) b)
      else Inl Out_of_bounds)"

definition store_u8 :: "buffer \<Rightarrow> nat \<Rightarrow> u8 \<Rightarrow> buffer result" where
  "store_u8 b i v = store_cells b i [Some v]"

definition store_u32 :: "buffer \<Rightarrow> nat \<Rightarrow> u32 \<Rightarrow> buffer result" where
  "store_u32 b i v = store_cells b i (map Some (u32_bytes v))"

text \<open>\<open>memcpy (dst + i) (src + j) n\<close>: indeterminate cells are copied as such.\<close>

definition memcpy :: "buffer \<Rightarrow> nat \<Rightarrow> buffer \<Rightarrow> nat \<Rightarrow> nat \<Rightarrow> buffer result" where
  "memcpy dst i src j n =
     (if j + n \<le> length src then store_cells dst i (take n (drop j src)) else Inl Out_of_bounds)"

section \<open>Sizes and prefixes\<close>

lemma unat_size_diff:
  "unat (n - k) = (if unat k \<le> unat n then unat n - unat k else unat n + 2 ^ 64 - unat k)"
  for n k :: size_t
  by (simp add: unat_sub_if')

lemma size_of_nat: "unat n = k \<Longrightarrow> n = of_nat k"
  for n :: size_t
  by auto

lemma unat_size_add: "unat n + unat k < 2 ^ 64 \<Longrightarrow> unat (n + k) = unat n + unat k"
  for n k :: size_t
  by (simp add: unat_plus_if')

lemma take_split: "k \<le> n \<Longrightarrow> take n xs = take k xs @ take (n - k) (drop k xs)"
  by (metis le_add_diff_inverse take_add)

lemma take_header5: "5 \<le> length xs \<Longrightarrow> take 5 xs = xs ! 0 # take 4 (drop 1 xs)"
  by (cases xs) simp_all

lemma take_header2: "2 \<le> length xs \<Longrightarrow> take 2 xs = [xs ! 0, xs ! 1]"
  by (auto simp: numeral_2_eq_2 Suc_le_length_iff)

section \<open>Laws of loads and stores\<close>

named_theorems mem_simps \<open>evaluating loads, stores and copies\<close>

lemma alloc_unat: "alloc n = (if unat n < 2 ^ 63 then Inr (replicate (unat n) None) else Inl Bad_alloc)"
  by (simp add: alloc_def word_less_nat_alt)

lemma alloc_eq_Inr: "alloc n = Inr b \<longleftrightarrow> unat n < 2 ^ 63 \<and> b = replicate (unat n) None"
  by (auto simp: alloc_unat)

lemma alloc_ok [mem_simps]: "unat n < 2 ^ 63 \<Longrightarrow> alloc n = Inr (replicate (unat n) None)"
  by (simp add: alloc_unat)

lemma load_bytes_map_Some [mem_simps]:
  "i + n \<le> length bs \<Longrightarrow> load_bytes (map Some bs) i n = Inr (take n (drop i bs))"
proof (induction n arbitrary: i)
  case 0
  then show ?case by simp
next
  case (Suc n)
  then have "load_bytes (map Some bs) (Suc i) n = Inr (take n (drop (Suc i) bs))" by simp
  moreover from Suc.prems have "drop i bs = bs ! i # drop (Suc i) bs"
    by (simp add: Cons_nth_drop_Suc)
  ultimately show ?case using Suc.prems by (simp add: load_cell_def)
qed

lemma load_bytes_Inr:
  "load_bytes b i n = Inr vs \<Longrightarrow> i + n \<le> length b \<and> take n (drop i b) = map Some vs \<or> n = 0 \<and> vs = []"
proof (induction n arbitrary: i vs)
  case 0
  then show ?case by simp
next
  case (Suc n)
  then obtain v ws where v: "load_cell b i = Inr v" and ws: "load_bytes b (Suc i) n = Inr ws"
    and vs: "vs = v # ws"
    by (auto simp: ebind_eq_Inr)
  from v have i: "i < length b" and bi: "b ! i = Some v"
    by (auto simp: load_cell_def split: if_splits option.splits)
  then have d: "drop i b = Some v # drop (Suc i) b"
    by (metis Cons_nth_drop_Suc)
  from Suc.IH [OF ws] show ?case using i vs by (auto simp: d)
qed

lemma load_bytes_short: "length b < i + n \<Longrightarrow> 0 < n \<Longrightarrow> \<exists>e. load_bytes b i n = Inl e"
  using load_bytes_Inr [of b i n] by (cases "load_bytes b i n") auto

text \<open>On a buffer whose cells are all determinate the only fault is the bound.\<close>

lemma load_bytes_map_Some_short:
  "length bs < i + n \<Longrightarrow> i \<le> length bs \<Longrightarrow> load_bytes (map Some bs) i n = Inl Out_of_bounds"
proof (induction n arbitrary: i)
  case 0
  then show ?case by simp
next
  case (Suc n)
  then show ?case by (cases "i = length bs") (auto simp: load_cell_def)
qed

lemma load_u8_map_Some [mem_simps]: "i < length bs \<Longrightarrow> load_u8 (map Some bs) i = Inr (bs ! i)"
  by (simp add: load_u8_def load_cell_def)

lemma load_u8_out [mem_simps]: "length b \<le> i \<Longrightarrow> load_u8 b i = Inl Out_of_bounds"
  by (simp add: load_u8_def load_cell_def)

lemma load_u16_map_Some [mem_simps]:
  "i + 2 \<le> length bs \<Longrightarrow> load_u16 (map Some bs) i = Inr (bytes_u16 (take 2 (drop i bs)))"
  by (simp add: load_u16_def load_bytes_map_Some)

lemma load_u32_map_Some [mem_simps]:
  "i + 4 \<le> length bs \<Longrightarrow> load_u32 (map Some bs) i = Inr (bytes_u32 (take 4 (drop i bs)))"
  by (simp add: load_u32_def load_bytes_map_Some)

text \<open>A load that succeeds has read determinate cells inside the buffer, and conversely.\<close>

lemma load_u8_eq_Inr: "load_u8 b i = Inr v \<longleftrightarrow> i < length b \<and> b ! i = Some v"
  by (auto simp: load_u8_def load_cell_def split: option.splits)

lemma load_bytes_eq_Inr:
  "0 < n \<Longrightarrow> load_bytes b i n = Inr vs \<longleftrightarrow> i + n \<le> length b \<and> take n (drop i b) = map Some vs"
proof
  assume "0 < n" and "load_bytes b i n = Inr vs"
  then show "i + n \<le> length b \<and> take n (drop i b) = map Some vs"
    using load_bytes_Inr by fastforce
next
  assume "0 < n" and r: "i + n \<le> length b \<and> take n (drop i b) = map Some vs"
  then have "load_bytes b i n = Inr vs"
  proof (induction n arbitrary: i vs)
    case 0
    then show ?case by simp
  next
    case (Suc n)
    then have d: "drop i b = b ! i # drop (Suc i) b"
      by (simp add: Cons_nth_drop_Suc)
    with Suc.prems obtain w ws where "vs = w # ws" "b ! i = Some w" "take n (drop (Suc i) b) = map Some ws"
      by (cases vs) auto
    with Suc show ?case by (cases n) (auto simp: load_cell_def)
  qed
  then show "load_bytes b i n = Inr vs" .
qed

lemma load_u16_eq_Inr:
  "load_u16 b i = Inr w \<longleftrightarrow> i + 2 \<le> length b \<and> take 2 (drop i b) = map Some (u16_bytes w)"
proof
  assume "load_u16 b i = Inr w"
  then obtain vs where "load_bytes b i 2 = Inr vs" and "w = bytes_u16 vs"
    by (auto simp: load_u16_def ebind_eq_Inr)
  then show "i + 2 \<le> length b \<and> take 2 (drop i b) = map Some (u16_bytes w)"
    by (auto simp: load_bytes_eq_Inr u16_bytes_bytes_u16 dest!: arg_cong [where f = length])
next
  assume "i + 2 \<le> length b \<and> take 2 (drop i b) = map Some (u16_bytes w)"
  then show "load_u16 b i = Inr w" by (simp add: load_u16_def ebind_eq_Inr load_bytes_eq_Inr)
qed

lemma load_u32_eq_Inr:
  "load_u32 b i = Inr w \<longleftrightarrow> i + 4 \<le> length b \<and> take 4 (drop i b) = map Some (u32_bytes w)"
proof
  assume "load_u32 b i = Inr w"
  then obtain vs where "load_bytes b i 4 = Inr vs" and "w = bytes_u32 vs"
    by (auto simp: load_u32_def ebind_eq_Inr)
  then show "i + 4 \<le> length b \<and> take 4 (drop i b) = map Some (u32_bytes w)"
    by (auto simp: load_bytes_eq_Inr u32_bytes_bytes_u32 dest!: arg_cong [where f = length])
next
  assume "i + 4 \<le> length b \<and> take 4 (drop i b) = map Some (u32_bytes w)"
  then show "load_u32 b i = Inr w" by (simp add: load_u32_def ebind_eq_Inr load_bytes_eq_Inr)
qed

lemma load_u8_head [mem_simps]: "load_u8 (Some b # cs) 0 = Inr b"
  by (simp add: load_u8_eq_Inr)

lemma load_u8_head_map [mem_simps]: "bs \<noteq> [] \<Longrightarrow> load_u8 (map Some bs) 0 = Inr (bs ! 0)"
  by (simp add: load_u8_eq_Inr)

lemma store_cells_ok [mem_simps]:
  "i + length cs \<le> length b \<Longrightarrow> store_cells b i cs = Inr (take i b @ cs @ drop (i + length cs) b)"
  by (simp add: store_cells_def)

lemma store_cells_length: "store_cells b i cs = Inr b' \<Longrightarrow> length b' = length b"
  by (auto simp: store_cells_def split: if_splits)

lemma store_u8_ok [mem_simps]:
  "i < length b \<Longrightarrow> store_u8 b i v = Inr (take i b @ Some v # drop (Suc i) b)"
  by (simp add: store_u8_def store_cells_def)

lemma store_u32_ok [mem_simps]:
  "i + 4 \<le> length b \<Longrightarrow>
   store_u32 b i v = Inr (take i b @ map Some (u32_bytes v) @ drop (i + 4) b)"
  by (simp add: store_u32_def store_cells_def)

lemma memcpy_ok [mem_simps]:
  "j + n \<le> length src \<Longrightarrow> i + n \<le> length dst \<Longrightarrow>
   memcpy dst i src j n = Inr (take i dst @ take n (drop j src) @ drop (i + n) dst)"
  by (simp add: memcpy_def store_cells_def)

lemma memcpy_src_short [mem_simps]: "length src < j + n \<Longrightarrow> memcpy dst i src j n = Inl Out_of_bounds"
  by (simp add: memcpy_def)

section \<open>C strings\<close>

text \<open>
  What a callee that takes \<open>char *\<close> sees of a buffer: the bytes before the first zero.
  Running off the end of the buffer without meeting one is a read out of bounds.
\<close>

fun c_string :: "buffer \<Rightarrow> string result" where
  "c_string [] = Inl Out_of_bounds"
| "c_string (None # cs) = Inl Uninitialised"
| "c_string (Some v # cs) =
     (if v = 0 then Inr [] else ebind (c_string cs) (\<lambda>s. Inr (char_of (unat v) # s)))"

definition chars :: "u8 list \<Rightarrow> string" where
  "chars bs = map (\<lambda>b. char_of (unat b)) bs"

lemma c_string_terminated: "c_string (map Some bs @ Some 0 # cs) = Inr (chars (takeWhile (\<lambda>b. b \<noteq> 0) bs))"
  by (induction bs) (simp_all add: chars_def)

lemma c_string_map_Some:
  "c_string (map Some bs) =
     (if 0 \<in> set bs then Inr (chars (takeWhile (\<lambda>b. b \<noteq> 0) bs)) else Inl Out_of_bounds)"
  by (induction bs) (simp_all add: chars_def)

text \<open>The buffer that holds a string literal.\<close>

definition cstr :: "string \<Rightarrow> buffer" where
  "cstr s = map (\<lambda>c. Some (of_char c)) s @ [Some 0]"

lemma unat_of_char [simp]: "unat (of_char c :: u8) = of_char c"
proof -
  have "(of_char c :: u8) = of_nat (of_char c)" by (simp add: of_nat_of_char)
  then show ?thesis by (simp only: unat_of_nat) simp
qed

lemma c_string_cstr: "CHR 0x00 \<notin> set s \<Longrightarrow> c_string (cstr s) = Inr s"
proof (induction s)
  case Nil
  then show ?case by (simp add: cstr_def)
next
  case (Cons c s)
  have "(of_char c :: u8) \<noteq> 0"
  proof
    assume "(of_char c :: u8) = 0"
    then have "(of_char c :: nat) = of_char (CHR 0x00)" using unat_of_char [of c] by simp
    then have "c = CHR 0x00" by (simp only: of_char_eq_iff)
    with Cons.prems show False by simp
  qed
  with Cons show ?case by (simp add: cstr_def)
qed

end
