(* ===== verification/Packets.thy ===== *)
theory Packets
  imports Memory
begin

text \<open>
  The wire format (src/src/packets.h): the packet structs as records, their parsing
  constructors and \<open>serialize\<close> members as functions over the memory model. A parser
  takes the buffer its pointer points into and, separately, the length the caller claims,
  because the code trusts the length (the websocket message sits inside a larger receive
  buffer). \<open>size_t\<close> arithmetic is done on 64-bit words, so a short message wraps.

  The two contracts at the end are what the rest of the model relies on: \<open>packet_codec\<close>
  (serialising gives the wire image, parsing the image gives the packet back) and
  \<open>exact_codec\<close> (parsing accepts nothing but an image). Each is interpreted on the
  packet types that meet it.
\<close>

section \<open>Constants\<close>

definition BUFFER_COUNT :: u32 where "BUFFER_COUNT = 127"
definition SEGMENT_SIZE :: size_t where "SEGMENT_SIZE = 1024 * 20"
definition MAX_WS_FRAME :: size_t where "MAX_WS_FRAME = 63 * 1000000"
definition MAX_QUEUE :: size_t where "MAX_QUEUE = 1000"

definition PACKET_CONNECT :: u8 where "PACKET_CONNECT = 0x01"
definition PACKET_DATA :: u8 where "PACKET_DATA = 0x02"
definition PACKET_CONTINUE :: u8 where "PACKET_CONTINUE = 0x03"
definition PACKET_CLOSE :: u8 where "PACKET_CLOSE = 0x04"
definition PACKET_INFO :: u8 where "PACKET_INFO = 0x05"

lemmas packet_types =
  PACKET_CONNECT_def PACKET_DATA_def PACKET_CONTINUE_def PACKET_CLOSE_def PACKET_INFO_def

section \<open>WispPacket\<close>

record wisp_packet =
  packet_type :: u8
  stream_id :: u32
  data :: buffer
  data_len :: size_t

text \<open>The parsing constructor.\<close>

definition WispPacket :: "buffer \<Rightarrow> size_t \<Rightarrow> wisp_packet result" where
  "WispPacket src src_length =
     ebind (load_u8 src 0) (\<lambda>pt.
     ebind (load_u32 src 1) (\<lambda>sid.
       let header_size = 1 + 4 :: size_t;
           dlen = src_length - header_size
       in ebind (alloc dlen) (\<lambda>d.
          ebind (memcpy d 0 src (unat header_size) (unat dlen)) (\<lambda>d'.
            Inr \<lparr>packet_type = pt, stream_id = sid, data = d', data_len = dlen\<rparr>))))"

text \<open>The constructor that copies its payload from a raw pointer.\<close>

definition WispPacket_copy :: "u8 \<Rightarrow> u32 \<Rightarrow> buffer \<Rightarrow> size_t \<Rightarrow> wisp_packet result" where
  "WispPacket_copy pt sid data_src dlen =
     ebind (alloc dlen) (\<lambda>d.
     ebind (memcpy d 0 data_src 0 (unat dlen)) (\<lambda>d'.
       Inr \<lparr>packet_type = pt, stream_id = sid, data = d', data_len = dlen\<rparr>))"

text \<open>The constructor that takes over a shared pointer.\<close>

definition WispPacket_move :: "u8 \<Rightarrow> u32 \<Rightarrow> buffer \<Rightarrow> size_t \<Rightarrow> wisp_packet" where
  "WispPacket_move pt sid data_src dlen =
     \<lparr>packet_type = pt, stream_id = sid, data = data_src, data_len = dlen\<rparr>"

definition WispPacket_serialize :: "wisp_packet \<Rightarrow> (buffer \<times> size_t) result" where
  "WispPacket_serialize p =
     (let build_size = 1 + 4 + data_len p
      in ebind (alloc build_size) (\<lambda>b.
         ebind (store_u8 b 0 (packet_type p)) (\<lambda>b.
         ebind (store_u32 b 1 (stream_id p)) (\<lambda>b.
         ebind (memcpy b (unat (build_size - data_len p)) (data p) 0 (unat (data_len p))) (\<lambda>b.
           Inr (b, build_size))))))"

section \<open>InfoPacket\<close>

record info_packet =
  major_wisp_version :: u8
  minor_wisp_version :: u8
  extension_data :: buffer
  extension_data_len :: size_t

definition InfoPacket :: "buffer \<Rightarrow> size_t \<Rightarrow> info_packet result" where
  "InfoPacket src src_length =
     ebind (load_u8 src 0) (\<lambda>major.
     ebind (load_u8 src 1) (\<lambda>minor.
       let header_size = 1 + 1 :: size_t;
           elen = src_length - header_size
       in ebind (alloc elen) (\<lambda>d.
          ebind (memcpy d 0 src (unat header_size) (unat elen)) (\<lambda>d'.
            Inr \<lparr>major_wisp_version = major, minor_wisp_version = minor,
                 extension_data = d', extension_data_len = elen\<rparr>))))"

definition InfoPacket_copy :: "u8 \<Rightarrow> u8 \<Rightarrow> buffer \<Rightarrow> size_t \<Rightarrow> info_packet result" where
  "InfoPacket_copy major minor src src_length =
     ebind (alloc src_length) (\<lambda>d.
     ebind (memcpy d 0 src 0 (unat src_length)) (\<lambda>d'.
       Inr \<lparr>major_wisp_version = major, minor_wisp_version = minor,
            extension_data = d', extension_data_len = src_length\<rparr>))"

definition InfoPacket_serialize :: "info_packet \<Rightarrow> (buffer \<times> size_t) result" where
  "InfoPacket_serialize p =
     (let build_size = 1 + 1 + extension_data_len p
      in ebind (alloc build_size) (\<lambda>b.
         ebind (store_u8 b 0 (major_wisp_version p)) (\<lambda>b.
         ebind (store_u8 b 1 (minor_wisp_version p)) (\<lambda>b.
         ebind (memcpy b (unat (build_size - extension_data_len p)) (extension_data p) 0
                  (unat (extension_data_len p))) (\<lambda>b.
           Inr (b, build_size))))))"

section \<open>ConnectPacket\<close>

record connect_packet =
  stream_type :: u8
  destination_port :: u16
  destination_hostname :: buffer
  destination_hostname_len :: size_t

text \<open>
  The last byte of the payload decides whether room for a terminator is added; the code
  looks at it twice, before and after the allocation.
\<close>

definition ConnectPacket :: "buffer \<Rightarrow> size_t \<Rightarrow> connect_packet result" where
  "ConnectPacket src src_length =
     ebind (load_u8 src 0) (\<lambda>ty.
     ebind (load_u16 src 1) (\<lambda>port.
       let header_size = 1 + 2 :: size_t;
           hlen = src_length - header_size
       in ebind (load_u8 src (unat (src_length - 1))) (\<lambda>last.
          let hlen = (if last \<noteq> 0 then hlen + 1 else hlen)
          in ebind (alloc hlen) (\<lambda>h.
             ebind (load_u8 src (unat (src_length - 1))) (\<lambda>last.
             ebind (if last \<noteq> 0 then store_u8 h (unat (hlen - 1)) 0 else Inr h) (\<lambda>h.
             ebind (memcpy h 0 src (unat header_size) (unat (src_length - header_size))) (\<lambda>h.
               Inr \<lparr>stream_type = ty, destination_port = port,
                    destination_hostname = h, destination_hostname_len = hlen\<rparr>)))))))"

section \<open>DataPacket, ContinuePacket, ClosePacket\<close>

record data_packet =
  stream_payload :: buffer
  stream_payload_len :: size_t

definition DataPacket :: "buffer \<Rightarrow> size_t \<Rightarrow> data_packet result" where
  "DataPacket src src_length =
     ebind (alloc src_length) (\<lambda>d.
     ebind (memcpy d 0 src 0 (unat src_length)) (\<lambda>d'.
       Inr \<lparr>stream_payload = d', stream_payload_len = src_length\<rparr>))"

record continue_packet =
  buffer_remaining :: u32

definition ContinuePacket :: "buffer \<Rightarrow> size_t \<Rightarrow> continue_packet result" where
  "ContinuePacket src n = ebind (load_u32 src 0) (\<lambda>v. Inr \<lparr>buffer_remaining = v\<rparr>)"

definition ContinuePacket_of :: "u32 \<Rightarrow> continue_packet" where
  "ContinuePacket_of v = \<lparr>buffer_remaining = v\<rparr>"

definition ContinuePacket_serialize :: "continue_packet \<Rightarrow> (buffer \<times> size_t) result" where
  "ContinuePacket_serialize p =
     (let build_size = 4
      in ebind (alloc build_size) (\<lambda>b.
         ebind (store_u32 b 0 (buffer_remaining p)) (\<lambda>b. Inr (b, build_size))))"

record close_packet =
  close_reason :: u8

definition ClosePacket :: "buffer \<Rightarrow> size_t \<Rightarrow> close_packet result" where
  "ClosePacket src n = ebind (load_u8 src 0) (\<lambda>v. Inr \<lparr>close_reason = v\<rparr>)"

definition ClosePacket_of :: "u8 \<Rightarrow> close_packet" where
  "ClosePacket_of r = \<lparr>close_reason = r\<rparr>"

definition ClosePacket_serialize :: "close_packet \<Rightarrow> (buffer \<times> size_t) result" where
  "ClosePacket_serialize p =
     (let build_size = 1
      in ebind (alloc build_size) (\<lambda>b.
         ebind (store_u8 b 0 (close_reason p)) (\<lambda>b. Inr (b, build_size))))"

section \<open>Laws\<close>

definition wisp_ok :: "wisp_packet \<Rightarrow> bool" where
  "wisp_ok p \<longleftrightarrow> unat (data_len p) = length (data p) \<and> 5 + length (data p) < 2 ^ 63"

definition wisp_image :: "wisp_packet \<Rightarrow> buffer" where
  "wisp_image p = Some (packet_type p) # map Some (u32_bytes (stream_id p)) @ data p"

lemma length_wisp_image [simp]: "length (wisp_image p) = 5 + length (data p)"
  by (simp add: wisp_image_def)

lemma WispPacket_serialize_image:
  assumes "wisp_ok p"
  shows "WispPacket_serialize p = Inr (wisp_image p, 5 + data_len p)"
proof -
  have n: "unat (5 + data_len p) = 5 + length (data p)"
    using assms by (simp add: wisp_ok_def unat_size_add)
  with assms show ?thesis
    by (simp add: WispPacket_serialize_def wisp_ok_def wisp_image_def mem_simps)
qed


lemma WispPacket_on_image:
  assumes "unat n = 5 + length (data p)" and "unat n < 2 ^ 63 + 5" and "data_len p = n - 5"
  shows "WispPacket (wisp_image p @ rest) n = Inr p"
proof -
  from assms have dl: "unat (n - 5) = length (data p)" by (simp add: unat_size_diff)
  have "load_u8 (wisp_image p @ rest) 0 = Inr (packet_type p)"
    by (simp add: load_u8_eq_Inr wisp_image_def)
  moreover have "load_u32 (wisp_image p @ rest) 1 = Inr (stream_id p)"
    by (simp add: load_u32_eq_Inr wisp_image_def)
  moreover have "drop 5 (wisp_image p @ rest) = data p @ rest"
    by (simp add: wisp_image_def)
  ultimately show ?thesis
    using assms dl by (simp add: WispPacket_def mem_simps)
qed

lemma WispPacket_eq_Inr:
  "WispPacket src n = Inr p \<longleftrightarrow>
     5 \<le> unat n \<and> unat n < 2 ^ 63 + 5 \<and> unat n \<le> length src \<and> data_len p = n - 5 \<and>
     take (unat n) src = wisp_image p"
proof
  assume "WispPacket src n = Inr p"
  then have "0 < length src" and pt: "src ! 0 = Some (packet_type p)"
    and sid: "take 4 (drop 1 src) = map Some (u32_bytes (stream_id p))"
    and len: "5 + unat (n - 5) \<le> length src" and lim: "unat (n - 5) < 2 ^ 63"
    and dlen: "data_len p = n - 5" and d: "data p = take (unat (n - 5)) (drop 5 src)"
    by (auto simp: WispPacket_def Let_def ebind_eq_Inr load_u8_eq_Inr load_u32_eq_Inr alloc_eq_Inr
        memcpy_def store_cells_def split: if_splits)
  from lim have n: "5 \<le> unat n" "unat (n - 5) = unat n - 5"
    by (auto simp: unat_size_diff split: if_splits)
  then have "take (unat n) src = wisp_image p"
    using len by (simp add: take_split [of 5 "unat n" src] take_header5 pt sid [simplified] wisp_image_def d)
  with n len lim dlen show "5 \<le> unat n \<and> unat n < 2 ^ 63 + 5 \<and> unat n \<le> length src \<and>
     data_len p = n - 5 \<and> take (unat n) src = wisp_image p"
    by simp
next
  assume a: "5 \<le> unat n \<and> unat n < 2 ^ 63 + 5 \<and> unat n \<le> length src \<and> data_len p = n - 5 \<and>
     take (unat n) src = wisp_image p"
  then have "min (length src) (unat n) = 5 + length (data p)"
    by (metis length_take length_wisp_image)
  with a have "unat n = 5 + length (data p)" by simp
  moreover from a have "src = wisp_image p @ drop (unat n) src" by (metis append_take_drop_id)
  ultimately show "WispPacket src n = Inr p" using a WispPacket_on_image by metis
qed

section \<open>The codec contracts\<close>

locale packet_codec =
  fixes serialize :: "'p \<Rightarrow> (buffer \<times> size_t) result"
    and parse :: "buffer \<Rightarrow> size_t \<Rightarrow> 'p result"
    and ok :: "'p \<Rightarrow> bool"
    and image :: "'p \<Rightarrow> buffer"
  assumes image_size: "ok p \<Longrightarrow> length (image p) < 2 ^ 63"
    and serialize_image: "ok p \<Longrightarrow> serialize p = Inr (image p, of_nat (length (image p)))"
    and parse_image: "ok p \<Longrightarrow> parse (image p @ rest) (of_nat (length (image p))) = Inr p"
begin

lemma roundtrip: "ok p \<Longrightarrow> ebind (serialize p) (\<lambda>(b, n). parse (b @ rest) n) = Inr p"
  by (simp add: serialize_image parse_image)

lemma serialize_inj:
  assumes "ok p" and "ok q" and "serialize p = serialize q"
  shows "p = q"
proof -
  from assms have "image p = image q" by (simp add: serialize_image)
  with assms(1,2) parse_image [of p "[]"] parse_image [of q "[]"] show ?thesis by simp
qed

lemma serialize_size: "ok p \<Longrightarrow> serialize p = Inr (b, n) \<Longrightarrow> unat n = length b \<and> length b < 2 ^ 63"
  using image_size [of p] by (auto simp: serialize_image unat_of_nat)

end

locale exact_codec = packet_codec +
  assumes parse_exact: "parse b n = Inr p \<Longrightarrow> unat n < 2 ^ 63 \<Longrightarrow>
      ok p \<and> unat n \<le> length b \<and> take (unat n) b = image p"
begin

lemma serialize_parse:
  assumes "parse b n = Inr p" and "unat n < 2 ^ 63"
  shows "serialize p = Inr (take (unat n) b, n)"
proof -
  from parse_exact [OF assms] have p: "ok p" "unat n \<le> length b" "take (unat n) b = image p" by auto
  then have "length (image p) = unat n" by (metis length_take min.absorb2)
  with p show ?thesis by (simp add: serialize_image)
qed

end

lemma wisp_ok_size:
  assumes "wisp_ok p"
  shows "unat (of_nat (5 + length (data p)) :: size_t) = 5 + length (data p)"
    and "data_len p = of_nat (5 + length (data p)) - 5"
proof -
  show n: "unat (of_nat (5 + length (data p)) :: size_t) = 5 + length (data p)"
    using assms by (simp only: unat_of_nat) (simp add: wisp_ok_def)
  show "data_len p = of_nat (5 + length (data p)) - 5"
    using assms by (simp add: wisp_ok_def size_of_nat)
qed

interpretation wisp: exact_codec WispPacket_serialize WispPacket wisp_ok wisp_image
proof
  fix p rest
  assume p: "wisp_ok p"
  then show "length (wisp_image p) < 2 ^ 63" by (simp add: wisp_ok_def)
  show "WispPacket_serialize p = Inr (wisp_image p, of_nat (length (wisp_image p)))"
    using p wisp_ok_size [OF p] by (simp add: WispPacket_serialize_image)
  show "WispPacket (wisp_image p @ rest) (of_nat (length (wisp_image p))) = Inr p"
    unfolding length_wisp_image
    using wisp_ok_size [OF p] p by (intro WispPacket_on_image) (simp_all add: wisp_ok_def)
next
  fix b n p
  assume p: "WispPacket b n = Inr p" and n: "unat n < 2 ^ 63"
  then have i: "5 \<le> unat n" "unat n \<le> length b" "data_len p = n - 5" "take (unat n) b = wisp_image p"
    by (simp_all add: WispPacket_eq_Inr)
  then have "unat n = length (wisp_image p)" by (metis length_take min.absorb2)
  with i n show "wisp_ok p \<and> unat n \<le> length b \<and> take (unat n) b = wisp_image p"
    by (simp add: wisp_ok_def unat_size_diff)
qed

text \<open>InfoPacket.\<close>

definition info_ok :: "info_packet \<Rightarrow> bool" where
  "info_ok p \<longleftrightarrow> unat (extension_data_len p) = length (extension_data p) \<and>
     2 + length (extension_data p) < 2 ^ 63"

definition info_image :: "info_packet \<Rightarrow> buffer" where
  "info_image p = Some (major_wisp_version p) # Some (minor_wisp_version p) # extension_data p"

lemma length_info_image [simp]: "length (info_image p) = 2 + length (extension_data p)"
  by (simp add: info_image_def)

lemma info_ok_size:
  assumes "info_ok p"
  shows "unat (of_nat (2 + length (extension_data p)) :: size_t) = 2 + length (extension_data p)"
    and "extension_data_len p = of_nat (2 + length (extension_data p)) - 2"
proof -
  show n: "unat (of_nat (2 + length (extension_data p)) :: size_t) = 2 + length (extension_data p)"
    using assms by (simp only: unat_of_nat) (simp add: info_ok_def)
  show "extension_data_len p = of_nat (2 + length (extension_data p)) - 2"
    using assms by (simp add: info_ok_def size_of_nat)
qed

lemma InfoPacket_serialize_image:
  assumes "info_ok p"
  shows "InfoPacket_serialize p = Inr (info_image p, 2 + extension_data_len p)"
proof -
  have n: "unat (2 + extension_data_len p) = 2 + length (extension_data p)"
    using assms by (simp add: info_ok_def unat_size_add)
  with assms show ?thesis
    by (simp add: InfoPacket_serialize_def info_ok_def info_image_def mem_simps)
qed

lemma InfoPacket_on_image:
  assumes "unat n = 2 + length (extension_data p)" and "unat n < 2 ^ 63 + 2"
    and "extension_data_len p = n - 2"
  shows "InfoPacket (info_image p @ rest) n = Inr p"
proof -
  from assms have dl: "unat (n - 2) = length (extension_data p)" by (simp add: unat_size_diff)
  have "load_u8 (info_image p @ rest) 0 = Inr (major_wisp_version p)"
    and "load_u8 (info_image p @ rest) 1 = Inr (minor_wisp_version p)"
    by (simp_all add: load_u8_eq_Inr info_image_def)
  moreover have "drop 2 (info_image p @ rest) = extension_data p @ rest"
    by (simp add: info_image_def)
  ultimately show ?thesis
    using assms dl by (simp add: InfoPacket_def mem_simps)
qed

lemma InfoPacket_eq_InrD:
  assumes "InfoPacket src n = Inr p"
  shows "2 \<le> unat n" and "unat n \<le> length src" and "extension_data_len p = n - 2"
    and "take (unat n) src = info_image p"
proof -
  from assms have hd: "src ! 0 = Some (major_wisp_version p)" "src ! 1 = Some (minor_wisp_version p)"
    and len: "2 + unat (n - 2) \<le> length src" and lim: "unat (n - 2) < 2 ^ 63"
    and elen: "extension_data_len p = n - 2"
    and d: "extension_data p = take (unat (n - 2)) (drop 2 src)"
    by (auto simp: InfoPacket_def Let_def ebind_eq_Inr load_u8_eq_Inr alloc_eq_Inr
        memcpy_def store_cells_def split: if_splits)
  from lim show n: "2 \<le> unat n" by (auto simp: unat_size_diff split: if_splits)
  then have n2: "unat (n - 2) = unat n - 2" by (simp add: unat_size_diff)
  with n len show "unat n \<le> length src" by simp
  show "extension_data_len p = n - 2" by (fact elen)
  show "take (unat n) src = info_image p"
    using n n2 len by (simp add: take_split [of 2 "unat n" src] take_header2 hd [simplified] info_image_def d)
qed

interpretation info: exact_codec InfoPacket_serialize InfoPacket info_ok info_image
proof
  fix p rest
  assume p: "info_ok p"
  then show "length (info_image p) < 2 ^ 63" by (simp add: info_ok_def)
  show "InfoPacket_serialize p = Inr (info_image p, of_nat (length (info_image p)))"
    using p info_ok_size [OF p] by (simp add: InfoPacket_serialize_image)
  show "InfoPacket (info_image p @ rest) (of_nat (length (info_image p))) = Inr p"
    unfolding length_info_image
    using info_ok_size [OF p] p by (intro InfoPacket_on_image) (simp_all add: info_ok_def)
next
  fix b n p
  assume p: "InfoPacket b n = Inr p" and n: "unat n < 2 ^ 63"
  note i = InfoPacket_eq_InrD [OF p]
  then have "unat n = length (info_image p)" by (metis length_take min.absorb2)
  with i n show "info_ok p \<and> unat n \<le> length b \<and> take (unat n) b = info_image p"
    by (simp add: info_ok_def unat_size_diff)
qed

text \<open>
  The fixed-size packets meet the weaker contract only: their parsers ignore the length
  they are given.
\<close>

definition continue_image :: "continue_packet \<Rightarrow> buffer" where
  "continue_image p = map Some (u32_bytes (buffer_remaining p))"

definition close_image :: "close_packet \<Rightarrow> buffer" where
  "close_image p = [Some (close_reason p)]"

interpretation continue: packet_codec ContinuePacket_serialize ContinuePacket "\<lambda>_. True" continue_image
proof
  fix p rest
  show "length (continue_image p) < 2 ^ 63" by (simp add: continue_image_def)
  show "ContinuePacket_serialize p = Inr (continue_image p, of_nat (length (continue_image p)))"
    by (simp add: ContinuePacket_serialize_def continue_image_def mem_simps)
  show "ContinuePacket (continue_image p @ rest) (of_nat (length (continue_image p))) = Inr p"
    by (auto simp: ContinuePacket_def continue_image_def ebind_eq_Inr load_u32_eq_Inr
        intro: exI [of _ "buffer_remaining p"])
qed

interpretation close: packet_codec ClosePacket_serialize ClosePacket "\<lambda>_. True" close_image
proof
  fix p rest
  show "length (close_image p) < 2 ^ 63" by (simp add: close_image_def)
  show "ClosePacket_serialize p = Inr (close_image p, of_nat (length (close_image p)))"
    by (simp add: ClosePacket_serialize_def close_image_def mem_simps)
  show "ClosePacket (close_image p @ rest) (of_nat (length (close_image p))) = Inr p"
    by (simp add: ClosePacket_def close_image_def ebind_eq_Inr load_u8_eq_Inr)
qed


section \<open>Framing a payload\<close>

text \<open>
  Every packet the server sends is a payload wrapped in a \<open>WispPacket\<close> by the copying
  constructor and serialised again. \<open>frame\<close> is what goes out on the websocket.
\<close>

definition frame :: "u8 \<Rightarrow> u32 \<Rightarrow> buffer \<Rightarrow> buffer" where
  "frame t sid payload = Some t # map Some (u32_bytes sid) @ payload"

definition wrap :: "u8 \<Rightarrow> u32 \<Rightarrow> buffer \<Rightarrow> size_t \<Rightarrow> (buffer \<times> size_t) result" where
  "wrap t sid payload n = ebind (WispPacket_copy t sid payload n) WispPacket_serialize"

lemma frame_inj [simp]: "frame t sid p = frame t' sid' p' \<longleftrightarrow> t = t' \<and> sid = sid' \<and> p = p'"
proof
  assume "frame t sid p = frame t' sid' p'"
  then have "t = t'" and "u32_bytes sid = u32_bytes sid'" and "p = p'"
    by (auto simp: frame_def append_eq_append_conv)
  moreover from this(2) have "sid = sid'" by (metis bytes_u32_u32_bytes)
  ultimately show "t = t' \<and> sid = sid' \<and> p = p'" by simp
qed simp

lemma wrap_frame:
  assumes "unat n = length payload" and "5 + length payload < 2 ^ 63"
  shows "wrap t sid payload n = Inr (frame t sid payload, 5 + n)"
proof -
  let ?p = "\<lparr>packet_type = t, stream_id = sid, data = payload, data_len = n\<rparr>"
  have "WispPacket_copy t sid payload n = Inr ?p"
    using assms by (simp add: WispPacket_copy_def mem_simps)
  moreover have "wisp_ok ?p" using assms by (simp add: wisp_ok_def)
  ultimately show ?thesis
    by (simp add: wrap_def WispPacket_serialize_image frame_def wisp_image_def)
qed

text \<open>What a peer reads back from a frame, whatever follows it in its receive buffer.\<close>

lemma WispPacket_frame:
  assumes "5 + length payload < 2 ^ 63"
  shows "WispPacket (frame t sid payload @ rest) (of_nat (5 + length payload)) =
    Inr \<lparr>packet_type = t, stream_id = sid, data = payload, data_len = of_nat (length payload)\<rparr>"
proof -
  let ?p = "\<lparr>packet_type = t, stream_id = sid, data = payload, data_len = of_nat (length payload)\<rparr>"
  have "wisp_ok ?p" using assms by (simp add: wisp_ok_def unat_of_nat)
  from wisp.parse_image [OF this, of rest] show ?thesis
    by (simp add: wisp_image_def frame_def)
qed

context packet_codec
begin

lemma framed:
  assumes "ok p" and "5 + length (image p) < 2 ^ 63"
  shows "ebind (serialize p) (\<lambda>(b, n). wrap t sid b n) =
    Inr (frame t sid (image p), 5 + of_nat (length (image p)))"
  using assms by (simp add: serialize_image wrap_frame unat_of_nat)

end

section \<open>Parsing on determinate bytes\<close>

lemma WispPacket_bytes:
  assumes "5 \<le> length bs" and "unat n \<le> length bs" and "unat n < 2 ^ 63"
  shows "WispPacket (map Some bs) n =
    (if unat n < 5 then Inl Bad_alloc
     else Inr \<lparr>packet_type = bs ! 0, stream_id = bytes_u32 (take 4 (drop 1 bs)),
               data = map Some (take (unat n - 5) (drop 5 bs)), data_len = n - 5\<rparr>)"
proof -
  from assms(1) have "bs \<noteq> []" by auto
  with assms show ?thesis
    by (auto simp: WispPacket_def Let_def mem_simps unat_size_diff alloc_unat take_map drop_map)
qed

lemma WispPacket_no_header:
  assumes "length bs < 5"
  shows "WispPacket (map Some bs) n = Inl Out_of_bounds"
proof (cases bs)
  case Nil
  then show ?thesis by (simp add: WispPacket_def mem_simps)
next
  case (Cons b cs)
  with assms have "load_bytes (map Some bs) 1 4 = Inl Out_of_bounds"
    by (intro load_bytes_map_Some_short) simp_all
  with Cons show ?thesis by (simp add: WispPacket_def mem_simps load_u32_def)
qed

definition connect_hostname :: "u8 list \<Rightarrow> buffer" where
  "connect_hostname bs = map Some (drop 3 bs) @ (if last bs \<noteq> 0 then [Some 0] else [])"

lemma ConnectPacket_bytes:
  assumes n: "unat n = length bs" and bs: "3 \<le> length bs" "length bs < 2 ^ 62"
  shows "ConnectPacket (map Some bs) n =
    Inr \<lparr>stream_type = bs ! 0, destination_port = bytes_u16 (take 2 (drop 1 bs)),
         destination_hostname = connect_hostname bs,
         destination_hostname_len = of_nat (length (connect_hostname bs))\<rparr>"
proof -
  have n1: "unat (n - 1) = length bs - 1" and n2: "unat (n - 2) = length bs - 2"
    and n3: "unat (n - 3) = length bs - 3"
    using bs by (simp_all add: unat_size_diff n)
  have ne: "bs \<noteq> []" using bs(1) by auto
  have last: "load_u8 (map Some bs) (length bs - 1) = Inr (last bs)"
    using ne by (simp add: load_u8_eq_Inr last_conv_nth)
  have port: "load_u16 (map Some bs) 1 = Inr (bytes_u16 (take 2 (drop 1 bs)))"
    using bs(1) by (simp add: mem_simps)
  have copy: "memcpy h 0 (map Some bs) 3 (length bs - 3) =
      Inr (map Some (drop 3 bs) @ drop (length bs - 3) h)" if "length bs - 3 \<le> length h" for h
    using that bs(1) by (simp add: mem_simps drop_map)
  show ?thesis
  proof (cases "last bs = 0")
    case True
    then have ch: "connect_hostname bs = map Some (drop 3 bs)"
      by (simp add: connect_hostname_def)
    have len: "of_nat (length (connect_hostname bs)) = n - 3"
      by (rule size_of_nat [symmetric]) (simp add: n3 ch)
    show ?thesis
      unfolding len ch using bs True
      by (simp add: ConnectPacket_def Let_def load_u8_head_map [OF ne] port [simplified]
          last [simplified] n1 n3 alloc_ok copy) (rule size_of_nat [OF n])
  next
    case False
    then have ch: "connect_hostname bs = map Some (drop 3 bs) @ [Some 0]"
      by (simp add: connect_hostname_def)
    have len: "of_nat (length (connect_hostname bs)) = n - 2"
      by (rule size_of_nat [symmetric]) (use bs in \<open>simp add: n2 ch\<close>)
    have "store_u8 (replicate (length bs - 2) None) (length bs - 3) 0 =
        Inr (replicate (length bs - 3) None @ [Some 0])"
      using bs(1) by (simp add: store_u8_ok min_def)
    then show ?thesis
      unfolding len ch using bs False
      by (simp add: ConnectPacket_def Let_def load_u8_head_map [OF ne] port [simplified]
          last [simplified] n1 n2 n3 alloc_ok copy) (rule size_of_nat [OF n])
  qed
qed

lemma ConnectPacket_short:
  assumes "length bs < 3"
  shows "ConnectPacket (map Some bs) n = Inl Out_of_bounds"
proof (cases bs)
  case Nil
  then show ?thesis by (simp add: ConnectPacket_def mem_simps)
next
  case (Cons b cs)
  with assms have "load_bytes (map Some bs) 1 2 = Inl Out_of_bounds"
    by (intro load_bytes_map_Some_short) simp_all
  with Cons show ?thesis by (simp add: ConnectPacket_def mem_simps load_u16_def)
qed

text \<open>With at least one hostname byte the buffer is terminated, so it is a C string.\<close>

lemma connect_hostname_c_string:
  assumes "3 < length bs"
  shows "c_string (connect_hostname bs) = Inr (chars (takeWhile (\<lambda>b. b \<noteq> 0) (drop 3 bs)))"
proof (cases "last bs = 0")
  case True
  have "last (drop 3 bs) \<in> set (drop 3 bs)" using assms by (intro last_in_set) simp
  with True assms have "0 \<in> set (drop 3 bs)" by simp
  with True show ?thesis by (simp add: connect_hostname_def c_string_map_Some)
next
  case False
  then show ?thesis by (simp add: connect_hostname_def c_string_terminated)
qed

lemma connect_hostname_empty:
  assumes "length bs = 3"
  shows "c_string (connect_hostname bs) = (if last bs = 0 then Inl Out_of_bounds else Inr [])"
  using assms by (simp add: connect_hostname_def)

section \<open>The expectations of the test suite\<close>

text \<open>tests/test.cpp, evaluated on the model.\<close>

lemma test_WispPacket_Parsing:
  "WispPacket (map Some [9, 8, 0, 0, 0, 1, 2, 3]) 8 =
     Inr \<lparr>packet_type = 9, stream_id = 8, data = map Some [1, 2, 3], data_len = 3\<rparr>"
  by (subst WispPacket_bytes) simp_all

lemma test_WispPacket_Serializing:
  "ebind (WispPacket (map Some [9, 8, 0, 0, 0, 1, 2, 3]) 8) WispPacket_serialize =
     Inr (map Some [9, 8, 0, 0, 0, 1, 2, 3], 8)"
  unfolding test_WispPacket_Parsing
  by (simp add: WispPacket_serialize_image wisp_ok_def wisp_image_def u32_bytes_def)

lemma test_ContinuePacket_Parsing:
  "ContinuePacket (map Some [0x15, 0xCD, 0x5B, 0x07]) 4 = Inr \<lparr>buffer_remaining = 123456789\<rparr>"
  by (simp add: ContinuePacket_def load_u32_map_Some del: list.map)

lemma test_ClosePacket_Parsing: "ClosePacket [Some 0x41] 1 = Inr \<lparr>close_reason = 0x41\<rparr>"
  by (simp add: ClosePacket_def mem_simps)

lemma test_InfoPacket_Parsing:
  "InfoPacket (map Some [9, 17]) 2 =
     Inr \<lparr>major_wisp_version = 9, minor_wisp_version = 17, extension_data = [], extension_data_len = 0\<rparr>"
  by (simp add: InfoPacket_def load_u8_eq_Inr Let_def mem_simps) (simp add: load_u8_def load_cell_def)

section \<open>Properties\<close>

text \<open>
  C15: Serialising a well-formed WispPacket and parsing the result, at the head of any receive
  buffer, gives the packet back: neither side reads or writes outside its buffers, and
  type, stream id and payload survive unchanged.
\<close>
theorem WispPacket_roundtrip:
  assumes "wisp_ok p"
  shows "ebind (WispPacket_serialize p) (\<lambda>(b, n). WispPacket (b @ rest) n) = Inr p"
  using assms by (rule wisp.roundtrip)

theorem WispPacket_roundtrip_witness:
  "ebind (WispPacket_serialize \<lparr>packet_type = 2, stream_id = 7, data = map Some [1, 2], data_len = 2\<rparr>)
     (\<lambda>(b, n). WispPacket (b @ [None]) n) =
   Inr \<lparr>packet_type = 2, stream_id = 7, data = map Some [1, 2], data_len = 2\<rparr>"
  by (rule WispPacket_roundtrip) (simp add: wisp_ok_def)

text \<open>
  Parsing is injective and loses nothing: a message that the WispPacket constructor accepts
  is exactly what serialising the parsed packet produces, byte for byte.
\<close>
theorem WispPacket_canonical:
  assumes "WispPacket src n = Inr p" and "unat n < 2 ^ 63"
  shows "WispPacket_serialize p = Inr (take (unat n) src, n)"
  using assms by (rule wisp.serialize_parse)

theorem WispPacket_canonical_witness:
  "WispPacket_serialize \<lparr>packet_type = 9, stream_id = 8, data = map Some [1, 2, 3], data_len = 3\<rparr> =
     Inr (take (unat (8 :: size_t)) (map Some [9, 8, 0, 0, 0, 1, 2, 3]), 8)"
  by (rule WispPacket_canonical [OF test_WispPacket_Parsing]) simp

text \<open>
  C16: The WispPacket constructor on every message of a receive buffer: with a complete header it
  splits the message at byte 5; a message shorter than the header that lies in a larger
  receive buffer makes \<open>src_length - header_size\<close> wrap, so that the allocation throws; a
  buffer shorter than the header is read out of bounds.
\<close>
theorem WispPacket_outcomes:
  assumes "unat n \<le> length bs" and "unat n < 2 ^ 63"
  shows "WispPacket (map Some bs) n =
    (if length bs < 5 then Inl Out_of_bounds
     else if unat n < 5 then Inl Bad_alloc
     else Inr \<lparr>packet_type = bs ! 0, stream_id = bytes_u32 (take 4 (drop 1 bs)),
               data = map Some (take (unat n - 5) (drop 5 bs)), data_len = n - 5\<rparr>)"
  using assms by (simp add: WispPacket_no_header WispPacket_bytes)

theorem WispPacket_outcomes_witness:
  "WispPacket (map Some [2, 7, 0, 0, 0, 42, 43]) 3 = Inl Bad_alloc"
  by (subst WispPacket_outcomes) simp_all

text \<open>
  C35: The ConnectPacket constructor on a payload of any length: below three bytes it reads out of
  bounds; from three bytes on it yields the stream type, the little-endian port and a
  hostname buffer that reads as the C string of the bytes before the first zero, the
  terminator being added when the payload lacks one. The exception is a payload of exactly
  three bytes whose last one, the high byte of the port, is zero: its hostname buffer is
  empty and has no terminator.
\<close>
theorem ConnectPacket_outcomes:
  assumes "length bs < 2 ^ 62"
  shows "case ConnectPacket (map Some bs) (of_nat (length bs)) of
      Inl e \<Rightarrow> e = Out_of_bounds \<and> length bs < 3
    | Inr c \<Rightarrow> 3 \<le> length bs \<and> stream_type c = bs ! 0 \<and>
        destination_port c = bytes_u16 (take 2 (drop 1 bs)) \<and>
        unat (destination_hostname_len c) = length (destination_hostname c) \<and>
        c_string (destination_hostname c) =
          (if length bs = 3 \<and> last bs = 0 then Inl Out_of_bounds
           else Inr (chars (takeWhile (\<lambda>b. b \<noteq> 0) (drop 3 bs))))"
proof (cases "length bs < 3")
  case True
  then show ?thesis by (simp add: ConnectPacket_short)
next
  case False
  have n: "unat (of_nat (length bs) :: size_t) = length bs"
    using assms by (simp add: unat_of_nat)
  have "length (connect_hostname bs) < 2 ^ 63"
    using assms by (auto simp: connect_hostname_def)
  then have "unat (of_nat (length (connect_hostname bs)) :: size_t) = length (connect_hostname bs)"
    by (simp add: unat_of_nat)
  moreover have "c_string (connect_hostname bs) =
      (if length bs = 3 \<and> last bs = 0 then Inl Out_of_bounds
       else Inr (chars (takeWhile (\<lambda>b. b \<noteq> 0) (drop 3 bs))))"
    using False by (cases "length bs = 3")
      (simp_all add: connect_hostname_empty connect_hostname_c_string chars_def)
  ultimately show ?thesis
    using False assms by (simp add: ConnectPacket_bytes [OF n])
qed

theorem ConnectPacket_outcomes_witness:
  "case ConnectPacket (map Some [1, 80, 0, 97, 98]) 5 of
      Inl e \<Rightarrow> False
    | Inr c \<Rightarrow> destination_port c = 80 \<and> c_string (destination_hostname c) = Inr ''ab''"
proof -
  have "length [1 :: u8, 80, 0, 97, 98] < 2 ^ 62" by simp
  note ConnectPacket_outcomes [OF this]
  then show ?thesis by (auto simp: chars_def char_of_def bit_Suc_0_iff split: sum.splits)
qed

end
