(* ===== verification/Config.thy ===== *)
theory Config
  imports Prelude
begin

text \<open>
  The configuration (src/src/server.h, src/src/config.cpp): the tagged union
  \<open>WoefulConfig::Member\<close> with the life time of its string member made explicit, the
  configuration record, and \<open>read_config\<close> over the interface of tinyxml2.

  tinyxml2 is not part of the repository: the calls the code makes of it are the fields of a
  record \<open>tinyxml\<close> that every definition takes as its first argument. The loop of
  \<open>read_config\<close> follows the library's sibling pointers, so it is a
  \<open>partial_function\<close>: not returning is \<open>None\<close>, and \<open>read_children_terminates\<close>
  shows that it returns whenever the sibling chain is finite, which is the one documented
  property of the library it needs.
\<close>

section \<open>WoefulConfig::Member\<close>

datatype member_type = MEMBER_HOSTNAME | MEMBER_PORT

text \<open>
  \<open>MemberUnion\<close>: which member of the union is alive. Its constructor and destructor are
  empty, so the enclosing class must place and destroy the string itself.
\<close>

datatype member_union = Raw | Hostname string | Port u32

record member =
  mtype :: member_type
  mdata :: member_union

text \<open>Placement new of a string, destruction of a string, reads of the two members.\<close>

fun place_string :: "member_union \<Rightarrow> string \<Rightarrow> member_union result" where
  "place_string (Hostname t) s = Inl Leaked_string"
| "place_string Raw s = Inr (Hostname s)"
| "place_string (Port p) s = Inr (Hostname s)"

fun destroy_string :: "member_union \<Rightarrow> member_union result" where
  "destroy_string (Hostname t) = Inr Raw"
| "destroy_string Raw = Inl Dead_string"
| "destroy_string (Port p) = Inl Dead_string"

fun read_string :: "member_union \<Rightarrow> string result" where
  "read_string (Hostname t) = Inr t"
| "read_string Raw = Inl Dead_string"
| "read_string (Port p) = Inl Dead_string"

fun read_port :: "member_union \<Rightarrow> u32 result" where
  "read_port (Port p) = Inr p"
| "read_port Raw = Inl Uninitialised"
| "read_port (Hostname t) = Inl Uninitialised"

text \<open>Assigning the integer member ends the life of whatever was there; a string is leaked.\<close>

fun assign_port :: "member_union \<Rightarrow> u32 \<Rightarrow> member_union result" where
  "assign_port (Hostname t) p = Inl Leaked_string"
| "assign_port Raw p = Inr (Port p)"
| "assign_port (Port q) p = Inr (Port p)"

definition Member_str :: "string \<Rightarrow> member result" where
  "Member_str str =
     ebind (place_string Raw str) (\<lambda>d. Inr \<lparr>mtype = MEMBER_HOSTNAME, mdata = d\<rparr>)"

definition Member_port :: "u32 \<Rightarrow> member result" where
  "Member_port port = ebind (assign_port Raw port) (\<lambda>d. Inr \<lparr>mtype = MEMBER_PORT, mdata = d\<rparr>)"

text \<open>The switch that the copy constructor and the assignment share.\<close>

definition copy_union :: "member_union \<Rightarrow> member \<Rightarrow> member_union result" where
  "copy_union u b =
     (case mtype b of
        MEMBER_HOSTNAME \<Rightarrow> ebind (read_string (mdata b)) (place_string u)
      | MEMBER_PORT \<Rightarrow> ebind (read_port (mdata b)) (assign_port u))"

definition Member_copy :: "member \<Rightarrow> member result" where
  "Member_copy b = ebind (copy_union Raw b) (\<lambda>d. Inr \<lparr>mtype = mtype b, mdata = d\<rparr>)"

text \<open>\<open>same\<close> is the self-assignment test \<open>this != &b\<close> failing.\<close>

definition Member_assign :: "bool \<Rightarrow> member \<Rightarrow> member \<Rightarrow> member result" where
  "Member_assign same a b =
     (if same then Inr a
      else ebind (if mtype a = MEMBER_HOSTNAME then destroy_string (mdata a) else Inr (mdata a))
        (\<lambda>u. ebind (copy_union u b) (\<lambda>d. Inr \<lparr>mtype = mtype b, mdata = d\<rparr>)))"

definition Member_destroy :: "member \<Rightarrow> member_union result" where
  "Member_destroy m =
     (if mtype m = MEMBER_HOSTNAME then destroy_string (mdata m) else Inr (mdata m))"

text \<open>The class invariant: the tag names the member that is alive.\<close>

fun member_ok :: "member \<Rightarrow> bool" where
  "member_ok m = (case mtype m of
      MEMBER_HOSTNAME \<Rightarrow> (\<exists>s. mdata m = Hostname s)
    | MEMBER_PORT \<Rightarrow> (\<exists>p. mdata m = Port p))"

fun string_alive :: "member_union \<Rightarrow> bool" where
  "string_alive (Hostname s) = True"
| "string_alive Raw = False"
| "string_alive (Port p) = False"

lemma member_ok_cases:
  assumes "member_ok m"
  obtains s where "m = \<lparr>mtype = MEMBER_HOSTNAME, mdata = Hostname s\<rparr>"
  | p where "m = \<lparr>mtype = MEMBER_PORT, mdata = Port p\<rparr>"
  using assms by (cases m; cases "mtype m") auto

lemma Member_str_ok: "Member_str s = Inr \<lparr>mtype = MEMBER_HOSTNAME, mdata = Hostname s\<rparr>"
  by (simp add: Member_str_def)

lemma Member_port_ok: "Member_port p = Inr \<lparr>mtype = MEMBER_PORT, mdata = Port p\<rparr>"
  by (simp add: Member_port_def)

lemma Member_copy_ok: "member_ok b \<Longrightarrow> Member_copy b = Inr b"
  by (erule member_ok_cases) (simp_all add: Member_copy_def copy_union_def)

lemma Member_assign_ok:
  assumes "member_ok a" and "member_ok b" and "same \<longrightarrow> a = b"
  shows "Member_assign same a b = Inr b"
  using assms(1,2)
  by (elim member_ok_cases) (use assms(3) in \<open>auto simp: Member_assign_def copy_union_def\<close>)

lemma Member_destroy_ok: "member_ok m \<Longrightarrow> \<exists>u. Member_destroy m = Inr u \<and> \<not> string_alive u"
  by (erule member_ok_cases) (simp_all add: Member_destroy_def)

section \<open>WoefulConfig\<close>

datatype block_type = BLOCK_NONE | BLOCK_WHITE | BLOCK_BLACK

record config =
  pcap_capture :: bool
  port_number :: "u32 option"
  block_type :: block_type
  block_members :: "member list"

definition WoefulConfig :: config where
  "WoefulConfig =
     \<lparr>pcap_capture = False, port_number = None, block_type = BLOCK_NONE, block_members = []\<rparr>"

definition config_ok :: "config \<Rightarrow> bool" where
  "config_ok c \<longleftrightarrow> list_all member_ok (block_members c)"

text \<open>
  \<open>global_conf\<close> is a configuration; \<open>set_conf\<close> copies its argument over it, element
  by element (the global's vector starts empty, so the elements are copy-constructed).
\<close>

fun copy_members :: "member list \<Rightarrow> member list result" where
  "copy_members [] = Inr []"
| "copy_members (m # ms) =
     ebind (Member_copy m) (\<lambda>m'. ebind (copy_members ms) (\<lambda>ms'. Inr (m' # ms')))"

definition get_conf :: "config \<Rightarrow> config" where
  "get_conf global_conf = global_conf"

definition set_conf :: "config \<Rightarrow> config \<Rightarrow> config result" where
  "set_conf global_conf conf =
     ebind (copy_members (block_members conf)) (\<lambda>ms.
       Inr (global_conf\<lparr>pcap_capture := pcap_capture conf, port_number := port_number conf,
              block_type := block_type conf, block_members := ms\<rparr>))"

lemma copy_members_ok: "list_all member_ok ms \<Longrightarrow> copy_members ms = Inr ms"
  by (induction ms) (simp_all add: Member_copy_ok del: member_ok.simps)

lemma set_conf_ok: "config_ok c \<Longrightarrow> set_conf g c = Inr c"
  by (simp add: set_conf_def copy_members_ok config_ok_def)

section \<open>The XML library\<close>

text \<open>
  The calls of tinyxml2 that \<open>read_config\<close> makes, by their names there; \<open>None\<close> is a
  null pointer, or a query that does not return \<open>XML_SUCCESS\<close>.
\<close>

record ('doc, 'el, 'at) tinyxml =
  LoadFile :: "string \<Rightarrow> 'doc option"
  FirstChildNamed :: "'doc \<Rightarrow> string \<Rightarrow> 'el option"
  FirstChild :: "'el \<Rightarrow> 'el option"
  NextSibling :: "'el \<Rightarrow> 'el option"
  Name :: "'el \<Rightarrow> string"
  Attribute :: "'el \<Rightarrow> string \<Rightarrow> string option"
  FindAttribute :: "'el \<Rightarrow> string \<Rightarrow> 'at option"
  QueryUnsigned :: "'at \<Rightarrow> u32 option"
  QueryBool :: "'at \<Rightarrow> bool option"
  Value :: "'at \<Rightarrow> string"

section \<open>read_config\<close>

definition read_block_type :: "string option \<Rightarrow> config \<Rightarrow> string + config" where
  "read_block_type attr ret =
     (case attr of None \<Rightarrow> Inr ret
      | Some v \<Rightarrow>
          if v = ''black'' then Inr (ret\<lparr>block_type := BLOCK_BLACK\<rparr>)
          else if v = ''white'' then Inr (ret\<lparr>block_type := BLOCK_WHITE\<rparr>)
          else if v = ''none'' then Inr (ret\<lparr>block_type := BLOCK_NONE\<rparr>)
          else Inl ''Attribute block_type has invalid value'')"

text \<open>
  One iteration of the loop. The two \<open>push_back\<close> calls build a member from the argument;
  \<open>push_member\<close> turns its (impossible) fault into the identity, see \<open>Member_str_ok\<close>.
\<close>

definition push_member :: "member result \<Rightarrow> config \<Rightarrow> config" where
  "push_member m ret =
     (case m of Inl f \<Rightarrow> ret | Inr v \<Rightarrow> ret\<lparr>block_members := block_members ret @ [v]\<rparr>)"

definition read_child :: "('doc, 'el, 'at) tinyxml \<Rightarrow> 'el \<Rightarrow> config \<Rightarrow> string + config" where
  "read_child xml child ret =
     (if Name xml child = ''port'' then
        (case FindAttribute xml child ''port_number'' of
           None \<Rightarrow> Inl ''Failed to find port_number.''
         | Some attribute \<Rightarrow>
             (case QueryUnsigned xml attribute of
                None \<Rightarrow> Inl ''Failed to parse port_number.''
              | Some n \<Rightarrow> Inr (ret\<lparr>port_number := Some n\<rparr>)))
      else if Name xml child = ''pcap'' then
        (case FindAttribute xml child ''pcap_capture'' of
           None \<Rightarrow> Inl ''Failed to find pcap_capture.''
         | Some attribute \<Rightarrow>
             (case QueryBool xml attribute of
                None \<Rightarrow> Inl ''Failed to parse pcap_capture.''
              | Some b \<Rightarrow> Inr (ret\<lparr>pcap_capture := b\<rparr>)))
      else if Name xml child = ''list_port'' then
        (case FindAttribute xml child ''port'' of
           None \<Rightarrow> Inl ''Failed to find port.''
         | Some attribute \<Rightarrow>
             (case QueryUnsigned xml attribute of
                None \<Rightarrow> Inl ''Failed to parse port_number.''
              | Some n \<Rightarrow> Inr (push_member (Member_port n) ret)))
      else if Name xml child = ''list_hostname'' then
        (case FindAttribute xml child ''hostname'' of
           None \<Rightarrow> Inl ''Failed to find hostname.''
         | Some attribute \<Rightarrow> Inr (push_member (Member_str (Value xml attribute)) ret))
      else Inl ''Unknown element.'')"

partial_function (option) read_children ::
  "('doc, 'el, 'at) tinyxml \<Rightarrow> 'el option \<Rightarrow> config \<Rightarrow> (string + config) option" where
  "read_children xml child ret =
     (case child of
        None \<Rightarrow> Some (Inr ret)
      | Some c \<Rightarrow>
          (case read_child xml c ret of
             Inl e \<Rightarrow> Some (Inl e)
           | Inr ret' \<Rightarrow> read_children xml (NextSibling xml c) ret'))"

definition read_config ::
  "('doc, 'el, 'at) tinyxml \<Rightarrow> string \<Rightarrow> (string + config) option" where
  "read_config xml filename =
     (case LoadFile xml filename of
        None \<Rightarrow> Some (Inl ''Failed to get file.'')
      | Some doc \<Rightarrow>
          (case FirstChildNamed xml doc ''config'' of
             None \<Rightarrow> Some (Inl ''Failed to find root.'')
           | Some root \<Rightarrow>
               (case read_block_type (Attribute xml root ''block_type'') WoefulConfig of
                  Inl e \<Rightarrow> Some (Inl e)
                | Inr ret \<Rightarrow> read_children xml (FirstChild xml root) ret)))"

section \<open>The loop ends\<close>

inductive siblings :: "('doc, 'el, 'at) tinyxml \<Rightarrow> 'el option \<Rightarrow> 'el list \<Rightarrow> bool"
  for xml :: "('doc, 'el, 'at) tinyxml" where
  siblings_nil: "siblings xml None []"
| siblings_cons: "siblings xml (NextSibling xml c) cs \<Longrightarrow> siblings xml (Some c) (c # cs)"

inductive_simps siblings_None [simp]: "siblings xml None cs"
inductive_simps siblings_Some: "siblings xml (Some c) cs"
inductive_cases siblings_ConsE: "siblings xml child (c # cs)"

lemma read_children_efold:
  "siblings xml child cs \<Longrightarrow> read_children xml child ret = Some (efold (read_child xml) cs ret)"
proof (induction arbitrary: ret rule: siblings.induct)
  case siblings_nil
  then show ?case by (simp add: read_children.simps)
next
  case (siblings_cons c cs)
  then show ?case
    by (subst read_children.simps) (simp split: sum.split)
qed

section \<open>What a configuration file means\<close>

text \<open>
  The abstract reading of an element, independent of the accumulator, and the configuration
  that a list of entries denotes: the last \<open>port\<close> and \<open>pcap\<close> win, the list entries
  accumulate in document order.
\<close>

datatype entry = Port_entry u32 | Pcap_entry bool | List_port u32 | List_hostname string

definition entry_of :: "('doc, 'el, 'at) tinyxml \<Rightarrow> 'el \<Rightarrow> string + entry" where
  "entry_of xml c =
     (let attr = (\<lambda>nm miss. case FindAttribute xml c nm of None \<Rightarrow> Inl miss | Some a \<Rightarrow> Inr a);
          get = (\<lambda>q bad a. case q a of None \<Rightarrow> Inl bad | Some v \<Rightarrow> Inr v)
      in if Name xml c = ''port'' then
           ebind (attr ''port_number'' ''Failed to find port_number.'') (\<lambda>a.
           ebind (get (QueryUnsigned xml) ''Failed to parse port_number.'' a) (\<lambda>n. Inr (Port_entry n)))
         else if Name xml c = ''pcap'' then
           ebind (attr ''pcap_capture'' ''Failed to find pcap_capture.'') (\<lambda>a.
           (case QueryBool xml a of None \<Rightarrow> Inl ''Failed to parse pcap_capture.''
            | Some b \<Rightarrow> Inr (Pcap_entry b)))
         else if Name xml c = ''list_port'' then
           ebind (attr ''port'' ''Failed to find port.'') (\<lambda>a.
           ebind (get (QueryUnsigned xml) ''Failed to parse port_number.'' a) (\<lambda>n. Inr (List_port n)))
         else if Name xml c = ''list_hostname'' then
           ebind (attr ''hostname'' ''Failed to find hostname.'') (\<lambda>a.
             Inr (List_hostname (Value xml a)))
         else Inl ''Unknown element.'')"

fun members_of :: "entry list \<Rightarrow> member list" where
  "members_of [] = []"
| "members_of (List_port n # es) = \<lparr>mtype = MEMBER_PORT, mdata = Port n\<rparr> # members_of es"
| "members_of (List_hostname s # es) = \<lparr>mtype = MEMBER_HOSTNAME, mdata = Hostname s\<rparr> # members_of es"
| "members_of (Port_entry n # es) = members_of es"
| "members_of (Pcap_entry b # es) = members_of es"

fun last_port :: "u32 option \<Rightarrow> entry list \<Rightarrow> u32 option" where
  "last_port d [] = d"
| "last_port d (e # es) = last_port (case e of Port_entry n \<Rightarrow> Some n | _ \<Rightarrow> d) es"

fun last_pcap :: "bool \<Rightarrow> entry list \<Rightarrow> bool" where
  "last_pcap d [] = d"
| "last_pcap d (e # es) = last_pcap (case e of Pcap_entry b \<Rightarrow> b | _ \<Rightarrow> d) es"

definition denotes :: "config \<Rightarrow> entry list \<Rightarrow> config" where
  "denotes base es = base\<lparr>pcap_capture := last_pcap (pcap_capture base) es,
     port_number := last_port (port_number base) es,
     block_members := block_members base @ members_of es\<rparr>"

text \<open>Parsing all elements, stopping at the first that is wrong.\<close>

fun entries_of :: "('doc, 'el, 'at) tinyxml \<Rightarrow> 'el list \<Rightarrow> string + entry list" where
  "entries_of xml [] = Inr []"
| "entries_of xml (c # cs) =
     ebind (entry_of xml c) (\<lambda>e. ebind (entries_of xml cs) (\<lambda>es. Inr (e # es)))"

lemma read_child_entry: "read_child xml c ret = ebind (entry_of xml c) (\<lambda>e. Inr (denotes ret [e]))"
  by (auto simp: read_child_def entry_of_def denotes_def push_member_def Member_port_ok
      Member_str_ok Let_def split: option.splits)

lemma denotes_Nil [simp]: "denotes base [] = base"
  by (simp add: denotes_def)

lemma members_of_Cons: "members_of (e # es) = members_of [e] @ members_of es"
  by (cases e) simp_all

lemma denotes_Cons: "denotes (denotes base [e]) es = denotes base (e # es)"
  by (simp add: denotes_def members_of_Cons [of e es])

lemma efold_read_child:
  "efold (read_child xml) cs ret = ebind (entries_of xml cs) (\<lambda>es. Inr (denotes ret es))"
proof (induction cs arbitrary: ret)
  case Nil
  then show ?case by simp
next
  case (Cons c cs)
  then show ?case
    by (cases "entry_of xml c") (simp_all add: read_child_entry ebind_assoc denotes_Cons)
qed

lemma members_of_ok: "list_all member_ok (members_of es)"
  by (induction es rule: members_of.induct) simp_all

lemma denotes_ok: "config_ok base \<Longrightarrow> config_ok (denotes base es)"
  by (simp add: config_ok_def denotes_def members_of_ok)

lemma read_config_efold:
  assumes "LoadFile xml filename = Some doc" and "FirstChildNamed xml doc ''config'' = Some root"
    and "siblings xml (FirstChild xml root) cs"
  shows "read_config xml filename =
    Some (ebind (read_block_type (Attribute xml root ''block_type'') WoefulConfig) (\<lambda>base.
          ebind (entries_of xml cs) (\<lambda>es. Inr (denotes base es))))"
  using assms
  by (cases "read_block_type (Attribute xml root ''block_type'') WoefulConfig")
    (simp_all add: read_config_def read_children_efold efold_read_child)

lemma read_block_type_ok: "read_block_type a WoefulConfig = Inr base \<Longrightarrow> config_ok base"
  by (auto simp: read_block_type_def WoefulConfig_def config_ok_def split: option.splits if_splits)

lemma read_config_ok:
  assumes "LoadFile xml filename = Some doc" and "FirstChildNamed xml doc ''config'' = Some root"
    and "siblings xml (FirstChild xml root) cs" and "read_config xml filename = Some (Inr c)"
  shows "config_ok c"
  using assms(4) unfolding read_config_efold [OF assms(1-3)]
  by (auto simp: ebind_eq_Inr intro!: denotes_ok dest: read_block_type_ok)

section \<open>A concrete document tree\<close>

text \<open>
  An instance of the interface on element trees, for evaluation: an element is represented
  by the list of itself and its later siblings.
\<close>

datatype dom = Elem (tag: string) (attrs: "(string \<times> string) list") (kids: "dom list")

fun parse_digits :: "nat \<Rightarrow> string \<Rightarrow> nat option" where
  "parse_digits acc [] = Some acc"
| "parse_digits acc (c # cs) =
     (if 48 \<le> (of_char c :: nat) \<and> (of_char c :: nat) \<le> 57 then parse_digits (10 * acc + (of_char c - 48)) cs else None)"

definition dom_unsigned :: "string \<Rightarrow> u32 option" where
  "dom_unsigned s = (if s = [] then None else map_option of_nat (parse_digits 0 s))"

definition dom_bool :: "string \<Rightarrow> bool option" where
  "dom_bool s = (if s = ''true'' then Some True else if s = ''false'' then Some False else None)"

definition first_elem :: "dom list \<Rightarrow> dom list option" where
  "first_elem es = (if es = [] then None else Some es)"

definition dom_xml :: "(string \<times> dom list) list \<Rightarrow> (dom list, dom list, string) tinyxml" where
  "dom_xml files =
     \<lparr>LoadFile = map_of files,
      FirstChildNamed = (\<lambda>doc nm. first_elem (dropWhile (\<lambda>e. tag e \<noteq> nm) doc)),
      FirstChild = (\<lambda>es. first_elem (kids (hd es))),
      NextSibling = (\<lambda>es. first_elem (tl es)),
      Name = (\<lambda>es. tag (hd es)),
      Attribute = (\<lambda>es nm. map_of (attrs (hd es)) nm),
      FindAttribute = (\<lambda>es nm. map_of (attrs (hd es)) nm),
      QueryUnsigned = dom_unsigned,
      QueryBool = dom_bool,
      Value = (\<lambda>a. a)\<rparr>"

fun suffixes1 :: "'a list \<Rightarrow> 'a list list" where
  "suffixes1 [] = []"
| "suffixes1 (x # xs) = (x # xs) # suffixes1 xs"

text \<open>In a document tree every sibling chain is finite.\<close>

lemma dom_siblings: "siblings (dom_xml files) (first_elem es) (suffixes1 es)"
proof (induction es)
  case Nil
  then show ?case by (simp add: first_elem_def)
next
  case (Cons e es)
  have "NextSibling (dom_xml files) (e # es) = first_elem es" by (simp add: dom_xml_def)
  with Cons have "siblings (dom_xml files) (Some (e # es)) ((e # es) # suffixes1 es)"
    by (intro siblings_cons) simp
  then show ?case by (simp add: first_elem_def)
qed

definition blacklist_xml :: "dom list" where
  "blacklist_xml = [Elem ''config'' [(''block_type'', ''black'')]
     [Elem ''port'' [(''port_number'', ''8080'')] [],
      Elem ''pcap'' [(''pcap_capture'', ''true'')] [],
      Elem ''list_hostname'' [(''hostname'', ''example.com'')] [],
      Elem ''list_port'' [(''port'', ''22'')] []]]"

definition bad_element_xml :: "dom list" where
  "bad_element_xml = [Elem ''config'' []
     [Elem ''port'' [(''port_number'', ''8080'')] [],
      Elem ''pcap'' [(''pcap_capture'', ''true'')] [],
      Elem ''error'' [] []]]"

definition bad_validation_xml :: "dom list" where
  "bad_validation_xml = [Elem ''config'' []
     [Elem ''port'' [(''port_number'', ''true'')] [],
      Elem ''pcap'' [(''pcap_capture'', ''8080'')] []]]"

definition test_files :: "(string \<times> dom list) list" where
  "test_files = [(''blacklist.xml'', blacklist_xml), (''bad_element.xml'', bad_element_xml),
     (''bad_validation.xml'', bad_validation_xml)]"

lemma read_config_dom:
  assumes "map_of files filename = Some [Elem ''config'' as es]"
  shows "read_config (dom_xml files) filename =
    Some (ebind (read_block_type (map_of as ''block_type'') WoefulConfig) (\<lambda>base.
          ebind (entries_of (dom_xml files) (suffixes1 es)) (\<lambda>es. Inr (denotes base es))))"
proof -
  let ?xml = "dom_xml files" and ?root = "[Elem ''config'' as es]"
  have "siblings ?xml (FirstChild ?xml ?root) (suffixes1 es)"
    using dom_siblings [of files es] by (simp add: dom_xml_def)
  moreover have "LoadFile ?xml filename = Some ?root" using assms by (simp add: dom_xml_def)
  moreover have "FirstChildNamed ?xml ?root ''config'' = Some ?root"
    by (simp add: dom_xml_def first_elem_def)
  moreover have "Attribute ?xml ?root ''block_type'' = map_of as ''block_type''"
    by (simp add: dom_xml_def)
  ultimately show ?thesis using read_config_efold [of ?xml filename ?root ?root] by simp
qed

text \<open>The expectations of tests/test.cpp on the files of tests/.\<close>

lemmas dom_eval = entry_of_def dom_xml_def dom_unsigned_def dom_bool_def of_char_def
  read_block_type_def

lemma test_Config_Blacklist:
  "read_config (dom_xml test_files) ''blacklist.xml'' = Some (Inr
     \<lparr>pcap_capture = True, port_number = Some 8080, block_type = BLOCK_BLACK,
      block_members = [\<lparr>mtype = MEMBER_HOSTNAME, mdata = Hostname ''example.com''\<rparr>,
                       \<lparr>mtype = MEMBER_PORT, mdata = Port 22\<rparr>]\<rparr>)"
  by (subst read_config_dom, simp add: test_files_def blacklist_xml_def)
    (simp add: dom_eval denotes_def WoefulConfig_def)

lemma test_Config_BadElement:
  "read_config (dom_xml test_files) ''bad_element.xml'' = Some (Inl ''Unknown element.'')"
  by (subst read_config_dom, simp add: test_files_def bad_element_xml_def)
    (simp add: dom_eval)

lemma test_Config_BadValidation:
  "read_config (dom_xml test_files) ''bad_validation.xml'' = Some (Inl ''Failed to parse port_number.'')"
  by (subst read_config_dom, simp add: test_files_def bad_validation_xml_def)
    (simp add: dom_eval)

section \<open>Properties\<close>

text \<open>
  C29: \<open>read_config\<close> returns, for every document whose root has finitely many children, and
  its result is the configuration the elements denote: the block type of the root
  attribute, the last \<open>port\<close> and the last \<open>pcap\<close> element, the list elements as members
  in document order, or the message of the first thing that is wrong. A configuration it
  returns satisfies the class invariant of its members, so \<open>set_conf\<close> installs it
  without a fault.
\<close>
theorem read_config_denotes:
  assumes "LoadFile xml filename = Some doc" and "FirstChildNamed xml doc ''config'' = Some root"
    and "siblings xml (FirstChild xml root) cs"
  shows "read_config xml filename =
      Some (ebind (read_block_type (Attribute xml root ''block_type'') WoefulConfig) (\<lambda>base.
            ebind (entries_of xml cs) (\<lambda>es. Inr (denotes base es)))) \<and>
    (\<forall>c g. read_config xml filename = Some (Inr c) \<longrightarrow> config_ok c \<and> set_conf g c = Inr c)"
  using read_config_efold [OF assms] read_config_ok [OF assms] by (simp add: set_conf_ok)

theorem read_config_denotes_witness:
  "read_config (dom_xml test_files) ''blacklist.xml'' = Some (Inr
     \<lparr>pcap_capture = True, port_number = Some 8080, block_type = BLOCK_BLACK,
      block_members = [\<lparr>mtype = MEMBER_HOSTNAME, mdata = Hostname ''example.com''\<rparr>,
                       \<lparr>mtype = MEMBER_PORT, mdata = Port 22\<rparr>]\<rparr>)"
proof -
  let ?kids = "kids (hd blacklist_xml)"
  have doc: "LoadFile (dom_xml test_files) ''blacklist.xml'' = Some blacklist_xml"
    and root: "FirstChildNamed (dom_xml test_files) blacklist_xml ''config'' = Some blacklist_xml"
    by (simp_all add: dom_xml_def test_files_def first_elem_def blacklist_xml_def)
  have "siblings (dom_xml test_files) (FirstChild (dom_xml test_files) blacklist_xml)
      (suffixes1 ?kids)"
    using dom_siblings [of test_files ?kids] by (simp add: dom_xml_def)
  then have "read_config (dom_xml test_files) ''blacklist.xml'' =
      Some (ebind (read_block_type (Attribute (dom_xml test_files) blacklist_xml ''block_type'')
              WoefulConfig) (\<lambda>base.
            ebind (entries_of (dom_xml test_files) (suffixes1 ?kids)) (\<lambda>es. Inr (denotes base es))))"
    by (rule read_config_denotes [OF doc root, THEN conjunct1])
  then show ?thesis by (simp add: blacklist_xml_def dom_eval denotes_def WoefulConfig_def)
qed

lemma entries_of_first_error:
  "entries_of xml pre = Inr es \<Longrightarrow> entry_of xml bad = Inl e \<Longrightarrow>
   entries_of xml (pre @ bad # post) = Inl e"
  by (induction pre arbitrary: es) (auto simp: ebind_eq_Inr)

text \<open>
  An element that cannot be read makes \<open>read_config\<close> fail with that element's own
  message, whatever follows it: an unknown element, a missing attribute or a value that
  does not parse is never skipped, and no partial configuration is returned.
\<close>
theorem read_config_first_error:
  assumes "LoadFile xml filename = Some doc" and "FirstChildNamed xml doc ''config'' = Some root"
    and "siblings xml (FirstChild xml root) (pre @ bad # post)"
    and "read_block_type (Attribute xml root ''block_type'') WoefulConfig = Inr base"
    and "entries_of xml pre = Inr es" and "entry_of xml bad = Inl e"
  shows "read_config xml filename = Some (Inl e)"
  using read_config_efold [OF assms(1-3)] assms(4) entries_of_first_error [OF assms(5,6)] by simp

theorem read_config_first_error_witness:
  "read_config (dom_xml test_files) ''bad_element.xml'' = Some (Inl ''Unknown element.'')"
proof -
  let ?xml = "dom_xml test_files" and ?kids = "kids (hd bad_element_xml)"
  let ?base = "WoefulConfig"
  have "LoadFile ?xml ''bad_element.xml'' = Some bad_element_xml"
    and "FirstChildNamed ?xml bad_element_xml ''config'' = Some bad_element_xml"
    by (simp_all add: dom_xml_def test_files_def first_elem_def bad_element_xml_def)
  moreover have "siblings ?xml (FirstChild ?xml bad_element_xml)
      ([?kids, tl ?kids] @ drop 2 ?kids # [])"
    using dom_siblings [of test_files ?kids] by (simp add: dom_xml_def bad_element_xml_def)
  moreover have "read_block_type (Attribute ?xml bad_element_xml ''block_type'') ?base = Inr ?base"
    by (simp add: dom_eval bad_element_xml_def)
  moreover have "entries_of ?xml [?kids, tl ?kids] = Inr [Port_entry 8080, Pcap_entry True]"
    and "entry_of ?xml (drop 2 ?kids) = Inl ''Unknown element.''"
    by (simp_all add: dom_eval bad_element_xml_def)
  ultimately show ?thesis by (rule read_config_first_error)
qed



end
