(* ===== verification/Network.thy ===== *)
theory Network
  imports Packets Config
begin

text \<open>
  src/src/systemInterface.h: address resolution and connection set-up
  (\<open>SystemInterface\<close>), and the epoll wrapper with its wake-up pipe.

  The operating system is outside the program. What it answers is a parameter, the record
  \<open>net\<close> (one field per call that can fail); what it holds for the process is the record
  \<open>os\<close>: the open descriptors, the epoll interest list, the bytes in the wake-up pipe and
  the calls made, in order. The one documented fact the proofs need is \<open>fresh_socket\<close>:
  \<open>socket\<close> answers -1 or a descriptor that is not open.
\<close>

section \<open>The operating system\<close>

definition SOCK_STREAM :: int where "SOCK_STREAM = 1"
definition SOCK_DGRAM :: int where "SOCK_DGRAM = 2"
definition AF_INET :: int where "AF_INET = 2"

record addrinfo_hints =
  ai_family :: int
  ai_socktype :: int
  ai_flags :: int
  ai_protocol :: int

text \<open>Of a resolved address the program reads the family and the address only.\<close>

record addrinfo =
  ai_addr :: string

record net =
  getaddrinfo :: "string \<Rightarrow> string \<Rightarrow> addrinfo_hints \<Rightarrow> addrinfo option"
  net_socket :: "int list \<Rightarrow> int \<Rightarrow> int"
  net_connect :: "int \<Rightarrow> addrinfo \<Rightarrow> int"

datatype syscall =
    Sys_getaddrinfo string string int
  | Sys_socket int int
  | Sys_connect int addrinfo int
  | Sys_set_nonblocking int
  | Sys_close int
  | Sys_write int buffer

record os =
  open_fds :: "int list"
  interest :: "int list"
  pipes :: "int \<times> int"
  pipe_bytes :: nat
  trace :: "syscall list"

definition sys :: "syscall \<Rightarrow> os \<Rightarrow> os" where
  "sys c s = s\<lparr>trace := trace s @ [c]\<rparr>"

text \<open>Closing a descriptor also takes it off every epoll interest list.\<close>

definition sys_close :: "int \<Rightarrow> os \<Rightarrow> os" where
  "sys_close fd s = sys (Sys_close fd)
     (s\<lparr>open_fds := removeAll fd (open_fds s), interest := removeAll fd (interest s)\<rparr>)"

definition fresh_socket :: "net \<Rightarrow> bool" where
  "fresh_socket net \<longleftrightarrow> (\<forall>fds ty. net_socket net fds ty \<noteq> - 1 \<longrightarrow>
      0 \<le> net_socket net fds ty \<and> net_socket net fds ty \<notin> set fds)"

section \<open>SystemInterface\<close>

text \<open>\<open>std::to_string\<close> on an unsigned value.\<close>

function to_string :: "nat \<Rightarrow> string" where
  "to_string n =
     (if n < 10 then [char_of (48 + n)] else to_string (n div 10) @ [char_of (48 + n mod 10)])"
  by pat_completeness auto
termination
  by (relation "measure id") auto

declare to_string.simps [simp del]

definition resolve :: "net \<Rightarrow> string \<Rightarrow> string \<Rightarrow> int \<Rightarrow> os \<Rightarrow> addrinfo option \<times> os" where
  "resolve net hostname port sock_type s =
     (let hints = \<lparr>ai_family = AF_INET, ai_socktype = sock_type, ai_flags = 0, ai_protocol = 0\<rparr>
      in (getaddrinfo net hostname port hints, sys (Sys_getaddrinfo hostname port sock_type) s))"

text \<open>
  The loop over the configured members. Each iteration copies the member, looks at it and
  destroys the copy. The hostname is a \<open>char *\<close>: comparing it reads the buffer up to its
  terminator.
\<close>

definition match_member :: "member \<Rightarrow> buffer \<Rightarrow> u16 \<Rightarrow> bool \<times> bool \<Rightarrow> (bool \<times> bool) result" where
  "match_member m hostname port matched =
     ebind (Member_copy m) (\<lambda>member.
     ebind (case mtype member of
              MEMBER_HOSTNAME \<Rightarrow>
                ebind (read_string (mdata member)) (\<lambda>s.
                ebind (c_string hostname) (\<lambda>h.
                  Inr (if s = h then (True, snd matched) else matched)))
            | MEMBER_PORT \<Rightarrow>
                ebind (read_port (mdata member)) (\<lambda>p.
                  Inr (if p = ucast port then (fst matched, True) else matched)))
       (\<lambda>matched'. ebind (Member_destroy member) (\<lambda>_. Inr matched')))"

definition match_members :: "config \<Rightarrow> buffer \<Rightarrow> u16 \<Rightarrow> (bool \<times> bool) result" where
  "match_members conf hostname port =
     efold (\<lambda>m. match_member m hostname port) (block_members conf) (False, False)"

definition sock_type_of :: "u8 \<Rightarrow> int option" where
  "sock_type_of type =
     (if type = 0x01 then Some SOCK_STREAM else if type = 0x02 then Some SOCK_DGRAM else None)"

definition open_stream ::
  "config \<Rightarrow> net \<Rightarrow> buffer \<Rightarrow> u8 \<Rightarrow> u16 \<Rightarrow> os \<Rightarrow> ((int \<times> addrinfo) option \<times> os) result" where
  "open_stream conf net hostname type port s =
     (case sock_type_of type of
        None \<Rightarrow> Inr (None, s)
      | Some sock_type \<Rightarrow>
          ebind (match_members conf hostname port) (\<lambda>(is_matched_hostname, is_matched_port).
            if block_type conf = BLOCK_BLACK \<and> (is_matched_hostname \<or> is_matched_port)
            then Inr (None, s)
            else if block_type conf = BLOCK_WHITE \<and> \<not> (is_matched_hostname \<and> is_matched_port)
            then Inr (None, s)
            else ebind (c_string hostname) (\<lambda>h.
              case resolve net h (to_string (unat port)) sock_type s of
                (None, s) \<Rightarrow> Inr (None, s)
              | (Some dns, s) \<Rightarrow>
                  (let fd = net_socket net (open_fds s) sock_type;
                       s = sys (Sys_socket sock_type fd) s
                   in if fd = - 1 then Inr (None, s)
                      else let s = s\<lparr>open_fds := fd # open_fds s\<rparr>;
                               ret = net_connect net fd dns;
                               s = sys (Sys_connect fd dns ret) s
                           in if ret \<noteq> 0 then Inr (None, sys_close fd s)
                              else Inr (Some (fd, dns), sys (Sys_set_nonblocking fd) s)))))"

section \<open>EpollWrapper\<close>

definition push_fd :: "int \<Rightarrow> os \<Rightarrow> os" where
  "push_fd fd s = (if fd \<in> set (interest s) then s else s\<lparr>interest := fd # interest s\<rparr>)"

definition erase_fd :: "int \<Rightarrow> os \<Rightarrow> int option \<times> os" where
  "erase_fd fd s =
     (if fd \<in> set (interest s) then (Some fd, s\<lparr>interest := removeAll fd (interest s)\<rparr>)
      else (None, s))"

text \<open>
  The constructor creates the epoll instance \<open>epfd\<close> and the pipe \<open>(rd, wr)\<close>, and watches
  the read end; the destructor closes all three.
\<close>

definition EpollWrapper :: "int \<Rightarrow> int \<times> int \<Rightarrow> os \<Rightarrow> os" where
  "EpollWrapper epfd p s =
     push_fd (fst p) (s\<lparr>open_fds := epfd # fst p # snd p # open_fds s, pipes := p, pipe_bytes := 0\<rparr>)"

definition EpollWrapper_destroy :: "int \<Rightarrow> os \<Rightarrow> os" where
  "EpollWrapper_destroy epfd s = sys_close (snd (pipes s)) (sys_close (fst (pipes s)) (sys_close epfd s))"

text \<open>\<open>wake\<close> writes the two bytes of \<open>"w"\<close>, its terminator included.\<close>

definition wake :: "os \<Rightarrow> os" where
  "wake s = s\<lparr>pipe_bytes := pipe_bytes s + 2\<rparr>"

definition drain_pipe :: "os \<Rightarrow> os" where
  "drain_pipe s = s\<lparr>pipe_bytes := pipe_bytes s - min 10 (pipe_bytes s)\<rparr>"

text \<open>
  \<open>wait\<close> hands out at most \<open>BUFFER_COUNT\<close> ready descriptors of the interest list; which
  ones are ready is the environment's choice.
\<close>

definition wait_events :: "(int \<Rightarrow> bool) \<Rightarrow> os \<Rightarrow> int list" where
  "wait_events ready s = take (unat BUFFER_COUNT) (filter ready (interest s))"

section \<open>The access policy\<close>

definition hostnames :: "config \<Rightarrow> string list" where
  "hostnames c = concat (map (\<lambda>m. case mdata m of Hostname s \<Rightarrow> [s] | Port p \<Rightarrow> [] | Raw \<Rightarrow> [])
     (block_members c))"

definition ports :: "config \<Rightarrow> u32 list" where
  "ports c = concat (map (\<lambda>m. case mdata m of Hostname s \<Rightarrow> [] | Port p \<Rightarrow> [p] | Raw \<Rightarrow> [])
     (block_members c))"

text \<open>What a configuration forbids.\<close>

definition blocked :: "config \<Rightarrow> string \<Rightarrow> u16 \<Rightarrow> bool" where
  "blocked c h p = (case block_type c of
      BLOCK_NONE \<Rightarrow> False
    | BLOCK_BLACK \<Rightarrow> h \<in> set (hostnames c) \<or> ucast p \<in> set (ports c)
    | BLOCK_WHITE \<Rightarrow> \<not> (h \<in> set (hostnames c) \<and> ucast p \<in> set (ports c)))"

lemma match_member_ok:
  assumes "member_ok m" and "c_string host = Inr h"
  shows "match_member m host port (a, b) =
    Inr (a \<or> mdata m = Hostname h, b \<or> mdata m = Port (ucast port))"
  using assms(1)
  by (elim member_ok_cases)
    (use assms(2) in \<open>auto simp: match_member_def Member_copy_ok Member_destroy_def\<close>)

lemma efold_match_member:
  assumes "list_all member_ok ms" and "c_string host = Inr h"
  shows "efold (\<lambda>m. match_member m host port) ms (a, b) =
    Inr (a \<or> (\<exists>m \<in> set ms. mdata m = Hostname h), b \<or> (\<exists>m \<in> set ms. mdata m = Port (ucast port)))"
  using assms
  by (induction ms arbitrary: a b) (auto simp: match_member_ok simp del: member_ok.simps)

lemma hostnames_iff: "h \<in> set (hostnames c) \<longleftrightarrow> (\<exists>m \<in> set (block_members c). mdata m = Hostname h)"
  by (force simp: hostnames_def split: member_union.splits)

lemma ports_iff: "p \<in> set (ports c) \<longleftrightarrow> (\<exists>m \<in> set (block_members c). mdata m = Port p)"
  by (force simp: ports_def split: member_union.splits)

lemma match_members_ok:
  assumes "config_ok c" and "c_string host = Inr h"
  shows "match_members c host port = Inr (h \<in> set (hostnames c), ucast port \<in> set (ports c))"
  using assms by (simp add: match_members_def efold_match_member config_ok_def hostnames_iff ports_iff)

section \<open>open_stream, case by case\<close>

lemmas os_defs = sys_def sys_close_def push_fd_def erase_fd_def wake_def drain_pipe_def

lemma open_stream_bad_type: "sock_type_of type = None \<Longrightarrow> open_stream c net host type port s = Inr (None, s)"
  by (simp add: open_stream_def)

text \<open>The abstract connection attempt that follows once the policy has let a target through.\<close>

definition attempt :: "net \<Rightarrow> string \<Rightarrow> int \<Rightarrow> u16 \<Rightarrow> os \<Rightarrow> (int \<times> addrinfo) option \<times> os" where
  "attempt net h ty port s =
     (case resolve net h (to_string (unat port)) ty s of
        (None, s1) \<Rightarrow> (None, s1)
      | (Some dns, s1) \<Rightarrow>
          let fd = net_socket net (open_fds s1) ty; s2 = sys (Sys_socket ty fd) s1
          in if fd = - 1 then (None, s2)
             else let s3 = sys (Sys_connect fd dns (net_connect net fd dns))
                             (s2\<lparr>open_fds := fd # open_fds s2\<rparr>)
                  in if net_connect net fd dns \<noteq> 0 then (None, sys_close fd s3)
                     else (Some (fd, dns), sys (Sys_set_nonblocking fd) s3))"

lemma open_stream_ok:
  assumes "config_ok c" and "c_string host = Inr h" and "sock_type_of type = Some ty"
  shows "open_stream c net host type port s =
    Inr (if blocked c h port then (None, s) else attempt net h ty port s)"
  using assms
  by (cases "block_type c")
    (auto simp: open_stream_def match_members_ok blocked_def attempt_def Let_def
      split: option.splits prod.splits)

text \<open>The whole of \<open>open_stream\<close> for a terminated hostname: policy, then attempt.\<close>

definition connection_of :: "config \<Rightarrow> net \<Rightarrow> string \<Rightarrow> u8 \<Rightarrow> u16 \<Rightarrow> os \<Rightarrow> (int \<times> addrinfo) option \<times> os" where
  "connection_of c net h type port s =
     (case sock_type_of type of
        None \<Rightarrow> (None, s)
      | Some ty \<Rightarrow> if blocked c h port then (None, s) else attempt net h ty port s)"

lemma open_stream_connection:
  assumes "config_ok c" and "c_string host = Inr h"
  shows "open_stream c net host type port s = Inr (connection_of c net h type port s)"
  using assms by (cases "sock_type_of type")
    (simp_all add: connection_of_def open_stream_ok open_stream_bad_type)

lemma attempt_None:
  assumes "fresh_socket net" and "attempt net h ty port s = (None, s')" and "set (interest s) \<subseteq> set (open_fds s)"
  shows "open_fds s' = open_fds s \<and> interest s' = interest s"
proof -
  have fd: "net_socket net (open_fds s) ty \<noteq> - 1 \<Longrightarrow> net_socket net (open_fds s) ty \<notin> set (open_fds s)"
    using assms(1) by (simp add: fresh_socket_def)
  with assms(2,3) show ?thesis
    by (auto simp: attempt_def resolve_def os_defs Let_def split: option.splits if_splits
        intro!: removeAll_id)
qed

lemma attempt_Some:
  assumes "fresh_socket net" and "attempt net h ty port s = (Some (fd, ai), s')"
  shows "0 \<le> fd \<and> fd \<notin> set (open_fds s) \<and> open_fds s' = fd # open_fds s \<and> interest s' = interest s \<and>
    pipes s' = pipes s \<and> pipe_bytes s' = pipe_bytes s \<and>
    (\<exists>hints. getaddrinfo net h (to_string (unat port)) hints = Some ai) \<and>
    trace s' = trace s @ [Sys_getaddrinfo h (to_string (unat port)) ty, Sys_socket ty fd,
      Sys_connect fd ai 0, Sys_set_nonblocking fd]"
  using assms
  by (auto simp: attempt_def resolve_def os_defs Let_def fresh_socket_def split: option.splits if_splits)

lemma connection_of_None:
  assumes "fresh_socket net" and "connection_of c net h type port s = (None, s')"
    and "set (interest s) \<subseteq> set (open_fds s)"
  shows "open_fds s' = open_fds s \<and> interest s' = interest s"
  using assms by (auto simp: connection_of_def dest: attempt_None split: option.splits if_splits)

lemma connection_of_Some:
  assumes "connection_of c net h type port s = (Some (fd, ai), s')"
  obtains ty where "sock_type_of type = Some ty" and "\<not> blocked c h port"
    and "attempt net h ty port s = (Some (fd, ai), s')"
  using assms by (auto simp: connection_of_def split: option.splits if_splits)

text \<open>\<open>std::to_string\<close> is a decimal rendering.\<close>

lemma of_char_digit: "n < 10 \<Longrightarrow> (of_char (char_of (48 + n)) :: nat) = 48 + n"
  for n :: nat
  by simp

lemma parse_digits_append:
  "parse_digits a (xs @ ys) = Option.bind (parse_digits a xs) (\<lambda>b. parse_digits b ys)"
  by (induction a xs rule: parse_digits.induct) simp_all

lemma parse_digits_to_string: "parse_digits 0 (to_string n) = Some n"
proof (induction n rule: to_string.induct)
  case (1 n)
  show ?case
  proof (cases "n < 10")
    case True
    then show ?thesis by (simp add: to_string.simps [of n])
  next
    case False
    with 1 have "parse_digits 0 (to_string (n div 10)) = Some (n div 10)" by simp
    with False show ?thesis by (simp add: to_string.simps [of n] parse_digits_append)
  qed
qed

section \<open>Properties\<close>

text \<open>
  C14: A destination that the configuration forbids, or a stream type that is neither TCP nor UDP,
  is refused before anything happens: no name is resolved, no socket is created, the state
  of the operating system is the one before the call.
\<close>
theorem open_stream_refuses:
  assumes "config_ok c" and "c_string host = Inr h"
    and "type \<notin> {1, 2} \<or> blocked c h port"
  shows "open_stream c net host type port s = Inr (None, s)"
proof (cases "sock_type_of type")
  case None
  then show ?thesis by (rule open_stream_bad_type)
next
  case (Some ty)
  then have "type \<in> {1, 2}" by (auto simp: sock_type_of_def split: if_splits)
  with assms(3) have "blocked c h port" by blast
  with assms(1,2) Some show ?thesis by (simp add: open_stream_ok)
qed

definition example_conf :: config where
  "example_conf = \<lparr>pcap_capture = False, port_number = Some 9001, block_type = BLOCK_BLACK,
     block_members = [\<lparr>mtype = MEMBER_HOSTNAME, mdata = Hostname ''example.com''\<rparr>,
                      \<lparr>mtype = MEMBER_PORT, mdata = Port 22\<rparr>]\<rparr>"

definition quiet_net :: net where
  "quiet_net = \<lparr>getaddrinfo = (\<lambda>h p hints. Some \<lparr>ai_addr = h\<rparr>),
     net_socket = (\<lambda>fds ty. 1 + fold max fds 0), net_connect = (\<lambda>fd ai. 0)\<rparr>"

definition quiet_os :: os where
  "quiet_os = \<lparr>open_fds = [5, 4, 3], interest = [4], pipes = (4, 5), pipe_bytes = 0, trace = []\<rparr>"

lemma fold_max_upper: "x \<in> set xs \<Longrightarrow> x \<le> fold max xs a" and fold_max_ge: "a \<le> fold max xs a"
  for x a :: int
proof (induction xs arbitrary: a)
  case Nil
  { case 1 then show ?case by simp }
  { case 2 then show ?case by simp }
next
  case (Cons y ys)
  { case 1 with Cons.IH(1) [of "max y a"] Cons.IH(2) [of "max y a"] show ?case by auto }
  { case 2 with Cons.IH(2) [of "max y a"] show ?case by simp }
qed

lemma fresh_quiet_net: "fresh_socket quiet_net"
  unfolding fresh_socket_def quiet_net_def net.simps
proof (intro allI impI conjI)
  fix fds :: "int list"
  show "0 \<le> 1 + fold max fds 0" using fold_max_ge [of 0 fds] by linarith
  show "1 + fold max fds 0 \<notin> set fds" 
    using fold_max_upper [of "1 + fold max fds 0" fds 0] by auto
qed

theorem open_stream_refuses_witness:
  "open_stream example_conf quiet_net (map Some [10, 0]) 1 22 quiet_os = Inr (None, quiet_os)"
  by (rule open_stream_refuses [where h = "[char_of 10]"])
    (simp_all add: example_conf_def config_ok_def blocked_def ports_def)

text \<open>
  C13: A permitted destination of a known type is always tried: its name is resolved under its
  decimal port number, a socket of the type is created and connected, in this order, and the
  call gives up only where one of these three fails. On success the caller gets the new
  descriptor, connected and non-blocking, and the process holds exactly that one more; on any
  failure the process holds the same descriptors as before.
\<close>
theorem open_stream_connects:
  assumes "config_ok c" and "c_string host = Inr h" and "type \<in> {1, 2}" and "\<not> blocked c h port"
    and "fresh_socket net" and "set (interest s) \<subseteq> set (open_fds s)"
  shows "\<exists>r s' new. open_stream c net host type port s = Inr (r, s') \<and> trace s' = trace s @ new \<and>
    (let ty = (if type = 1 then SOCK_STREAM else SOCK_DGRAM); ps = to_string (unat port);
         fd = net_socket net (open_fds s) ty;
         hints = \<lparr>ai_family = AF_INET, ai_socktype = ty, ai_flags = 0, ai_protocol = 0\<rparr>
     in parse_digits 0 ps = Some (unat port) \<and>
        (case getaddrinfo net h ps hints of
           None \<Rightarrow> r = None \<and> new = [Sys_getaddrinfo h ps ty]
         | Some ai \<Rightarrow>
             if fd = - 1 then r = None \<and> new = [Sys_getaddrinfo h ps ty, Sys_socket ty fd]
             else if net_connect net fd ai \<noteq> 0
             then r = None \<and> new = [Sys_getaddrinfo h ps ty, Sys_socket ty fd, Sys_connect fd ai (net_connect net fd ai), Sys_close fd]
             else r = Some (fd, ai) \<and> new = [Sys_getaddrinfo h ps ty, Sys_socket ty fd, Sys_connect fd ai 0, Sys_set_nonblocking fd])) \<and>
    (case r of
       None \<Rightarrow> open_fds s' = open_fds s \<and> interest s' = interest s
     | Some (fd, ai) \<Rightarrow> fd \<notin> set (open_fds s) \<and> open_fds s' = fd # open_fds s \<and> interest s' = interest s)"
proof -
  define ty where "ty = (if type = 1 then SOCK_STREAM else SOCK_DGRAM)"
  have "sock_type_of type = Some ty" using assms(3) by (auto simp: sock_type_of_def ty_def)
  moreover obtain r s' where a: "attempt net h ty port s = (r, s')" by fastforce
  ultimately have o: "open_stream c net host type port s = Inr (r, s')"
    using open_stream_ok [OF assms(1,2)] assms(4) by simp
  have "case r of
       None \<Rightarrow> open_fds s' = open_fds s \<and> interest s' = interest s
     | Some (fd, ai) \<Rightarrow> fd \<notin> set (open_fds s) \<and> open_fds s' = fd # open_fds s \<and> interest s' = interest s"
    using attempt_None [OF assms(5) _ assms(6)] attempt_Some [OF assms(5)] a by (cases r) fastforce+
  then show ?thesis
    using o a parse_digits_to_string [of "unat port"] unfolding ty_def [symmetric]
    by (auto simp: attempt_def resolve_def sys_def sys_close_def Let_def split: option.splits if_splits)
qed

theorem open_stream_connects_witness:
  "\<exists>s'. open_stream example_conf quiet_net (cstr ''a'') 1 80 quiet_os = Inr (Some (6, \<lparr>ai_addr = ''a''\<rparr>), s') \<and>
     open_fds s' = [6, 5, 4, 3]"
proof -
  have "config_ok example_conf" and "c_string (cstr ''a'') = Inr ''a''"
    and "\<not> blocked example_conf ''a'' 80"
    by (simp_all add: example_conf_def config_ok_def blocked_def hostnames_def ports_def c_string_cstr)
  note open_stream_connects [OF this(1,2) _ this(3) fresh_quiet_net, of 1 quiet_os]
  then show ?thesis by (fastforce simp: quiet_os_def quiet_net_def Let_def)
qed

text \<open>
  The policy compares hostnames byte for byte, so a blacklist entry does not cover another
  spelling of the same domain name: with the configuration of CONFIG.md the entry
  \<open>example.com\<close> is refused and \<open>EXAMPLE.COM\<close>, which names the same host, is connected.
\<close>
theorem blacklist_case_sensitive:
  "open_stream example_conf quiet_net (cstr ''example.com'') 1 80 quiet_os
     = Inr (None, quiet_os) \<and>
   (\<exists>r s'. open_stream example_conf quiet_net
      (cstr ''EXAMPLE.COM'') 1 80 quiet_os = Inr (Some r, s'))"
proof -
  have l: "c_string (cstr ''example.com'') = Inr ''example.com''"
    and u: "c_string (cstr ''EXAMPLE.COM'') = Inr ''EXAMPLE.COM''"
    by (simp_all add: c_string_cstr)
  have c: "config_ok example_conf" and ty: "sock_type_of 1 = Some SOCK_STREAM"
    by (simp_all add: example_conf_def config_ok_def sock_type_of_def)
  have "blocked example_conf ''example.com'' 80" and "\<not> blocked example_conf ''EXAMPLE.COM'' 80"
    by (simp_all add: example_conf_def blocked_def hostnames_def ports_def)
  moreover have "\<exists>r s'. attempt quiet_net ''EXAMPLE.COM'' SOCK_STREAM 80 quiet_os = (Some r, s')"
    by (simp add: attempt_def resolve_def quiet_net_def quiet_os_def os_defs)
  ultimately show ?thesis
    by (auto simp: open_stream_ok [OF c l ty] open_stream_ok [OF c u ty])
qed

end
