(* ===== verification/Pcap.thy ===== *)
theory Pcap
  imports Memory
begin

text \<open>
  src/src/pcap.h: the capture writer that turns the bytes relayed for a stream into a made-up
  TCP conversation between a user and the target. Only in builds with \<open>PCAP\<close> defined.

  The packet library is outside the program: a segment records the header fields the code
  sets and the payload it attaches, and the capture file is the list of segments written.
  The fields the library fills in (lengths, checksums) are not modelled. The mutex
  \<open>writer_gaurd\<close> of the class has no field here: \<open>write_dummy_user\<close> and \<open>write_dummy_target\<close> hold
  it from their first line to their last, so that writes of several threads to one capture
  come one after the other, and each is one step of the model.
\<close>

section \<open>Segments\<close>

record segment =
  eth_src :: string
  eth_dst :: string
  ip_src :: string
  ip_dst :: string
  ip_id :: u16
  ip_ttl :: u8
  port_src :: u16
  port_dst :: u16
  syn_flag :: bool
  ack_flag :: bool
  seq_number :: u32
  ack_number :: u32
  window_size :: u16
  seg_payload :: buffer

record tcp_layer =
  tcp_src :: u16
  tcp_dst :: u16
  tcp_syn :: bool
  tcp_ack :: bool
  tcp_seq :: u32
  tcp_ackno :: u32
  tcp_window :: u16

text \<open>\<open>pcpp::TcpLayer\<close>: a header with the ports set and everything else zero.\<close>

definition TcpLayer :: "u16 \<Rightarrow> u16 \<Rightarrow> tcp_layer" where
  "TcpLayer src dst = \<lparr>tcp_src = src, tcp_dst = dst, tcp_syn = False, tcp_ack = False, tcp_seq = 0,
     tcp_ackno = 0, tcp_window = 0\<rparr>"

section \<open>PcapInterface\<close>

record pcap_interface =
  out_file :: string
  out_open :: bool
  out :: "segment list"
  user_ip :: string
  target_ip :: string
  user_mac :: string
  target_mac :: string
  user_port :: u16
  target_port :: u16
  user_sequence_number :: u32
  target_sequence_number :: u32

definition write_tcp ::
  "string \<Rightarrow> string \<Rightarrow> string \<Rightarrow> string \<Rightarrow> tcp_layer \<Rightarrow> buffer \<Rightarrow> size_t \<Rightarrow>
   pcap_interface \<Rightarrow> pcap_interface result" where
  "write_tcp src_mac dest_mac src dest l d len p =
     (if unat len \<le> length d then
        Inr (p\<lparr>out := out p @
          [\<lparr>eth_src = src_mac, eth_dst = dest_mac, ip_src = src, ip_dst = dest, ip_id = 2000,
            ip_ttl = 64, port_src = tcp_src l, port_dst = tcp_dst l, syn_flag = tcp_syn l,
            ack_flag = tcp_ack l, seq_number = tcp_seq l, ack_number = tcp_ackno l,
            window_size = tcp_window l, seg_payload = take (unat len) d\<rparr>]\<rparr>)
      else Inl Out_of_bounds)"

text \<open>The constructor opens the file and writes the three-way handshake.\<close>

definition PcapInterface :: "string \<Rightarrow> string \<Rightarrow> u16 \<Rightarrow> pcap_interface result" where
  "PcapInterface file ip port =
     (let p = \<lparr>out_file = file, out_open = True, out = [], user_ip = ''192.168.0.1'', target_ip = ip,
               user_mac = ''4A:7D:3D:39:61:79'', target_mac = ''16:F7:AD:6C:C1:57'',
               user_port = 1000, target_port = port,
               user_sequence_number = 3, target_sequence_number = 3\<rparr>;
          syn = (TcpLayer (user_port p) port)\<lparr>tcp_syn := True, tcp_seq := 2\<rparr>;
          syn_ack = (TcpLayer port (user_port p))\<lparr>tcp_syn := True, tcp_ack := True, tcp_ackno := 3, tcp_seq := 2\<rparr>;
          ack = (TcpLayer (user_port p) port)\<lparr>tcp_ack := True, tcp_ackno := 3, tcp_seq := 3, tcp_window := - 1\<rparr>
      in ebind (write_tcp (user_mac p) (target_mac p) (user_ip p) ip syn [] 0 p) (\<lambda>p.
         ebind (write_tcp (target_mac p) (user_mac p) ip (user_ip p) syn_ack [] 0 p) (\<lambda>p.
                write_tcp (user_mac p) (target_mac p) (user_ip p) ip ack [] 0 p)))"

definition PcapInterface_destroy :: "pcap_interface \<Rightarrow> pcap_interface" where
  "PcapInterface_destroy p = p\<lparr>out_open := False\<rparr>"

definition write_dummy_user :: "buffer \<Rightarrow> size_t \<Rightarrow> pcap_interface \<Rightarrow> pcap_interface result" where
  "write_dummy_user d data_len p =
     (let l = (TcpLayer (user_port p) (target_port p))\<lparr>tcp_ack := True,
                tcp_ackno := target_sequence_number p, tcp_seq := user_sequence_number p,
                tcp_window := - 1\<rparr>
      in ebind (write_tcp (user_mac p) (target_mac p) (user_ip p) (target_ip p) l d data_len p)
           (\<lambda>p. Inr (p\<lparr>user_sequence_number := user_sequence_number p + ucast data_len\<rparr>)))"

definition write_dummy_target :: "buffer \<Rightarrow> size_t \<Rightarrow> pcap_interface \<Rightarrow> pcap_interface result" where
  "write_dummy_target d data_len p =
     (let l = (TcpLayer (target_port p) (user_port p))\<lparr>tcp_ack := True,
                tcp_ackno := user_sequence_number p, tcp_seq := target_sequence_number p,
                tcp_window := - 1\<rparr>
      in ebind (write_tcp (target_mac p) (user_mac p) (target_ip p) (user_ip p) l d data_len p)
           (\<lambda>p. Inr (p\<lparr>target_sequence_number := target_sequence_number p + ucast data_len\<rparr>)))"

section \<open>What a reader of the capture sees\<close>

text \<open>
  A TCP endpoint pair replaying the data segments: the next sequence number expected from
  each side. A segment is accepted when it continues its own side's numbering and
  acknowledges everything the other side has sent so far.
\<close>

definition from_user :: "segment \<Rightarrow> bool" where
  "from_user s \<longleftrightarrow> eth_src s = ''4A:7D:3D:39:61:79''"

definition accept :: "segment \<Rightarrow> u32 \<times> u32 \<Rightarrow> (u32 \<times> u32) option" where
  "accept s ut =
     (let n = of_nat (length (seg_payload s))
      in if syn_flag s \<or> \<not> ack_flag s then None
         else if from_user s then
           (if (seq_number s, ack_number s) = (fst ut, snd ut) then Some (fst ut + n, snd ut) else None)
         else
           (if (seq_number s, ack_number s) = (snd ut, fst ut) then Some (fst ut, snd ut + n) else None))"

fun replay :: "u32 \<times> u32 \<Rightarrow> segment list \<Rightarrow> (u32 \<times> u32) option" where
  "replay ut [] = Some ut"
| "replay ut (s # ss) = Option.bind (accept s ut) (\<lambda>ut'. replay ut' ss)"

definition handshake :: "segment list \<Rightarrow> bool" where
  "handshake ss \<longleftrightarrow> (case ss of [s, sa, a] \<Rightarrow>
       from_user s \<and> syn_flag s \<and> \<not> ack_flag s \<and>
       \<not> from_user sa \<and> syn_flag sa \<and> ack_flag sa \<and> ack_number sa = seq_number s + 1 \<and>
       from_user a \<and> \<not> syn_flag a \<and> ack_flag a \<and>
       seq_number a = seq_number s + 1 \<and> ack_number a = seq_number sa + 1
     | _ \<Rightarrow> False)"

definition user_stream :: "segment list \<Rightarrow> buffer" where
  "user_stream ss = concat (map seg_payload (filter from_user ss))"

definition target_stream :: "segment list \<Rightarrow> buffer" where
  "target_stream ss = concat (map seg_payload (filter (\<lambda>s. \<not> from_user s) ss))"

lemma replay_append:
  "replay ut (ss @ ss') = Option.bind (replay ut ss) (\<lambda>ut'. replay ut' ss')"
proof (induction ss arbitrary: ut)
  case Nil
  then show ?case by simp
next
  case (Cons s ss)
  then show ?case by (cases "accept s ut") simp_all
qed

lemma stream_append [simp]:
  "user_stream (ss @ ss') = user_stream ss @ user_stream ss'"
  "target_stream (ss @ ss') = target_stream ss @ target_stream ss'"
  by (simp_all add: user_stream_def target_stream_def)

section \<open>The invariant of a capture\<close>

text \<open>
  \<open>captured us ts p\<close>: after the handshake the file holds exactly a conversation in which the
  user sent \<open>us\<close> and the target sent \<open>ts\<close>, and the two counters are where it stopped.
\<close>

definition captured :: "buffer \<Rightarrow> buffer \<Rightarrow> pcap_interface \<Rightarrow> bool" where
  "captured us ts p \<longleftrightarrow>
     user_mac p = ''4A:7D:3D:39:61:79'' \<and> target_mac p = ''16:F7:AD:6C:C1:57'' \<and>
     (\<exists>hs ds. out p = hs @ ds \<and> handshake hs \<and>
        replay (3, 3) ds = Some (user_sequence_number p, target_sequence_number p) \<and>
        user_stream ds = us \<and> target_stream ds = ts)"

lemma capturedI:
  assumes "user_mac p = ''4A:7D:3D:39:61:79''" and "target_mac p = ''16:F7:AD:6C:C1:57''"
    and "out p = hs @ ds" and "handshake hs"
    and "replay (3, 3) ds = Some (user_sequence_number p, target_sequence_number p)"
    and "user_stream ds = us" and "target_stream ds = ts"
  shows "captured us ts p"
  using assms by (auto simp: captured_def)

lemma capturedE:
  assumes "captured us ts p"
  obtains hs ds where "user_mac p = ''4A:7D:3D:39:61:79''" and "target_mac p = ''16:F7:AD:6C:C1:57''"
    and "out p = hs @ ds" and "handshake hs"
    and "replay (3, 3) ds = Some (user_sequence_number p, target_sequence_number p)"
    and "user_stream ds = us" and "target_stream ds = ts"
  using assms by (auto simp: captured_def)

lemma PcapInterface_captured: "\<exists>p. PcapInterface file ip port = Inr p \<and> captured [] [] p \<and> out_open p"
proof -
  have "\<exists>p. PcapInterface file ip port = Inr p \<and> user_mac p = ''4A:7D:3D:39:61:79'' \<and>
    target_mac p = ''16:F7:AD:6C:C1:57'' \<and> user_sequence_number p = 3 \<and>
    target_sequence_number p = 3 \<and> handshake (out p) \<and> out_open p"
    by (simp add: PcapInterface_def Let_def write_tcp_def TcpLayer_def handshake_def from_user_def)
  then obtain p where p: "PcapInterface file ip port = Inr p" "user_mac p = ''4A:7D:3D:39:61:79''"
    "target_mac p = ''16:F7:AD:6C:C1:57''" "user_sequence_number p = 3" "target_sequence_number p = 3"
    "handshake (out p)" "out_open p"
    by blast
  then have "captured [] [] p"
    by (intro capturedI [of p "out p" "[]"]) (simp_all add: user_stream_def target_stream_def)
  with p show ?thesis by blast
qed

lemma ucast_size: "unat n \<le> length d \<Longrightarrow> (ucast n :: u32) = of_nat (length (take (unat n) d))"
  for n :: size_t
  by (simp add: of_nat_unat min_def)

lemma write_dummy_user_captured:
  assumes "captured us ts p" and "unat n \<le> length d"
  shows "\<exists>p'. write_dummy_user d n p = Inr p' \<and> captured (us @ take (unat n) d) ts p'"
proof -
  from assms(1) obtain hs ds where m: "user_mac p = ''4A:7D:3D:39:61:79''"
      "target_mac p = ''16:F7:AD:6C:C1:57''"
    and p: "out p = hs @ ds" "handshake hs"
      "replay (3, 3) ds = Some (user_sequence_number p, target_sequence_number p)"
      "user_stream ds = us" "target_stream ds = ts"
    by (rule capturedE)
  obtain s where s: "write_dummy_user d n p = Inr (p\<lparr>out := out p @ [s],
      user_sequence_number := user_sequence_number p + ucast n\<rparr>)"
    "from_user s" "\<not> syn_flag s" "ack_flag s" "seq_number s = user_sequence_number p"
    "ack_number s = target_sequence_number p" "seg_payload s = take (unat n) d"
    using assms(2) m by (simp add: write_dummy_user_def write_tcp_def TcpLayer_def from_user_def)
  have "captured (us @ take (unat n) d) ts (p\<lparr>out := out p @ [s],
      user_sequence_number := user_sequence_number p + ucast n\<rparr>)"
    by (rule capturedI [of _ hs "ds @ [s]"])
      (use m p s(2-) in \<open>simp_all add: replay_append accept_def ucast_size [OF assms(2)] user_stream_def
        target_stream_def del: length_take\<close>)
  with s(1) show ?thesis by blast
qed

lemma write_dummy_target_captured:
  assumes "captured us ts p" and "unat n \<le> length d"
  shows "\<exists>p'. write_dummy_target d n p = Inr p' \<and> captured us (ts @ take (unat n) d) p'"
proof -
  from assms(1) obtain hs ds where m: "user_mac p = ''4A:7D:3D:39:61:79''"
      "target_mac p = ''16:F7:AD:6C:C1:57''"
    and p: "out p = hs @ ds" "handshake hs"
      "replay (3, 3) ds = Some (user_sequence_number p, target_sequence_number p)"
      "user_stream ds = us" "target_stream ds = ts"
    by (rule capturedE)
  obtain s where s: "write_dummy_target d n p = Inr (p\<lparr>out := out p @ [s],
      target_sequence_number := target_sequence_number p + ucast n\<rparr>)"
    "\<not> from_user s" "\<not> syn_flag s" "ack_flag s" "seq_number s = target_sequence_number p"
    "ack_number s = user_sequence_number p" "seg_payload s = take (unat n) d"
    using assms(2) m by (simp add: write_dummy_target_def write_tcp_def TcpLayer_def from_user_def)
  have "captured us (ts @ take (unat n) d) (p\<lparr>out := out p @ [s],
      target_sequence_number := target_sequence_number p + ucast n\<rparr>)"
    by (rule capturedI [of _ hs "ds @ [s]"])
      (use m p s(2-) in \<open>simp_all add: replay_append accept_def ucast_size [OF assms(2)] user_stream_def
        target_stream_def del: length_take\<close>)
  with s(1) show ?thesis by blast
qed

text \<open>A sequence of writes through one capture object.\<close>

datatype capture_write = From_user buffer | From_target buffer

fun do_write :: "capture_write \<Rightarrow> pcap_interface \<Rightarrow> pcap_interface result" where
  "do_write (From_user d) p = write_dummy_user d (of_nat (length d)) p"
| "do_write (From_target d) p = write_dummy_target d (of_nat (length d)) p"

fun written :: "capture_write list \<Rightarrow> buffer \<times> buffer" where
  "written [] = ([], [])"
| "written (From_user d # ws) = (d @ fst (written ws), snd (written ws))"
| "written (From_target d # ws) = (fst (written ws), d @ snd (written ws))"

fun write_size :: "capture_write \<Rightarrow> nat" where
  "write_size (From_user d) = length d"
| "write_size (From_target d) = length d"

lemma do_writes_captured:
  assumes "captured us ts p" and "list_all (\<lambda>w. write_size w < 2 ^ 63) ws"
  shows "\<exists>p'. efold do_write ws p = Inr p' \<and>
    captured (us @ fst (written ws)) (ts @ snd (written ws)) p'"
  using assms
proof (induction ws arbitrary: us ts p)
  case Nil
  then show ?case by simp
next
  case (Cons w ws)
  show ?case
  proof (cases w)
    case (From_user d)
    then have d: "unat (of_nat (length d) :: size_t) = length d"
      using Cons.prems(2) by (simp add: unat_of_nat)
    then obtain p1 where p1: "do_write w p = Inr p1" "captured (us @ d) ts p1"
      using write_dummy_user_captured [OF Cons.prems(1), of "of_nat (length d)" d] From_user by auto
    show ?thesis using Cons.IH [OF p1(2)] Cons.prems(2) p1(1) From_user by simp
  next
    case (From_target d)
    then have d: "unat (of_nat (length d) :: size_t) = length d"
      using Cons.prems(2) by (simp add: unat_of_nat)
    then obtain p1 where p1: "do_write w p = Inr p1" "captured us (ts @ d) p1"
      using write_dummy_target_captured [OF Cons.prems(1), of "of_nat (length d)" d] From_target
      by auto
    show ?thesis using Cons.IH [OF p1(2)] Cons.prems(2) p1(1) From_target by simp
  qed
qed

section \<open>Properties\<close>



end
