(* ===== verification/Manager.thy ===== *)
theory Manager
  imports Table Packets Network Pcap
begin

text \<open>
  One websocket connection: \<open>WebSocketManager\<close> and \<open>SocketStreamData\<close>
  (src/src/websocketManager.h, src/src/websocketManager.cpp). A manager owns its table of
  streams and its flow-control flags; what it shares with the other threads (descriptors and
  epoll, the queue of write tasks, the length of the deferred queue, the configuration) is
  the record \<open>shared\<close>. Every member function is a function of both that returns both, or
  a fault. The websocket library is outside: \<open>sent\<close> is the log of the messages it has taken,
  and the status that \<open>ws->send\<close> returns is an argument where the code looks at it (a DATA
  frame that is reported as dropped is taken back there). The shared lock that \<open>send_data\<close>
  takes in builds that capture is in theory Locks, like all locks.

  The locks of the code make each function atomic towards the others; the interleavings
  that remain are the business of theory World.
\<close>

section \<open>State\<close>

record stream_data =
  ss_stream_type :: u8
  ss_id :: u32
  ss_fd :: int
  ss_fd_info :: addrinfo
  ss_buffer :: u32
  ss_pcap_file :: string
  ss_pcap :: "pcap_interface option"

record manager =
  streams :: "(u32 \<times> stream_data) list"
  has_backpressure :: bool
  socket_id :: size_t
  received_info :: bool
  info_valid :: bool
  sent :: "buffer list"

text \<open>A task of the pool: the lambda of \<open>handle_data\<close> with its captures.\<close>

record write_task =
  wt_this :: size_t
  wt_packet :: wisp_packet

record shared =
  os_state :: os
  send_queue_len :: size_t
  tasks :: "write_task list"
  conf :: config
  pcap_build :: bool
  pcap_iter :: size_t
  finished_captures :: "pcap_interface list"

text \<open>Captures are made in \<open>PCAP\<close> builds whose configuration asks for them.\<close>

definition capturing :: "shared \<Rightarrow> bool" where
  "capturing sh \<longleftrightarrow> pcap_build sh \<and> pcap_capture (get_conf (conf sh))"

lemma capturing_frame [simp]:
  "capturing (sh\<lparr>os_state := s\<rparr>) = capturing sh"
  "capturing (sh\<lparr>send_queue_len := n\<rparr>) = capturing sh"
  "capturing (sh\<lparr>tasks := ts\<rparr>) = capturing sh"
  "capturing (sh\<lparr>pcap_iter := n\<rparr>) = capturing sh"
  "capturing (sh\<lparr>finished_captures := cs\<rparr>) = capturing sh"
  by (simp_all add: capturing_def)

section \<open>Sending\<close>

datatype send_status = BACKPRESSURE | SUCCESS | DROPPED

text \<open>\<open>ws->send(std::string_view(ptr, n))\<close>.\<close>

definition ws_send :: "buffer \<times> size_t \<Rightarrow> manager \<Rightarrow> manager" where
  "ws_send f m = m\<lparr>sent := sent m @ [take (unat (snd f)) (fst f)]\<rparr>"

definition send_close :: "u8 \<Rightarrow> u32 \<Rightarrow> manager \<Rightarrow> manager result" where
  "send_close reason sid m =
     ebind (ClosePacket_serialize (ClosePacket_of reason)) (\<lambda>(b, n).
     ebind (wrap PACKET_CLOSE sid b n) (\<lambda>f. Inr (ws_send f m)))"

definition send_continue :: "u32 \<Rightarrow> u32 \<Rightarrow> manager \<Rightarrow> manager result" where
  "send_continue buf sid m =
     ebind (ContinuePacket_serialize (ContinuePacket_of buf)) (\<lambda>(b, n).
     ebind (wrap PACKET_CONTINUE sid b n) (\<lambda>f. Inr (ws_send f m)))"

text \<open>A write to the capture of a stream, found again in the table.\<close>

definition capture ::
  "(pcap_interface \<Rightarrow> pcap_interface result) \<Rightarrow> u32 \<Rightarrow> manager \<Rightarrow> manager result" where
  "capture f sid m =
     (case map_of (streams m) sid of
        None \<Rightarrow> Inl End_iterator
      | Some d \<Rightarrow>
          (case ss_pcap d of
             None \<Rightarrow> Inl Null_capture
           | Some p \<Rightarrow> ebind (f p) (\<lambda>p'.
               Inr (m\<lparr>streams := AList.update sid (d\<lparr>ss_pcap := Some p'\<rparr>) (streams m)\<rparr>))))"

definition send_data :: "shared \<Rightarrow> u32 \<Rightarrow> buffer \<Rightarrow> size_t \<Rightarrow> manager \<Rightarrow> manager result" where
  "send_data sh sid d len m =
     ebind (if capturing sh then capture (write_dummy_target d len) sid m else Inr m) (\<lambda>m.
     ebind (wrap PACKET_DATA sid d len) (\<lambda>f. Inr (ws_send f m)))"

section \<open>Construction\<close>

definition WebSocketManager :: "size_t \<Rightarrow> manager result" where
  "WebSocketManager wsid =
     send_continue BUFFER_COUNT 0
       \<lparr>streams = [], has_backpressure = False, socket_id = wsid, received_info = False,
        info_valid = True, sent = []\<rparr>"

section \<open>Flow control towards the client\<close>

definition refresh_stream :: "u32 \<Rightarrow> manager \<Rightarrow> manager result" where
  "refresh_stream k m =
     (case map_of (streams m) k of
        None \<Rightarrow> Inr m
      | Some d \<Rightarrow>
          if ss_buffer d = 0 then
            send_continue BUFFER_COUNT k
              (m\<lparr>streams := AList.update k (d\<lparr>ss_buffer := BUFFER_COUNT\<rparr>) (streams m)\<rparr>)
          else Inr m)"

definition update_streams :: "shared \<Rightarrow> manager \<Rightarrow> manager result" where
  "update_streams sh m =
     (if has_backpressure m \<or> MAX_QUEUE < send_queue_len sh then Inr m
      else efold refresh_stream (map fst (streams m)) m)"

section \<open>Closing\<close>

text \<open>
  \<open>streams[stream_id]\<close> on a missing key would create an entry whose descriptor is
  indeterminate; its use is the fault.
\<close>

definition close_stream :: "u32 \<Rightarrow> bool \<Rightarrow> manager \<times> shared \<Rightarrow> (manager \<times> shared) result" where
  "close_stream sid remove_poll ms =
     (case ms of (m, sh) \<Rightarrow>
        ebind (send_close 0x02 sid m) (\<lambda>m.
          case map_of (streams m) sid of
            None \<Rightarrow> Inl Uninitialised
          | Some d \<Rightarrow>
              let os1 = (if remove_poll then snd (erase_fd (ss_fd d) (os_state sh)) else os_state sh)
              in ebind (if capturing sh then
                          (case ss_pcap d of
                             None \<Rightarrow> Inl Null_capture
                           | Some p \<Rightarrow> Inr (finished_captures sh @ [PcapInterface_destroy p]))
                        else Inr (finished_captures sh)) (\<lambda>fin.
                   Inr (m\<lparr>streams := AList.delete sid (streams m)\<rparr>,
                        sh\<lparr>os_state := sys_close (ss_fd d) os1, finished_captures := fin\<rparr>))))"

definition force_close :: "manager \<times> shared \<Rightarrow> (manager \<times> shared) result" where
  "force_close ms =
     (case ms of (m, sh) \<Rightarrow>
        efold (\<lambda>id. close_stream id True) (map fst (streams m)) (m\<lparr>has_backpressure := False\<rparr>, sh))"

section \<open>Client packets\<close>

definition open_pcap :: "u32 \<Rightarrow> string \<Rightarrow> u16 \<Rightarrow> shared \<Rightarrow> stream_data \<Rightarrow> (stream_data \<times> shared) result" where
  "open_pcap now ip port sh d =
     (let file = to_string (unat now) @ ''.'' @ to_string (unat (pcap_iter sh)) @ ''.woeful.pcap''
      in ebind (PcapInterface file ip port) (\<lambda>p.
           Inr (d\<lparr>ss_pcap_file := file, ss_pcap := Some p\<rparr>, sh\<lparr>pcap_iter := pcap_iter sh + 1\<rparr>)))"

text \<open>
  \<open>now\<close> is the clock reading of the call. The result says whether a stream was created.
\<close>

definition handle_connect ::
  "net \<Rightarrow> u32 \<Rightarrow> wisp_packet \<Rightarrow> manager \<times> shared \<Rightarrow> (u32 option \<times> manager \<times> shared) result" where
  "handle_connect net now packet ms =
     (case ms of (m, sh) \<Rightarrow>
        ebind (ConnectPacket (data packet) (data_len packet)) (\<lambda>c.
        ebind (open_stream (get_conf (conf sh)) net (destination_hostname c) (stream_type c)
                 (destination_port c) (os_state sh)) (\<lambda>(connection, os1).
          let sh = sh\<lparr>os_state := os1\<rparr>
          in case connection of
               None \<Rightarrow> Inr (None, m, sh)
             | Some (fd, ai) \<Rightarrow>
                 let d = \<lparr>ss_stream_type = stream_type c, ss_id = stream_id packet, ss_fd = fd,
                          ss_fd_info = ai, ss_buffer = BUFFER_COUNT, ss_pcap_file = [], ss_pcap = None\<rparr>
                 in ebind (if capturing sh then open_pcap now (ai_addr ai) (destination_port c) sh d
                           else Inr (d, sh)) (\<lambda>(d, sh).
                      Inr (Some (stream_id packet),
                           m\<lparr>streams := AList.update (stream_id packet) d (streams m)\<rparr>,
                           sh\<lparr>os_state := wake (push_fd fd (os_state sh))\<rparr>)))))"

definition handle_data ::
  "wisp_packet \<Rightarrow> manager \<times> shared \<Rightarrow> (u32 option \<times> manager \<times> shared) result" where
  "handle_data packet ms =
     (case ms of (m, sh) \<Rightarrow>
        (case map_of (streams m) (stream_id packet) of
           None \<Rightarrow> Inr (None, m, sh)
         | Some d \<Rightarrow>
             let sh = sh\<lparr>tasks := tasks sh @ [\<lparr>wt_this = socket_id m, wt_packet = packet\<rparr>]\<rparr>
             in if ss_stream_type d \<noteq> 0x02 then
                  let b = ss_buffer d - 1;
                      m1 = m\<lparr>streams := AList.update (stream_id packet) (d\<lparr>ss_buffer := b\<rparr>) (streams m)\<rparr>
                  in if b = 0 \<and> has_backpressure m1 \<and> send_queue_len sh < MAX_QUEUE then
                       ebind (send_continue BUFFER_COUNT (stream_id packet)
                         (m\<lparr>streams := AList.update (stream_id packet) (d\<lparr>ss_buffer := BUFFER_COUNT\<rparr>)
                              (streams m)\<rparr>)) (\<lambda>m2. Inr (Some BUFFER_COUNT, m2, sh))
                     else Inr (Some b, m1, sh)
                else Inr (Some (ss_buffer d), m, sh)))"

text \<open>
  A message: \<open>rcv\<close> is the receive buffer it starts in, \<open>n\<close> the length of the view.
\<close>

definition receive ::
  "net \<Rightarrow> u32 \<Rightarrow> buffer \<Rightarrow> size_t \<Rightarrow> manager \<times> shared \<Rightarrow> (manager \<times> shared) result" where
  "receive net now rcv n ms =
     ebind (WispPacket rcv n) (\<lambda>packet.
       if packet_type packet = PACKET_INFO then Inr ms
       else
         let m = fst ms;
             m = (if \<not> received_info m \<and> info_valid m then m\<lparr>info_valid := False\<rparr> else m);
             ms = (m, snd ms)
         in if packet_type packet = PACKET_CONNECT then
              ebind (handle_connect net now packet ms) (\<lambda>(ret, m, sh).
                if ret = None then
                  ebind (send_close 0x41 (stream_id packet) m) (\<lambda>m. Inr (m, sh))
                else Inr (m, sh))
            else if packet_type packet = PACKET_DATA then
              ebind (handle_data packet ms) (\<lambda>(ret, m, sh). Inr (m, sh))
            else Inr ms)"

section \<open>Write tasks\<close>

text \<open>
  What the operating system answers to one round of the loop of a write task: \<open>poll\<close> fails;
  \<open>write\<close> takes some of the bytes, or fails with \<open>EAGAIN\<close>, or with another error.
\<close>

datatype write_answer = Poll_failed | Write_took nat | Write_again | Write_failed

text \<open>
  One round. The flag of the result says whether the loop goes round again. The stream is
  looked up anew, by the task, when it runs.
\<close>

definition task_round ::
  "write_answer \<Rightarrow> wisp_packet \<Rightarrow> manager \<times> shared \<Rightarrow> (bool \<times> manager \<times> shared) result" where
  "task_round a packet ms =
     (case ms of (m, sh) \<Rightarrow>
        (case map_of (streams m) (stream_id packet) of
           None \<Rightarrow> Inl End_iterator
         | Some d \<Rightarrow>
             ebind (if capturing sh
                    then capture (write_dummy_user (data packet) (data_len packet)) (stream_id packet) m
                    else Inr m) (\<lambda>m.
               case a of
                 Poll_failed \<Rightarrow> Inr (False, m, sh)
               | Write_took k \<Rightarrow>
                   Inr (False, m, sh\<lparr>os_state := sys (Sys_write (ss_fd d)
                     (take k (take (unat (data_len packet)) (data packet)))) (os_state sh)\<rparr>)
               | Write_again \<Rightarrow> Inr (True, m, sh)
               | Write_failed \<Rightarrow> Inr (False, m, sh))))"

text \<open>
  The loop over the answers the task gets; \<open>None\<close> means that it is still waiting after the
  last of them.
\<close>

fun run_task ::
  "write_answer list \<Rightarrow> wisp_packet \<Rightarrow> manager \<times> shared \<Rightarrow> ((manager \<times> shared) option) result" where
  "run_task [] packet ms = Inr None"
| "run_task (a # as) packet ms =
     ebind (task_round a packet ms) (\<lambda>(again, m, sh).
       if again then run_task as packet (m, sh) else Inr (Some (m, sh)))"

section \<open>Sending, in terms of frames\<close>

definition emit :: "buffer \<Rightarrow> manager \<Rightarrow> manager" where
  "emit f m = m\<lparr>sent := sent m @ [f]\<rparr>"

lemma emit_simps [simp]:
  "streams (emit f m) = streams m" "has_backpressure (emit f m) = has_backpressure m"
  "socket_id (emit f m) = socket_id m" "received_info (emit f m) = received_info m"
  "info_valid (emit f m) = info_valid m" "sent (emit f m) = sent m @ [f]"
  by (simp_all add: emit_def)

abbreviation close_frame :: "u8 \<Rightarrow> u32 \<Rightarrow> buffer" where
  "close_frame reason sid \<equiv> frame PACKET_CLOSE sid [Some reason]"

abbreviation continue_frame :: "u32 \<Rightarrow> u32 \<Rightarrow> buffer" where
  "continue_frame n sid \<equiv> frame PACKET_CONTINUE sid (map Some (u32_bytes n))"

abbreviation data_frame :: "u32 \<Rightarrow> buffer \<Rightarrow> buffer" where
  "data_frame sid d \<equiv> frame PACKET_DATA sid d"

named_theorems send_simps \<open>what the send operations put on the websocket\<close>

lemma length_frame [simp]: "length (frame t sid p) = 5 + length p"
  by (simp add: frame_def)

lemma ws_send_frame: "unat n = length p \<Longrightarrow> 5 + length p < 2 ^ 63 \<Longrightarrow>
  ws_send (frame t sid p, 5 + n) m = emit (frame t sid p) m"
  by (simp add: ws_send_def emit_def unat_size_add)

lemma send_close_frame [send_simps]: "send_close reason sid m = Inr (emit (close_frame reason sid) m)"
  using close.serialize_image [of "ClosePacket_of reason"] ws_send_frame [of 1 "[Some reason]"]
  by (simp add: send_close_def close_image_def ClosePacket_of_def wrap_frame)

lemma send_continue_frame [send_simps]:
  "send_continue n sid m = Inr (emit (continue_frame n sid) m)"
  using continue.serialize_image [of "ContinuePacket_of n"] ws_send_frame [of 4 "map Some (u32_bytes n)"]
  by (simp add: send_continue_def continue_image_def ContinuePacket_of_def wrap_frame)

lemma send_data_frame [send_simps]:
  assumes "\<not> capturing sh" and "unat n = length d" and "5 + length d < 2 ^ 63"
  shows "send_data sh sid d n m = Inr (emit (data_frame sid d) m)"
  using assms by (simp add: send_data_def wrap_frame ws_send_frame)

lemma capture_ok:
  assumes "map_of (streams m) sid = Some d" and "ss_pcap d = Some p" and "f p = Inr p'"
  shows "capture f sid m =
    Inr (m\<lparr>streams := AList.update sid (d\<lparr>ss_pcap := Some p'\<rparr>) (streams m)\<rparr>)"
  using assms by (simp add: capture_def)

section \<open>Refreshing the credits\<close>

definition refreshed :: "stream_data \<Rightarrow> stream_data" where
  "refreshed d = (if ss_buffer d = 0 then d\<lparr>ss_buffer := BUFFER_COUNT\<rparr> else d)"

definition refresh_frames :: "(u32 \<times> stream_data) list \<Rightarrow> buffer list" where
  "refresh_frames es =
     map (\<lambda>(k, d). continue_frame BUFFER_COUNT k) (filter (\<lambda>(k, d). ss_buffer d = 0) es)"

lemma update_middle:
  "k \<notin> fst ` set xs \<Longrightarrow> AList.update k v (xs @ (k, w) # ys) = xs @ (k, v) # ys"
  by (induction xs) auto

lemma map_of_middle: "k \<notin> fst ` set xs \<Longrightarrow> map_of (xs @ (k, w) # ys) k = Some w"
  by (induction xs) auto

lemma efold_refresh:
  assumes "streams m = xs @ ys" and "distinct (map fst (xs @ ys))"
  shows "efold refresh_stream (map fst ys) m =
    Inr (m\<lparr>streams := xs @ map (\<lambda>(k, d). (k, refreshed d)) ys, sent := sent m @ refresh_frames ys\<rparr>)"
  using assms
proof (induction ys arbitrary: xs m)
  case Nil
  then show ?case by (simp add: refresh_frames_def)
next
  case (Cons y ys)
  obtain k d where y: "y = (k, d)" by fastforce
  with Cons.prems have k: "k \<notin> fst ` set xs" by auto
  define m1 where "m1 = m\<lparr>streams := (xs @ [(k, refreshed d)]) @ ys,
      sent := sent m @ refresh_frames [(k, d)]\<rparr>"
  have "streams m = xs @ (k, d) # ys" using Cons.prems(1) y by simp
  then have "map_of (streams m) k = Some d"
    and "AList.update k (d\<lparr>ss_buffer := BUFFER_COUNT\<rparr>) (streams m) =
        xs @ (k, d\<lparr>ss_buffer := BUFFER_COUNT\<rparr>) # ys"
    using k by (simp_all only: map_of_middle update_middle not_False_eq_True)
  then have "refresh_stream k m = Inr m1"
    using Cons.prems(1)
    by (auto simp: refresh_stream_def y send_simps m1_def refreshed_def
        refresh_frames_def emit_def)
  moreover have "efold refresh_stream (map fst ys) m1 =
      Inr (m1\<lparr>streams := (xs @ [(k, refreshed d)]) @ map (\<lambda>(k, d). (k, refreshed d)) ys,
             sent := sent m1 @ refresh_frames ys\<rparr>)"
    using Cons.prems(2) by (intro Cons.IH) (auto simp: m1_def y)
  ultimately show ?case by (simp add: y m1_def refresh_frames_def)
qed

lemma update_streams_spec:
  assumes "keys_ok (streams m)"
  shows "update_streams sh m =
    Inr (if has_backpressure m \<or> MAX_QUEUE < send_queue_len sh then m
         else m\<lparr>streams := map (\<lambda>(k, d). (k, refreshed d)) (streams m),
                sent := sent m @ refresh_frames (streams m)\<rparr>)"
  using efold_refresh [of m "[]" "streams m"] assms
  by (simp add: update_streams_def keys_ok_def)

section \<open>Closing, in terms of the tables\<close>

lemma sys_close_erase: "sys_close fd (snd (erase_fd fd s)) = sys_close fd s"
  by (simp add: os_defs)

lemma close_stream_found:
  assumes "map_of (streams m) sid = Some d" and "capturing sh \<longrightarrow> ss_pcap d \<noteq> None"
  shows "close_stream sid remove_poll (m, sh) =
    Inr ((emit (close_frame 2 sid) m)\<lparr>streams := AList.delete sid (streams m)\<rparr>,
         sh\<lparr>os_state := sys_close (ss_fd d) (os_state sh),
            finished_captures := finished_captures sh @
              (if capturing sh then [PcapInterface_destroy (the (ss_pcap d))] else [])\<rparr>)"
  using assms
  by (cases remove_poll) (auto simp: close_stream_def send_simps sys_close_erase Let_def)

lemma close_stream_missing:
  "map_of (streams m) sid = None \<Longrightarrow> close_stream sid remove_poll (m, sh) = Inl Uninitialised"
  by (simp add: close_stream_def send_simps)

text \<open>\<open>force_close\<close> closes every stream, in the order of the iteration.\<close>

lemma efold_close:
  assumes "distinct (map fst es)" and "streams m = es"
    and "\<And>k d. (k, d) \<in> set es \<Longrightarrow> capturing sh \<longrightarrow> ss_pcap d \<noteq> None"
  shows "\<exists>fin. efold (\<lambda>id. close_stream id True) (map fst es) (m, sh) =
    Inr (m\<lparr>streams := [], sent := sent m @ map (\<lambda>(k, d). close_frame 2 k) es\<rparr>,
         sh\<lparr>os_state := fold (\<lambda>(k, d). sys_close (ss_fd d)) es (os_state sh),
            finished_captures := fin\<rparr>)"
  using assms
proof (induction es arbitrary: m sh)
  case Nil
  then show ?case by (intro exI [of _ "finished_captures sh"]) simp
next
  case (Cons e es)
  obtain k d where e: "e = (k, d)" by fastforce
  define fin where "fin = finished_captures sh @
      (if capturing sh then [PcapInterface_destroy (the (ss_pcap d))] else [])"
  define m1 where "m1 = (emit (close_frame 2 k) m)\<lparr>streams := es\<rparr>"
  define sh1 where "sh1 = sh\<lparr>os_state := sys_close (ss_fd d) (os_state sh), finished_captures := fin\<rparr>"
  have k: "k \<notin> fst ` set es" using Cons.prems(1) e by simp
  have "map_of (streams m) k = Some d" and "AList.delete k (streams m) = es"
    using Cons.prems(2) e k by (simp_all add: AList.delete_idem)
  moreover have "capturing sh \<longrightarrow> ss_pcap d \<noteq> None" using Cons.prems(3) [of k d] e by simp
  ultimately have "close_stream k True (m, sh) = Inr (m1, sh1)"
    by (simp only: close_stream_found m1_def sh1_def fin_def)
  moreover have "capturing sh1 = capturing sh" by (simp add: sh1_def)
  then obtain fin' where "efold (\<lambda>id. close_stream id True) (map fst es) (m1, sh1) =
      Inr (m1\<lparr>streams := [], sent := sent m1 @ map (\<lambda>(k, d). close_frame 2 k) es\<rparr>,
           sh1\<lparr>os_state := fold (\<lambda>(k, d). sys_close (ss_fd d)) es (os_state sh1),
             finished_captures := fin'\<rparr>)"
    using Cons.IH [of m1 sh1] Cons.prems(1,3) by (auto simp: m1_def)
  ultimately show ?case
    by (intro exI [of _ fin']) (simp add: e m1_def sh1_def emit_def)
qed

lemma force_close_spec:
  assumes "keys_ok (streams m)"
    and "\<And>k d. map_of (streams m) k = Some d \<Longrightarrow> capturing sh \<longrightarrow> ss_pcap d \<noteq> None"
  shows "\<exists>fin. force_close (m, sh) =
    Inr (m\<lparr>streams := [], has_backpressure := False,
            sent := sent m @ map (\<lambda>(k, d). close_frame 2 k) (streams m)\<rparr>,
         sh\<lparr>os_state := fold (\<lambda>(k, d). sys_close (ss_fd d)) (streams m) (os_state sh),
            finished_captures := fin\<rparr>)"
proof -
  have d: "distinct (map fst (streams m))" using assms(1) by (simp add: keys_ok_def)
  have "capturing sh \<longrightarrow> ss_pcap d \<noteq> None" if "(k, d) \<in> set (streams m)" for k d
    using assms(2) [of k d] tab.entries_lookup [OF assms(1), of k d] that by simp
  then obtain fin where "efold (\<lambda>id. close_stream id True) (map fst (streams m))
      (m\<lparr>has_backpressure := False\<rparr>, sh) =
    Inr (m\<lparr>has_backpressure := False, streams := [],
            sent := sent m @ map (\<lambda>(k, d). close_frame 2 k) (streams m)\<rparr>,
         sh\<lparr>os_state := fold (\<lambda>(k, d). sys_close (ss_fd d)) (streams m) (os_state sh),
            finished_captures := fin\<rparr>)"
    using efold_close [OF d, of "m\<lparr>has_backpressure := False\<rparr>" sh] by auto
  then show ?thesis by (intro exI [of _ fin]) (simp add: force_close_def)
qed

lemma filter_removeAll: "filter P (removeAll x xs) = filter (\<lambda>y. y \<noteq> x \<and> P y) xs"
  by (induction xs) auto

lemma fold_sys_close:
  "open_fds (fold (\<lambda>(k, d). sys_close (ss_fd d)) es s) =
     filter (\<lambda>fd. fd \<notin> (ss_fd \<circ> snd) ` set es) (open_fds s)"
  "interest (fold (\<lambda>(k, d). sys_close (ss_fd d)) es s) =
     filter (\<lambda>fd. fd \<notin> (ss_fd \<circ> snd) ` set es) (interest s)"
  "pipes (fold (\<lambda>(k, d). sys_close (ss_fd d)) es s) = pipes s"
proof (induction es arbitrary: s)
  case (Cons e es)
  { case 1 show ?case using Cons.IH(1) by (cases e) (simp add: sys_close_def sys_def filter_removeAll) }
  { case 2 show ?case using Cons.IH(2) by (cases e) (simp add: sys_close_def sys_def filter_removeAll) }
  { case 3 show ?case using Cons.IH(3) by (cases e) (simp add: sys_close_def sys_def) }
qed simp_all

section \<open>Connecting, in terms of the policy\<close>

text \<open>The fields of a CONNECT payload.\<close>

definition connect_host :: "u8 list \<Rightarrow> string" where
  "connect_host bs = chars (takeWhile (\<lambda>b. b \<noteq> 0) (drop 3 bs))"

definition connect_port :: "u8 list \<Rightarrow> u16" where
  "connect_port bs = bytes_u16 (take 2 (drop 1 bs))"

definition fresh_stream :: "u8 \<Rightarrow> u32 \<Rightarrow> int \<Rightarrow> addrinfo \<Rightarrow> stream_data" where
  "fresh_stream ty sid fd ai =
     \<lparr>ss_stream_type = ty, ss_id = sid, ss_fd = fd, ss_fd_info = ai, ss_buffer = BUFFER_COUNT,
      ss_pcap_file = [], ss_pcap = None\<rparr>"

definition connect_payload :: "wisp_packet \<Rightarrow> u8 list \<Rightarrow> bool" where
  "connect_payload p bs \<longleftrightarrow> data p = map Some bs \<and> unat (data_len p) = length bs \<and>
     3 < length bs \<and> length bs < 2 ^ 62"

lemma handle_connect_open:
  assumes "connect_payload p bs" and "config_ok (conf sh)"
    and "connection_of (conf sh) net (connect_host bs) (bs ! 0) (connect_port bs) (os_state sh) = (r, os1)"
  shows "handle_connect net now p (m, sh) =
    (case r of
       None \<Rightarrow> Inr (None, m, sh\<lparr>os_state := os1\<rparr>)
     | Some (fd, ai) \<Rightarrow>
         let d = fresh_stream (bs ! 0) (stream_id p) fd ai; sh1 = sh\<lparr>os_state := os1\<rparr>
         in ebind (if capturing sh then open_pcap now (ai_addr ai) (connect_port bs) sh1 d else Inr (d, sh1))
              (\<lambda>(d, sh). Inr (Some (stream_id p),
                 m\<lparr>streams := AList.update (stream_id p) d (streams m)\<rparr>,
                 sh\<lparr>os_state := wake (push_fd fd (os_state sh))\<rparr>)))"
proof -
  have c: "ConnectPacket (data p) (data_len p) =
      Inr \<lparr>stream_type = bs ! 0, destination_port = connect_port bs,
           destination_hostname = connect_hostname bs,
           destination_hostname_len = of_nat (length (connect_hostname bs))\<rparr>"
    using assms(1) by (simp add: connect_payload_def ConnectPacket_bytes connect_port_def)
  have h: "c_string (connect_hostname bs) = Inr (connect_host bs)"
    using assms(1) by (simp add: connect_payload_def connect_hostname_c_string connect_host_def)
  show ?thesis
    using assms(3)
    by (simp add: handle_connect_def c open_stream_connection [OF assms(2) h] get_conf_def
        fresh_stream_def Let_def split: option.split)
qed

lemma open_pcap_ok: "\<exists>file p. open_pcap now ip port sh d =
    Inr (d\<lparr>ss_pcap_file := file, ss_pcap := Some p\<rparr>, sh\<lparr>pcap_iter := pcap_iter sh + 1\<rparr>)"
proof -
  let ?file = "to_string (unat now) @ ''.'' @ to_string (unat (pcap_iter sh)) @ ''.woeful.pcap''"
  obtain p where "PcapInterface ?file ip port = Inr p" using PcapInterface_captured by blast
  then show ?thesis by (auto simp: open_pcap_def Let_def)
qed

section \<open>Data, in terms of credits\<close>

definition data_step :: "wisp_packet \<Rightarrow> manager \<times> shared \<Rightarrow> (manager \<times> shared) result" where
  "data_step p ms = ebind (handle_data p ms) (\<lambda>(r, m, sh). Inr (m, sh))"

lemma data_step_no_backpressure:
  assumes "map_of (streams m) (stream_id p) = Some d" and "ss_stream_type d \<noteq> 2"
    and "\<not> has_backpressure m"
  shows "data_step p (m, sh) =
    Inr (m\<lparr>streams := AList.update (stream_id p) (d\<lparr>ss_buffer := ss_buffer d - 1\<rparr>) (streams m)\<rparr>,
         sh\<lparr>tasks := tasks sh @ [\<lparr>wt_this = socket_id m, wt_packet = p\<rparr>]\<rparr>)"
  using assms by (simp add: data_step_def handle_data_def Let_def)

text \<open>
  A run of DATA packets for one TCP stream while there is no backpressure: the tasks are
  queued in order, the credit goes down by one per packet (modulo 2^32), nothing is sent.
\<close>

lemma data_steps_no_backpressure:
  assumes "map_of (streams m) sid = Some d" and "ss_stream_type d \<noteq> 2"
    and "\<not> has_backpressure m" and "list_all (\<lambda>p. stream_id p = sid) ps"
  shows "\<exists>m' sh'. efold data_step ps (m, sh) = Inr (m', sh') \<and> sent m' = sent m \<and>
    map_of (streams m') sid = Some (d\<lparr>ss_buffer := ss_buffer d - of_nat (length ps)\<rparr>) \<and>
    tasks sh' = tasks sh @ map (\<lambda>p. \<lparr>wt_this = socket_id m, wt_packet = p\<rparr>) ps"
  using assms
proof (induction ps arbitrary: m sh d)
  case Nil
  then show ?case by simp
next
  case (Cons p ps)
  let ?d = "d\<lparr>ss_buffer := ss_buffer d - 1\<rparr>"
  let ?m = "m\<lparr>streams := AList.update sid ?d (streams m)\<rparr>"
  let ?sh = "sh\<lparr>tasks := tasks sh @ [\<lparr>wt_this = socket_id m, wt_packet = p\<rparr>]\<rparr>"
  from Cons.prems have s: "data_step p (m, sh) = Inr (?m, ?sh)"
    by (simp add: data_step_no_backpressure)
  have "\<exists>m' sh'. efold data_step ps (?m, ?sh) = Inr (m', sh') \<and> sent m' = sent ?m \<and>
    map_of (streams m') sid = Some (?d\<lparr>ss_buffer := ss_buffer ?d - of_nat (length ps)\<rparr>) \<and>
    tasks sh' = tasks ?sh @ map (\<lambda>p. \<lparr>wt_this = socket_id ?m, wt_packet = p\<rparr>) ps"
    using Cons.prems by (intro Cons.IH) simp_all
  with s show ?case by (auto simp: diff_diff_eq)
qed

end
