(* ===== verification/ManagerProps.thy ===== *)
theory ManagerProps
  imports Manager
begin

text \<open>
  The behaviour of one connection, stated over the packets a client sends and the frames it
  gets back: the lemmas reduce \<open>receive\<close> on a complete frame to the handlers of theory
  Manager, the properties follow from the specifications proved there.
\<close>

section \<open>Receiving a complete frame\<close>

definition noted :: "manager \<Rightarrow> manager" where
  "noted m = (if \<not> received_info m \<and> info_valid m then m\<lparr>info_valid := False\<rparr> else m)"

lemma noted_simps [simp]:
  "streams (noted m) = streams m" "has_backpressure (noted m) = has_backpressure m"
  "socket_id (noted m) = socket_id m" "sent (noted m) = sent m"
  by (simp_all add: noted_def)

definition packet_of :: "u8 \<Rightarrow> u32 \<Rightarrow> buffer \<Rightarrow> wisp_packet" where
  "packet_of t sid payload =
     \<lparr>packet_type = t, stream_id = sid, data = payload, data_len = of_nat (length payload)\<rparr>"

lemma packet_of_simps [simp]:
  "packet_type (packet_of t sid d) = t" "stream_id (packet_of t sid d) = sid"
  "data (packet_of t sid d) = d" "data_len (packet_of t sid d) = of_nat (length d)"
  by (simp_all add: packet_of_def)

text \<open>The message \<open>frame t sid payload\<close> at the head of a receive buffer.\<close>

definition receive_frame ::
  "net \<Rightarrow> u32 \<Rightarrow> u8 \<Rightarrow> u32 \<Rightarrow> buffer \<Rightarrow> buffer \<Rightarrow> manager \<times> shared \<Rightarrow> (manager \<times> shared) result" where
  "receive_frame net now t sid payload rest =
     receive net now (frame t sid payload @ rest) (of_nat (5 + length payload))"

lemma receive_frame_parsed:
  assumes "5 + length payload < 2 ^ 63"
  shows "receive_frame net now t sid payload rest (m, sh) =
    (if t = PACKET_INFO then Inr (m, sh)
     else if t = PACKET_CONNECT then
       ebind (handle_connect net now (packet_of t sid payload) (noted m, sh)) (\<lambda>(ret, m, sh).
         if ret = None then ebind (send_close 0x41 sid m) (\<lambda>m. Inr (m, sh)) else Inr (m, sh))
     else if t = PACKET_DATA then data_step (packet_of t sid payload) (noted m, sh)
     else Inr (noted m, sh))"
proof -
  have "WispPacket (frame t sid payload @ rest) (of_nat (5 + length payload)) =
      Inr (packet_of t sid payload)"
    unfolding packet_of_def using assms by (rule WispPacket_frame)
  then show ?thesis
    unfolding receive_frame_def receive_def by (simp add: noted_def data_step_def Let_def cong: if_cong)
qed

lemma connect_payload_packet:
  "3 < length bs \<Longrightarrow> length bs < 2 ^ 62 \<Longrightarrow> connect_payload (packet_of t sid (map Some bs)) bs"
  by (simp add: connect_payload_def unat_of_nat)

section \<open>Examples\<close>

text \<open>A client connected as websocket 0, with one TCP stream 7 on descriptor 6.\<close>

definition example_shared :: shared where
  "example_shared =
     \<lparr>os_state = \<lparr>open_fds = [6, 5, 4, 3], interest = [6, 4], pipes = (4, 5), pipe_bytes = 0, trace = []\<rparr>,
      send_queue_len = 0, tasks = [], conf = example_conf, pcap_build = False, pcap_iter = 0,
      finished_captures = []\<rparr>"

definition example_stream :: stream_data where
  "example_stream = fresh_stream 1 7 6 \<lparr>ai_addr = ''1.2.3.4''\<rparr>"

definition example_manager :: manager where
  "example_manager =
     \<lparr>streams = [(7, example_stream)], has_backpressure = False, socket_id = 0,
      received_info = False, info_valid = True, sent = []\<rparr>"

lemma example_not_capturing [simp]: "\<not> capturing example_shared"
  by (simp add: capturing_def example_shared_def)

lemma example_lookup [simp]: "map_of (streams example_manager) 7 = Some example_stream"
  by (simp add: example_manager_def)

lemma example_keys [simp]: "keys_ok (streams example_manager)"
  by (simp add: example_manager_def keys_ok_def)

section \<open>Properties\<close>

text \<open>
  Each send operation puts exactly one message on the websocket, and a peer that parses it
  reads the packet type, the stream id and the payload that were meant: the reason of a
  CLOSE, the little-endian credit of a CONTINUE, the bytes of a DATA packet.
\<close>
theorem send_frames:
  assumes "\<not> capturing sh" and "unat n = length d" and "5 + length d < 2 ^ 63"
  shows "send_close reason sid m = Inr (emit (close_frame reason sid) m) \<and>
    send_continue credit sid m = Inr (emit (continue_frame credit sid) m) \<and>
    send_data sh sid d n m = Inr (emit (data_frame sid d) m) \<and>
    WispPacket (close_frame reason sid @ rest) 6 = Inr (packet_of PACKET_CLOSE sid [Some reason]) \<and>
    WispPacket (continue_frame credit sid @ rest) 9 =
      Inr (packet_of PACKET_CONTINUE sid (map Some (u32_bytes credit))) \<and>
    WispPacket (data_frame sid d @ rest) (of_nat (5 + length d)) = Inr (packet_of PACKET_DATA sid d)"
proof -
  have parse: "WispPacket (frame t sid p @ rest) (of_nat (5 + length p)) = Inr (packet_of t sid p)"
    if "5 + length p < 2 ^ 63" for t p
    unfolding packet_of_def using that by (rule WispPacket_frame)
  show ?thesis
    using parse [of "[Some reason]" PACKET_CLOSE] parse [of "map Some (u32_bytes credit)" PACKET_CONTINUE]
      parse [OF assms(3), of PACKET_DATA] send_data_frame [OF assms]
    by (simp add: send_close_frame send_continue_frame)
qed

theorem send_frames_witness:
  "send_data example_shared 7 [Some 1, Some 2] 2 example_manager =
     Inr (emit (data_frame 7 [Some 1, Some 2]) example_manager)"
  by (rule send_frames [where credit = 0 and reason = 0 and rest = "[]", THEN conjunct2, THEN conjunct2,
      THEN conjunct1]) simp_all

text \<open>
  C11: A CONNECT packet with a hostname ends in one of two ways. If the policy lets the target
  through and the connection is made, the stream is entered in the table with the full
  credit under the client's stream id, its descriptor is watched, the watcher is woken and
  nothing is sent; in every other case the client is told with a CLOSE of reason 0x41 and
  the table is left as it was.
\<close>
theorem receive_connect:
  assumes "3 < length bs" and "length bs < 2 ^ 62" and "config_ok (conf sh)" and "\<not> capturing sh"
    and "connection_of (conf sh) net (connect_host bs) (bs ! 0) (connect_port bs) (os_state sh) = (r, os1)"
  shows "receive_frame net now PACKET_CONNECT sid (map Some bs) rest (m, sh) = Inr
    (case r of
       None \<Rightarrow> (emit (close_frame 0x41 sid) (noted m), sh\<lparr>os_state := os1\<rparr>)
     | Some (fd, ai) \<Rightarrow>
         ((noted m)\<lparr>streams := AList.update sid (fresh_stream (bs ! 0) sid fd ai) (streams m)\<rparr>,
          sh\<lparr>os_state := wake (push_fd fd os1)\<rparr>))"
proof -
  have l: "5 + length (map Some bs) < 2 ^ 63" using assms(2) by simp
  note p = connect_payload_packet [OF assms(1,2), of PACKET_CONNECT sid]
  show ?thesis
    unfolding receive_frame_parsed [OF l]
    using handle_connect_open [OF p assms(3,5)] assms(4)
    by (simp add: packet_types send_close_frame Let_def split: option.split)
qed

definition connect_bytes :: "u8 list" where
  "connect_bytes = [1, 80, 0, 10, 11]"

theorem receive_connect_witness:
  "\<exists>r os1. receive_frame quiet_net 0 PACKET_CONNECT 9 (map Some connect_bytes) []
       (example_manager, example_shared) = Inr
    (case r of
       None \<Rightarrow> (emit (close_frame 0x41 9) (noted example_manager), example_shared\<lparr>os_state := os1\<rparr>)
     | Some (fd, ai) \<Rightarrow>
         ((noted example_manager)\<lparr>streams := AList.update 9 (fresh_stream (connect_bytes ! 0) 9 fd ai)
            (streams example_manager)\<rparr>,
          example_shared\<lparr>os_state := wake (push_fd fd os1)\<rparr>))"
proof -
  obtain r os1 where c: "connection_of (conf example_shared) quiet_net (connect_host connect_bytes)
      (connect_bytes ! 0) (connect_port connect_bytes) (os_state example_shared) = (r, os1)"
    by fastforce
  have "config_ok (conf example_shared)"
    by (simp add: example_shared_def example_conf_def config_ok_def)
  then show ?thesis
    using receive_connect [OF _ _ _ _ c] by (auto simp: connect_bytes_def)
qed

text \<open>
  INFO packets, CONTINUE packets, CLOSE packets and packets of an unknown type change no
  stream, send nothing and make no system call: the only trace they can leave is the
  \<open>info_valid\<close> flag. In particular the server does not act on a client's CLOSE.
\<close>
theorem receive_ignored:
  assumes "5 + length d < 2 ^ 63" and "t \<noteq> PACKET_CONNECT" and "t \<noteq> PACKET_DATA"
  shows "receive_frame net now t sid d rest (m, sh) =
    Inr (if t = PACKET_INFO then m else noted m, sh) \<and>
    streams (noted m) = streams m \<and> sent (noted m) = sent m"
  using assms by (simp add: receive_frame_parsed)

theorem receive_ignored_witness:
  "receive_frame quiet_net 0 PACKET_CLOSE 7 [Some 2] [] (example_manager, example_shared) =
     Inr (noted example_manager, example_shared)"
  using receive_ignored [of "[Some 2]" PACKET_CLOSE quiet_net 0 7 "[]" example_manager example_shared]
  by (simp add: packet_types)

text \<open>
  C9: A DATA packet for a stream that does not exist is dropped. For an existing stream its
  payload is queued as one write task, behind those already queued; a UDP stream spends no
  credit; a TCP stream spends one, and when that was the last one, the client holds
  backpressure and the deferred queue is short, the credit is restored and announced with a
  CONTINUE.
\<close>
theorem receive_data:
  assumes "5 + length d < 2 ^ 63"
  shows "receive_frame net now PACKET_DATA sid d rest (m, sh) = Inr
    (case map_of (streams m) sid of
       None \<Rightarrow> (noted m, sh)
     | Some s \<Rightarrow>
         let sh' = sh\<lparr>tasks := tasks sh @
               [\<lparr>wt_this = socket_id m, wt_packet = packet_of PACKET_DATA sid d\<rparr>]\<rparr>;
             credit = (\<lambda>c. (noted m)\<lparr>streams := AList.update sid (s\<lparr>ss_buffer := c\<rparr>) (streams m)\<rparr>)
         in if ss_stream_type s = 2 then (noted m, sh')
            else if ss_buffer s = 1 \<and> has_backpressure m \<and> send_queue_len sh < 1000
            then (emit (continue_frame 127 sid) (credit 127), sh')
            else (credit (ss_buffer s - 1), sh'))"
  using assms
  by (auto simp: receive_frame_parsed packet_types data_step_def handle_data_def Let_def MAX_QUEUE_def
      BUFFER_COUNT_def send_continue_frame split: option.split)

theorem receive_data_witness:
  "receive_frame quiet_net 0 PACKET_DATA 8 [Some 5] [] (example_manager, example_shared) =
     Inr (noted example_manager, example_shared)"
  by (subst receive_data) (simp_all add: example_manager_def)

text \<open>
  Credit accounting without backpressure, for a run of DATA packets of one TCP stream: the
  tasks are queued in the order of the packets, the credit falls by one per packet, modulo
  2^32, and no CONTINUE is sent, not even when the credit reaches zero. A client that stops
  at zero credit, as the protocol asks, hence stays stopped as far as its own packets go.
\<close>
theorem credit_run:
  assumes "map_of (streams m) sid = Some d" and "ss_stream_type d \<noteq> 2" and "\<not> has_backpressure m"
    and "list_all (\<lambda>p. stream_id p = sid) ps"
  shows "\<exists>m' sh'. efold data_step ps (m, sh) = Inr (m', sh') \<and> sent m' = sent m \<and>
    map_of (streams m') sid = Some (d\<lparr>ss_buffer := ss_buffer d - of_nat (length ps)\<rparr>) \<and>
    tasks sh' = tasks sh @ map (\<lambda>p. \<lparr>wt_this = socket_id m, wt_packet = p\<rparr>) ps"
  using assms by (rule data_steps_no_backpressure)

theorem credit_run_witness:
  "\<exists>m' sh'. efold data_step (replicate 128 (packet_of PACKET_DATA 7 [Some 1])) (example_manager, example_shared)
      = Inr (m', sh') \<and> sent m' = [] \<and>
    map_of (streams m') 7 = Some (example_stream\<lparr>ss_buffer := 2 ^ 32 - 1\<rparr>)"
proof -
  have l: "list_all (\<lambda>p. stream_id p = 7) (replicate 128 (packet_of PACKET_DATA 7 [Some 1]))"
    by (simp add: list_all_length)
  have "ss_stream_type example_stream \<noteq> 2" and "\<not> has_backpressure example_manager"
    and "sent example_manager = []" and "ss_buffer example_stream = 127"
    by (simp_all add: example_stream_def fresh_stream_def example_manager_def BUFFER_COUNT_def)
  then show ?thesis
    using credit_run [OF example_lookup _ _ l, of example_shared] by fastforce
qed

text \<open>
  \<open>update_streams\<close> restores the credit of exactly the streams that have none left, and
  announces it to the client, one CONTINUE per such stream; under backpressure, or while
  the deferred queue is long, it does nothing. Other streams keep their state.
\<close>
theorem update_streams_refreshes:
  assumes "keys_ok (streams m)"
  shows "\<exists>m'. update_streams sh m = Inr m' \<and>
    (if has_backpressure m \<or> 1000 < send_queue_len sh then m' = m
     else (\<forall>k. map_of (streams m') k = map_option (\<lambda>d.
             if ss_buffer d = 0 then d\<lparr>ss_buffer := 127\<rparr> else d) (map_of (streams m) k)) \<and>
       sent m' = sent m @ map (continue_frame 127)
         (map fst (filter (\<lambda>(k, d). ss_buffer d = 0) (streams m))))"
  unfolding update_streams_spec [OF assms] MAX_QUEUE_def refreshed_def refresh_frames_def BUFFER_COUNT_def
  by (simp add: map_of_map_values comp_def case_prod_beta)

theorem update_streams_refreshes_witness:
  "\<exists>m'. update_streams example_shared
      (example_manager\<lparr>streams := [(7, example_stream\<lparr>ss_buffer := 0\<rparr>)]\<rparr>) = Inr m' \<and>
    sent m' = [continue_frame 127 7]"
proof -
  have "keys_ok (streams (example_manager\<lparr>streams := [(7, example_stream\<lparr>ss_buffer := 0\<rparr>)]\<rparr>))"
    by (simp add: keys_ok_def)
  then show ?thesis
    using update_streams_refreshes [of _ example_shared]
    by (force simp: example_manager_def example_shared_def)
qed

text \<open>
  Closing a stream tells the client (CLOSE, reason 2), removes the stream and no other,
  closes its descriptor and no other, and leaves the descriptor neither open nor watched.
\<close>
theorem close_stream_releases:
  assumes "map_of (streams m) sid = Some d" and "\<not> capturing sh"
  shows "\<exists>m' sh'. close_stream sid remove_poll (m, sh) = Inr (m', sh') \<and>
    sent m' = sent m @ [close_frame 2 sid] \<and>
    map_of (streams m') = (map_of (streams m))(sid := None) \<and>
    set (open_fds (os_state sh')) = set (open_fds (os_state sh)) - {ss_fd d} \<and>
    set (interest (os_state sh')) = set (interest (os_state sh)) - {ss_fd d}"
  using assms by (simp add: close_stream_found AList.delete_conv' os_defs)

theorem close_stream_releases_witness:
  "\<exists>m' sh'. close_stream 7 True (example_manager, example_shared) = Inr (m', sh') \<and>
    map_of (streams m') 7 = None"
  using close_stream_releases [OF example_lookup example_not_capturing, of True] by force

text \<open>
  \<open>force_close\<close> closes every stream of the connection: afterwards the table is empty, the
  process holds exactly the descriptors that belonged to no stream of it, none of the closed
  ones is watched, and the client got one CLOSE per stream.
\<close>
theorem force_close_releases:
  assumes "keys_ok (streams m)" and "\<not> capturing sh"
  shows "\<exists>m' sh'. force_close (m, sh) = Inr (m', sh') \<and> streams m' = [] \<and>
    \<not> has_backpressure m' \<and>
    sent m' = sent m @ map (close_frame 2) (map fst (streams m)) \<and>
    (let closed = {ss_fd d | k d. map_of (streams m) k = Some d}
     in set (open_fds (os_state sh')) = set (open_fds (os_state sh)) - closed \<and>
        set (interest (os_state sh')) = set (interest (os_state sh)) - closed)"
proof -
  have c: "{ss_fd d | k d. map_of (streams m) k = Some d} = (ss_fd \<circ> snd) ` set (streams m)"
    using tab.entries_lookup [OF assms(1)] by force
  obtain fin where "force_close (m, sh) =
    Inr (m\<lparr>streams := [], has_backpressure := False,
            sent := sent m @ map (\<lambda>(k, d). close_frame 2 k) (streams m)\<rparr>,
         sh\<lparr>os_state := fold (\<lambda>(k, d). sys_close (ss_fd d)) (streams m) (os_state sh),
            finished_captures := fin\<rparr>)"
    using force_close_spec [OF assms(1)] assms(2) by blast
  then show ?thesis
    by (auto simp: c fold_sys_close Let_def case_prod_beta comp_def)
qed

theorem force_close_releases_witness:
  "\<exists>m' sh'. force_close (example_manager, example_shared) = Inr (m', sh') \<and> streams m' = []"
  using force_close_releases [OF example_keys example_not_capturing] by blast

text \<open>
  C34: A CONNECT that reuses the id of a live stream replaces the table entry but closes nothing:
  the old descriptor stays open and watched, and no stream of the connection refers to it
  any more, so no later close of this connection releases it.
\<close>
theorem reconnect_leaks:
  assumes "3 < length bs" and "length bs < 2 ^ 62" and "config_ok (conf sh)" and "\<not> capturing sh"
    and "connection_of (conf sh) net (connect_host bs) (bs ! 0) (connect_port bs) (os_state sh) =
      (Some (fd, ai), os1)"
    and "fresh_socket net" and "fields_unique ss_fd (streams m)"
    and "map_of (streams m) sid = Some old" and "ss_fd old \<in> set (open_fds (os_state sh))"
    and "ss_fd old \<in> set (interest (os_state sh))"
  shows "\<exists>m' sh'. receive_frame net now PACKET_CONNECT sid (map Some bs) rest (m, sh) = Inr (m', sh') \<and>
    ss_fd old \<in> set (open_fds (os_state sh')) \<and> ss_fd old \<in> set (interest (os_state sh')) \<and>
    (\<forall>k d. map_of (streams m') k = Some d \<longrightarrow> ss_fd d \<noteq> ss_fd old)"
proof -
  obtain ty where a: "attempt net (connect_host bs) ty (connect_port bs) (os_state sh) = (Some (fd, ai), os1)"
    using connection_of_Some [OF assms(5)] by blast
  note s = attempt_Some [OF assms(6) a]
  have l: "5 + length (map Some bs) < 2 ^ 63" using assms(2) by simp
  note p = connect_payload_packet [OF assms(1,2), of PACKET_CONNECT sid]
  let ?m = "(noted m)\<lparr>streams := AList.update sid (fresh_stream (bs ! 0) sid fd ai) (streams m)\<rparr>"
  let ?sh = "sh\<lparr>os_state := wake (push_fd fd os1)\<rparr>"
  have "receive_frame net now PACKET_CONNECT sid (map Some bs) rest (m, sh) = Inr (?m, ?sh)"
    unfolding receive_frame_parsed [OF l]
    using handle_connect_open [OF p assms(3,5)] assms(4) by (simp add: packet_types Let_def)
  moreover have "ss_fd old \<in> set (open_fds (os_state ?sh))" "ss_fd old \<in> set (interest (os_state ?sh))"
    using s assms(9,10) by (auto simp: os_defs)
  moreover have "\<forall>k d. map_of (streams ?m) k = Some d \<longrightarrow> ss_fd d \<noteq> ss_fd old"
    using s assms(9) ktab.uniqueD [OF assms(7) _ assms(8)]
    by (fastforce simp: tab.lookup_assign fresh_stream_def split: if_splits)
  ultimately show ?thesis by blast
qed

theorem reconnect_leaks_witness:
  "\<exists>m' sh'. receive_frame quiet_net 0 PACKET_CONNECT 7 (map Some connect_bytes) []
      (example_manager, example_shared) = Inr (m', sh') \<and>
    6 \<in> set (open_fds (os_state sh')) \<and> (\<forall>k d. map_of (streams m') k = Some d \<longrightarrow> ss_fd d \<noteq> 6)"
proof -
  have ok: "config_ok (conf example_shared)"
    by (simp add: example_shared_def example_conf_def config_ok_def)
  have "\<exists>fd ai os1. connection_of (conf example_shared) quiet_net (connect_host connect_bytes)
      (connect_bytes ! 0) (connect_port connect_bytes) (os_state example_shared) = (Some (fd, ai), os1)"
    by (simp add: connection_of_def sock_type_of_def connect_bytes_def example_shared_def blocked_def
        example_conf_def hostnames_def ports_def connect_host_def connect_port_def chars_def attempt_def
        resolve_def quiet_net_def os_defs)
  then obtain fd ai os1 where c: "connection_of (conf example_shared) quiet_net
      (connect_host connect_bytes) (connect_bytes ! 0) (connect_port connect_bytes)
      (os_state example_shared) = (Some (fd, ai), os1)" by blast
  have fd6: "ss_fd example_stream = 6" by (simp add: example_stream_def fresh_stream_def)
  have u: "fields_unique ss_fd (streams example_manager)"
    by (auto simp: fields_unique_def example_manager_def split: if_splits)
  have o: "ss_fd example_stream \<in> set (open_fds (os_state example_shared))"
    "ss_fd example_stream \<in> set (interest (os_state example_shared))"
    by (simp_all add: fd6 example_shared_def)
  have "3 < length connect_bytes" "length connect_bytes < 2 ^ 62" by (simp_all add: connect_bytes_def)
  from reconnect_leaks [OF this ok example_not_capturing c fresh_quiet_net u example_lookup o, of 0 "[]"]
  show ?thesis unfolding fd6 by blast
qed

text \<open>The loop of a write task.\<close>

lemma run_task_again:
  assumes "map_of (streams m) (stream_id p) = Some d" and "\<not> capturing sh"
  shows "run_task (replicate k Write_again @ as) p (m, sh) = run_task as p (m, sh)"
  using assms by (induction k) (simp_all add: task_round_def)

text \<open>
  C30: A write task whose stream exists retries as long as the socket answers \<open>EAGAIN\<close> and ends
  with the first other answer. It writes at most once: if the socket takes \<open>n\<close> bytes, exactly
  the first \<open>n\<close> bytes of the payload reach it and the task ends, also when \<open>n\<close> is less than
  the payload's length; if \<open>poll\<close> or \<open>write\<close> fails the payload is dropped.
\<close>
theorem run_task_outcome:
  assumes "map_of (streams m) (stream_id p) = Some d" and "\<not> capturing sh"
    and "unat (data_len p) = length (data p)" and "a \<noteq> Write_again"
  shows "run_task (replicate k Write_again @ a # rest) p (m, sh) = Inr (Some (m,
    case a of
      Write_took n \<Rightarrow> sh\<lparr>os_state := sys (Sys_write (ss_fd d) (take n (data p))) (os_state sh)\<rparr>
    | _ \<Rightarrow> sh))"
  using assms
  by (cases a) (simp_all add: run_task_again task_round_def)

theorem run_task_outcome_witness:
  "run_task [Write_again, Write_again, Write_took 1] (packet_of PACKET_DATA 7 [Some 1, Some 2])
     (example_manager, example_shared) = Inr (Some (example_manager,
       example_shared\<lparr>os_state := sys (Sys_write 6 [Some 1]) (os_state example_shared)\<rparr>))"
proof -
  have eq: "[Write_again, Write_again, Write_took 1] = replicate 2 Write_again @ Write_took 1 # []"
    by (simp add: numeral_2_eq_2)
  show ?thesis
    unfolding eq by (subst run_task_outcome [of _ _ example_stream])
      (simp_all add: example_stream_def fresh_stream_def)
qed

end
