(* ===== verification/World.thy ===== *)
theory World
  imports Manager
begin

text \<open>
  The server as a whole (src/src/server.cpp, src/src/websocketManager.cpp): the websocket
  callbacks of the event loop, the watcher thread that reads the target sockets, the
  deferred deliveries it hands to the event loop, and the pool that executes write tasks.

  A step is one event, with the choices of the environment (bytes read, write results, send
  statuses) as its arguments, so \<open>step\<close> is an executable function and a run is a list of
  events. Events interleave freely; each is atomic, because the code runs it under
  \<open>stream_lock\<close>, \<open>watched_sockets_lock\<close> or on the single event-loop thread. A write task
  is two events, its removal from the queue by a worker and its execution, so tasks that
  several workers hold at once may execute in any order.
\<close>

section \<open>State\<close>

record deferred =
  df_buffer :: buffer
  df_to_close :: bool
  df_fd :: int

text \<open>
  \<open>watched\<close> is \<open>SystemWatcher::watched_sockets\<close>: a manager is entered by its constructor
  and removed by its destructor. \<open>ready\<close> is the part of the watcher's \<open>events\<close> array that
  it has not looked at yet. \<open>executed\<close> records the write tasks that have run.
\<close>

record world =
  watched :: "(size_t \<times> manager) list"
  common :: shared
  ready :: "int list"
  deferreds :: "deferred list"
  running :: "write_task list"
  executed :: "write_task list"
  next_id :: size_t
  workers :: nat

section \<open>The watcher thread\<close>

datatype read_answer = Read_bytes "u8 list" | Read_eof | Read_again | Read_error

text \<open>
  The read loop on one descriptor: the bytes read so far, and whether the stream is to be
  closed. \<open>None\<close> means that the answers ran out inside the loop. That one
  \<open>read\<close> returns at most \<open>SEGMENT_SIZE\<close> bytes is a hypothesis of the properties. The descriptors come from the \<open>events\<close>
  array that the last \<open>epoll.wait\<close> has filled; a stream may be closed between the two, and
  then the read answers with an error.
\<close>

fun read_loop :: "read_answer list \<Rightarrow> buffer \<Rightarrow> (buffer \<times> bool) option" where
  "read_loop [] combined = None"
| "read_loop (Read_eof # as) combined = Some (combined, True)"
| "read_loop (Read_again # as) combined = Some (combined, False)"
| "read_loop (Read_error # as) combined = Some (combined, True)"
| "read_loop (Read_bytes bs # as) combined =
     (if bs = [] then Some (combined, True)
      else let combined = combined @ map Some bs
           in if MAX_WS_FRAME < of_nat (length combined) then Some (combined, False)
              else read_loop as combined)"

definition watch_event :: "int \<Rightarrow> read_answer list \<Rightarrow> world \<Rightarrow> world" where
  "watch_event fd as w =
     (let sh = common w in
      if fd = fst (pipes (os_state sh)) then w\<lparr>common := sh\<lparr>os_state := drain_pipe (os_state sh)\<rparr>\<rparr>
      else (case read_loop as [] of
          None \<Rightarrow> w
        | Some (combined, to_close) \<Rightarrow>
            let os1 = (if to_close then snd (erase_fd fd (os_state sh)) else os_state sh)
            in w\<lparr>common := sh\<lparr>os_state := os1, send_queue_len := send_queue_len sh + 1\<rparr>,
                 deferreds := deferreds w @
                   [\<lparr>df_buffer = combined, df_to_close = to_close, df_fd = fd\<rparr>]\<rparr>))"

section \<open>The deferred delivery\<close>

text \<open>
  The status of a message is the choice of uWebSockets: a message in backpressure has been taken
  and waits in the socket; one that is reported as dropped is gone, and the code goes on as
  if nothing had happened.
\<close>

type_synonym statuses = "size_t \<Rightarrow> u32 \<Rightarrow> send_status"

definition forward_stream ::
  "shared \<Rightarrow> statuses \<Rightarrow> size_t \<Rightarrow> deferred \<Rightarrow> u32 \<Rightarrow> manager \<times> (size_t \<times> u32) option \<Rightarrow>
   (manager \<times> (size_t \<times> u32) option) result" where
  "forward_stream sh status wid df k mf =
     (case mf of (m, found) \<Rightarrow>
        (case map_of (streams m) k of
           None \<Rightarrow> Inr (m, found)
         | Some d \<Rightarrow>
             if ss_fd d = df_fd df then
               ebind (send_data sh k (df_buffer df) (of_nat (length (df_buffer df))) m) (\<lambda>m'.
                 Inr (case status wid k of
                        BACKPRESSURE \<Rightarrow> m'\<lparr>has_backpressure := True\<rparr>
                      | SUCCESS \<Rightarrow> m'
                      | DROPPED \<Rightarrow> m'\<lparr>sent := sent m\<rparr>,
                      Some (wid, k)))
             else Inr (m, found)))"

definition forward_manager ::
  "statuses \<Rightarrow> deferred \<Rightarrow> size_t \<Rightarrow> world \<times> (size_t \<times> u32) option \<Rightarrow>
   (world \<times> (size_t \<times> u32) option) result" where
  "forward_manager status df wid wfd =
     (case wfd of (w, found) \<Rightarrow>
        (case map_of (watched w) wid of
           None \<Rightarrow> Inr (w, found)
         | Some m \<Rightarrow>
             ebind (efold (forward_stream (common w) status wid df) (map fst (streams m)) (m, found))
               (\<lambda>(m', found'). Inr (w\<lparr>watched := AList.update wid m' (watched w)\<rparr>, found'))))"

text \<open>An operation on one manager; \<open>None\<close> in the table means that the socket is gone.\<close>

definition on_manager ::
  "size_t \<Rightarrow> (manager \<times> shared \<Rightarrow> (manager \<times> shared) result) \<Rightarrow> world \<Rightarrow> world result" where
  "on_manager wid f w =
     (case map_of (watched w) wid of
        None \<Rightarrow> Inr w
      | Some m \<Rightarrow> ebind (f (m, common w)) (\<lambda>(m', sh').
          Inr (w\<lparr>watched := AList.update wid m' (watched w), common := sh'\<rparr>)))"

definition refresh_manager :: "size_t \<Rightarrow> world \<Rightarrow> world result" where
  "refresh_manager wid =
     on_manager wid (\<lambda>(m, sh). ebind (update_streams sh m) (\<lambda>m'. Inr (m', sh)))"

definition deliver :: "statuses \<Rightarrow> deferred \<Rightarrow> world \<Rightarrow> world result" where
  "deliver status df w =
     ebind (efold (forward_manager status df) (map fst (watched w)) (w, None)) (\<lambda>(w, found).
     ebind (case found of
              Some (wid, k) \<Rightarrow> if df_to_close df then on_manager wid (close_stream k False) w else Inr w
            | None \<Rightarrow> Inr w) (\<lambda>w.
       let w = w\<lparr>common := (common w)\<lparr>send_queue_len := send_queue_len (common w) - 1\<rparr>\<rparr>
       in if send_queue_len (common w) < MAX_QUEUE
          then efold refresh_manager (map fst (watched w)) w
          else Inr w))"

section \<open>Events\<close>

datatype event =
    Open
  | Message size_t u32 buffer size_t
  | Drain size_t
  | Close size_t
  | Wait "int list"
  | Watch "read_answer list"
  | Deliver statuses
  | Dequeue
  | Run nat "write_answer list"

definition open_socket :: "world \<Rightarrow> world result" where
  "open_socket w =
     ebind (WebSocketManager (next_id w)) (\<lambda>m.
       Inr (w\<lparr>watched := AList.update (next_id w) m (watched w), next_id := next_id w + 1\<rparr>))"

definition drain_socket :: "size_t \<Rightarrow> world \<Rightarrow> world result" where
  "drain_socket wid =
     on_manager wid (\<lambda>(m, sh).
       ebind (update_streams sh (m\<lparr>has_backpressure := False\<rparr>)) (\<lambda>m'.
         Inr (m', sh\<lparr>os_state := wake (os_state sh)\<rparr>)))"

text \<open>The destructor takes the manager out of the watcher's table.\<close>

definition WebSocketManager_destroy :: "size_t \<Rightarrow> world \<Rightarrow> world" where
  "WebSocketManager_destroy wid w = w\<lparr>watched := AList.delete wid (watched w)\<rparr>"

declare WebSocketManager_destroy_def [simp]

text \<open>The \<open>close\<close> callback: \<open>force_close\<close>, then the manager is deleted.\<close>

definition close_socket :: "size_t \<Rightarrow> world \<Rightarrow> world result" where
  "close_socket wid w =
     ebind (on_manager wid force_close w) (\<lambda>w.
       Inr (WebSocketManager_destroy wid w))"

text \<open>A worker takes the oldest task.\<close>

definition dequeue :: "world \<Rightarrow> world" where
  "dequeue w =
     (case tasks (common w) of
        [] \<Rightarrow> w
      | t # ts \<Rightarrow>
          if length (running w) < workers w
          then w\<lparr>common := (common w)\<lparr>tasks := ts\<rparr>, running := running w @ [t]\<rparr>
          else w)"

text \<open>
  A worker executes its task. The captured manager pointer is used without any check that
  the manager still exists. The rounds of the loop are one event, with all their answers: a
  task whose answers have not come to an end leaves the state as it was. The rounds before
  the last do nothing but \<open>poll\<close>, a \<open>write\<close> that takes nothing, and, in builds that capture, a
  write to the capture, which the model therefore makes with the last one (before the \<open>poll\<close> of
  its round in the code).
\<close>

definition run_running :: "nat \<Rightarrow> write_answer list \<Rightarrow> world \<Rightarrow> world result" where
  "run_running i as w =
     (if i < length (running w) then
        let t = running w ! i
        in case map_of (watched w) (wt_this t) of
             None \<Rightarrow> Inl Use_after_free
           | Some m \<Rightarrow>
               ebind (run_task as (wt_packet t) (m, common w)) (\<lambda>r.
                 case r of
                   None \<Rightarrow> Inr w
                 | Some (m', sh') \<Rightarrow>
                     Inr (w\<lparr>watched := AList.update (wt_this t) m' (watched w), common := sh',
                            running := take i (running w) @ drop (Suc i) (running w),
                            executed := executed w @ [t]\<rparr>))
      else Inr w)"

fun step :: "net \<Rightarrow> event \<Rightarrow> world \<Rightarrow> world result" where
  "step net Open w = open_socket w"
| "step net (Message wid now rcv n) w = on_manager wid (receive net now rcv n) w"
| "step net (Drain wid) w = drain_socket wid w"
| "step net (Close wid) w = close_socket wid w"
| "step net (Wait fds) w =
     (if ready w = [] then Inr (w\<lparr>ready := wait_events (\<lambda>fd. fd \<in> set fds) (os_state (common w))\<rparr>)
      else Inr w)"
| "step net (Watch as) w =
     (case ready w of
        [] \<Rightarrow> Inr w
      | fd # fds \<Rightarrow> Inr (watch_event fd as (w\<lparr>ready := fds\<rparr>)))"
| "step net (Deliver status) w =
     (case deferreds w of
        [] \<Rightarrow> Inr w
      | df # dfs \<Rightarrow> deliver status df (w\<lparr>deferreds := dfs\<rparr>))"
| "step net Dequeue w = Inr (dequeue w)"
| "step net (Run i as) w = run_running i as w"

definition run_events :: "net \<Rightarrow> event list \<Rightarrow> world \<Rightarrow> world result" where
  "run_events net = efold (step net)"

text \<open>The server before its first connection.\<close>

definition initial_world :: "config \<Rightarrow> bool \<Rightarrow> nat \<Rightarrow> os \<Rightarrow> world" where
  "initial_world c pcap n s =
     \<lparr>watched = [],
      common = \<lparr>os_state = s, send_queue_len = 0, tasks = [], conf = c, pcap_build = pcap,
                pcap_iter = 0, finished_captures = []\<rparr>,
      ready = [], deferreds = [], running = [], executed = [], next_id = 0, workers = n\<rparr>"

end
