(* ===== verification/WorkQueue.thy ===== *)
theory WorkQueue
  imports Prelude "HOL-Library.Multiset"
begin

text \<open>
  The abstract work queue that the thread pool provides and the server relies on: a FIFO of
  waiting tasks and the multiset of the tasks in execution. Its runs carry their labels: the
  commands of the clients (\<open>Enqueue\<close>, \<open>Clear\<close>) and the steps of the workers (\<open>Take\<close>,
  \<open>Finish\<close>). Theory PoolProps shows that the thread pool implements it, theory WorldInv that
  the tasks of the whole server run through it.
\<close>

datatype 'a work_label = Enqueue 'a | Clear | Take 'a | Finish 'a

type_synonym 'a work = "'a list \<times> 'a multiset"

inductive work_run :: "'a work_label list \<Rightarrow> 'a work \<Rightarrow> 'a work \<Rightarrow> bool" where
  stop: "work_run [] s s"
| enqueue: "work_run ls (q @ [t], r) s \<Longrightarrow> work_run (Enqueue t # ls) (q, r) s"
| clear: "work_run ls ([], r) s \<Longrightarrow> work_run (Clear # ls) (q, r) s"
| take_task: "work_run ls (q, add_mset t r) s \<Longrightarrow> work_run (Take t # ls) (t # q, r) s"
| finish: "work_run ls (q, r) s \<Longrightarrow> work_run (Finish t # ls) (q, add_mset t r) s"

inductive_simps work_run_simps:
  "work_run [] s s'" "work_run (Enqueue t # ls) s s'" "work_run (Clear # ls) s s'"
  "work_run (Take t # ls) s s'" "work_run (Finish t # ls) s s'"

lemma work_run_append: "work_run ls s s1 \<Longrightarrow> work_run ls' s1 s2 \<Longrightarrow> work_run (ls @ ls') s s2"
  by (induction rule: work_run.induct) (auto intro: work_run.intros)

lemma enqueue_many: "work_run (map Enqueue ts) (q, r) (q @ ts, r)"
proof (induction ts arbitrary: q)
  case (Cons t ts)
  from Cons [of "q @ [t]"] show ?case by (simp add: work_run_simps)
qed (simp add: stop)

section \<open>Labels\<close>

fun is_command :: "'a work_label \<Rightarrow> bool" where
  "is_command (Enqueue t) = True"
| "is_command Clear = True"
| "is_command (Take t) = False"
| "is_command (Finish t) = False"

definition commands :: "'a work_label list \<Rightarrow> 'a work_label list" where
  "commands ls = filter is_command ls"

lemma commands_simps [simp]:
  "commands [] = []" "commands (l # ls) = (if is_command l then l # commands ls else commands ls)"
  "commands (ls @ ls') = commands ls @ commands ls'"
  by (simp_all add: commands_def)

lemma commands_enqueue [simp]: "commands (map Enqueue ts) = map Enqueue ts"
  by (induction ts) simp_all

lemma clear_commands: "Clear \<in> set (commands ls) \<longleftrightarrow> Clear \<in> set ls"
  by (simp add: commands_def)

definition enqueued :: "'a work_label list \<Rightarrow> 'a list" where
  "enqueued ls = concat (map (\<lambda>l. case l of Enqueue t \<Rightarrow> [t] | _ \<Rightarrow> []) ls)"

definition taken :: "'a work_label list \<Rightarrow> 'a list" where
  "taken ls = concat (map (\<lambda>l. case l of Take t \<Rightarrow> [t] | _ \<Rightarrow> []) ls)"

definition finished :: "'a work_label list \<Rightarrow> 'a list" where
  "finished ls = concat (map (\<lambda>l. case l of Finish t \<Rightarrow> [t] | _ \<Rightarrow> []) ls)"

lemmas label_lists = enqueued_def taken_def finished_def

lemma enqueued_commands: "enqueued (commands ls) = enqueued ls"
proof (induction ls)
  case (Cons l ls)
  then show ?case by (cases l) (simp_all add: enqueued_def)
qed simp

text \<open>The laws of the queue: without \<open>Clear\<close> it is a FIFO, and what is taken runs or has finished.\<close>

lemma work_run_fifo:
  assumes "work_run ls (q, r) (q', r')" and "Clear \<notin> set ls"
  shows "taken ls @ q' = q @ enqueued ls"
proof -
  have "taken ls @ fst s' = fst s @ enqueued ls" if "work_run ls s s'" "Clear \<notin> set ls" for s s'
    using that by (induction rule: work_run.induct) (simp_all add: label_lists)
  from this [OF assms] show ?thesis by simp
qed

lemma work_run_running:
  assumes "work_run ls (q, r) (q', r')"
  shows "mset (finished ls) + r' = r + mset (taken ls)"
proof -
  have "mset (finished ls) + snd s' = snd s + mset (taken ls)" if "work_run ls s s'" for s s'
    using that by (induction rule: work_run.induct) (simp_all add: label_lists)
  from this [OF assms] show ?thesis by simp
qed

section \<open>Runs without a purge\<close>

definition advances :: "'a work \<Rightarrow> 'a work \<Rightarrow> bool" where
  "advances s s' \<longleftrightarrow> (\<exists>ls. work_run ls s s' \<and> Clear \<notin> set ls)"

lemma advances_refl [simp]: "advances s s"
  by (auto simp: advances_def intro: exI [of _ "[]"] stop)

lemma advances_trans: "advances s s1 \<Longrightarrow> advances s1 s2 \<Longrightarrow> advances s s2"
  unfolding advances_def by (metis Un_iff set_append work_run_append)

lemma advances_enqueue: "advances (q, r) (q @ ts, r)"
  unfolding advances_def using enqueue_many [of ts q r] by fastforce

lemma advances_take: "advances (t # q, r) (q, add_mset t r)"
  by (auto simp: advances_def work_run_simps intro: exI [of _ "[Take t]"])

lemma advances_finish: "advances (q, add_mset t r) (q, r)"
  by (auto simp: advances_def work_run_simps intro: exI [of _ "[Finish t]"])

section \<open>Implementations\<close>

text \<open>
  An implementation: a transition system with labelled steps, an invariant and a view of its
  states as a work queue, such that every step is a run of the abstract queue whose commands
  are permitted by the label.
\<close>

locale work_queue =
  fixes step :: "'e \<Rightarrow> 's \<Rightarrow> 's \<Rightarrow> bool"
    and inv :: "'s \<Rightarrow> bool"
    and view :: "'s \<Rightarrow> 'a work"
    and permitted :: "'e \<Rightarrow> 'a work_label list \<Rightarrow> bool"
  assumes keeps_inv: "step e s t \<Longrightarrow> inv s \<Longrightarrow> inv t"
    and simulates: "step e s t \<Longrightarrow> inv s \<Longrightarrow>
      \<exists>ls. work_run ls (view s) (view t) \<and> permitted e (commands ls)"

text \<open>A run of such a system over a list of its labels.\<close>

inductive run_of :: "('e \<Rightarrow> 's \<Rightarrow> 's \<Rightarrow> bool) \<Rightarrow> 'e list \<Rightarrow> 's \<Rightarrow> 's \<Rightarrow> bool"
  for step :: "'e \<Rightarrow> 's \<Rightarrow> 's \<Rightarrow> bool" where
  run_nil: "run_of step [] s s"
| run_cons: "step e s s1 \<Longrightarrow> run_of step es s1 s2 \<Longrightarrow> run_of step (e # es) s s2"

context work_queue
begin

lemma run_simulates:
  assumes "run_of step es s t" and "inv s"
  shows "inv t \<and> (\<exists>ls css. work_run ls (view s) (view t) \<and> list_all2 permitted es css \<and> commands ls = concat css)"
  using assms
proof (induction rule: run_of.induct)
  case (run_nil s)
  then show ?case by (auto intro!: exI [of _ "[]"] stop)
next
  case (run_cons e s s1 es s2)
  obtain ls where l: "work_run ls (view s) (view s1)" "permitted e (commands ls)"
    using simulates [OF run_cons.hyps(1) run_cons.prems] by blast
  obtain ls' css where r: "inv s2" "work_run ls' (view s1) (view s2)" "list_all2 permitted es css"
    "commands ls' = concat css"
    using run_cons.IH keeps_inv [OF run_cons.hyps(1) run_cons.prems] by blast
  have "work_run (ls @ ls') (view s) (view s2)" using l(1) r(2) by (rule work_run_append)
  moreover have "list_all2 permitted (e # es) (commands ls # css)" using l(2) r(3) by simp
  moreover have "commands (ls @ ls') = concat (commands ls # css)" using r(4) by simp
  ultimately show ?case using r(1) by blast
qed

text \<open>A run that is permitted no \<open>Clear\<close> loses and reorders nothing.\<close>

lemma run_advances:
  assumes "run_of step es s t" and "inv s" and "\<And>e cs. e \<in> set es \<Longrightarrow> permitted e cs \<Longrightarrow> Clear \<notin> set cs"
  shows "advances (view s) (view t)"
proof -
  obtain ls css where r: "work_run ls (view s) (view t)" "list_all2 permitted es css" "commands ls = concat css"
    using run_simulates [OF assms(1,2)] by blast
  have "Clear \<notin> set cs" if c: "cs \<in> set css" for cs
  proof -
    obtain i where i: "i < length css" "cs = css ! i" using c by (auto simp: in_set_conv_nth)
    with r(2) have "permitted (es ! i) cs" "es ! i \<in> set es" by (auto simp: list_all2_conv_all_nth)
    with assms(3) show ?thesis by blast
  qed
  then have "Clear \<notin> set ls" using r(3) clear_commands [of ls] by auto
  with r(1) show ?thesis by (auto simp: advances_def)
qed

end

end
