(* ===== verification/WorldInv.thy ===== *)
theory WorldInv
  imports World WorkQueue
begin

text \<open>
  What every operation on one connection promises to the others: the locale
  \<open>manager_operation\<close>, interpreted on all the operations the event loop, the watcher and
  the pool call, and the invariant of the server that follows from it by rule induction
  over the events.
\<close>

section \<open>Well-formedness\<close>

definition fds :: "manager \<Rightarrow> int set" where
  "fds m = {ss_fd d | k d. map_of (streams m) k = Some d}"

text \<open>The pipe stays open and its read end watched; only open descriptors are watched.\<close>

definition os_ok :: "os \<Rightarrow> bool" where
  "os_ok s \<longleftrightarrow> fst (pipes s) \<in> set (interest s) \<and> snd (pipes s) \<in> set (open_fds s) \<and>
     set (interest s) \<subseteq> set (open_fds s)"

definition stream_ok :: "shared \<Rightarrow> u32 \<Rightarrow> stream_data \<Rightarrow> bool" where
  "stream_ok sh k d \<longleftrightarrow> ss_id d = k \<and> ss_fd d \<in> set (open_fds (os_state sh)) \<and>
     ss_fd d \<noteq> fst (pipes (os_state sh)) \<and> ss_fd d \<noteq> snd (pipes (os_state sh)) \<and>
     (capturing sh \<longrightarrow> ss_pcap d \<noteq> None)"

definition manager_ok :: "shared \<Rightarrow> manager \<Rightarrow> bool" where
  "manager_ok sh m \<longleftrightarrow> keys_ok (streams m) \<and> fields_unique ss_fd (streams m) \<and>
     (\<forall>k d. map_of (streams m) k = Some d \<longrightarrow> stream_ok sh k d)"

lemma manager_okD:
  "manager_ok sh m \<Longrightarrow> map_of (streams m) k = Some d \<Longrightarrow> stream_ok sh k d"
  by (simp add: manager_ok_def)

lemma fds_cong: "map_of (streams m') = map_of (streams m) \<Longrightarrow> fds m' = fds m"
  by (simp add: fds_def)

lemma fds_open: "manager_ok sh m \<Longrightarrow> fds m \<subseteq> set (open_fds (os_state sh))"
  by (auto simp: manager_ok_def stream_ok_def fds_def)

section \<open>The promise of an operation\<close>

text \<open>
  The configuration, the pipe and the length of the deferred queue stay; tasks are only
  added, behind the others and for this connection; the streams of the connection use
  descriptors they used before or new ones; no descriptor of anyone else is closed.
\<close>

definition keeps :: "manager \<times> shared \<Rightarrow> manager \<times> shared \<Rightarrow> bool" where
  "keeps ms ms' \<longleftrightarrow> (case (ms, ms') of ((m, sh), (m', sh')) \<Rightarrow>
     manager_ok sh' m' \<and> os_ok (os_state sh') \<and> socket_id m' = socket_id m \<and>
     conf sh' = conf sh \<and> pcap_build sh' = pcap_build sh \<and>
     send_queue_len sh' = send_queue_len sh \<and>
     pipes (os_state sh') = pipes (os_state sh) \<and>
     fds m' \<subseteq> fds m \<union> (set (open_fds (os_state sh')) - set (open_fds (os_state sh))) \<and>
     set (open_fds (os_state sh)) - fds m \<subseteq> set (open_fds (os_state sh')) \<and>
     set (interest (os_state sh)) - fds m \<subseteq> set (interest (os_state sh')) \<and>
     (\<exists>ts. tasks sh' = tasks sh @ ts \<and> (\<forall>t \<in> set ts. wt_this t = socket_id m)))"

lemma keeps_refl: "manager_ok sh m \<Longrightarrow> os_ok (os_state sh) \<Longrightarrow> keeps (m, sh) (m, sh)"
  by (simp add: keeps_def)

lemma keeps_ok: "keeps ms (m', sh') \<Longrightarrow> manager_ok sh' m' \<and> os_ok (os_state sh')"
  by (cases ms) (simp add: keeps_def)

lemma keeps_trans:
  assumes "os_ok (os_state sh)" and "keeps (m, sh) (m1, sh1)" and "keeps (m1, sh1) (m2, sh2)"
  shows "keeps (m, sh) (m2, sh2)"
proof -
  let ?open = "\<lambda>s. set (open_fds (os_state s))"
  let ?watched = "\<lambda>s. set (interest (os_state s))"
  obtain ts where ts: "tasks sh1 = tasks sh @ ts" "\<forall>t \<in> set ts. wt_this t = socket_id m"
    and s1: "socket_id m1 = socket_id m"
    using assms(2) by (auto simp: keeps_def)
  obtain us where us: "tasks sh2 = tasks sh1 @ us" "\<forall>t \<in> set us. wt_this t = socket_id m1"
    using assms(3) by (auto simp: keeps_def)
  have tasks: "\<exists>vs. tasks sh2 = tasks sh @ vs \<and> (\<forall>t \<in> set vs. wt_this t = socket_id m)"
    using ts us s1 by (intro exI [of _ "ts @ us"]) auto
  have f1: "fds m1 \<subseteq> fds m \<union> (?open sh1 - ?open sh)" "?open sh - fds m \<subseteq> ?open sh1"
    and w1: "?watched sh - fds m \<subseteq> ?watched sh1"
    using assms(2) by (simp_all add: keeps_def)
  have f2: "fds m2 \<subseteq> fds m1 \<union> (?open sh2 - ?open sh1)" "?open sh1 - fds m1 \<subseteq> ?open sh2"
    and w2: "?watched sh1 - fds m1 \<subseteq> ?watched sh2"
    using assms(3) by (simp_all add: keeps_def)
  have "?watched sh \<subseteq> ?open sh" using assms(1) by (simp add: os_ok_def)
  with f1 w1 w2 have "?watched sh - fds m \<subseteq> ?watched sh2" by blast
  moreover have "fds m2 \<subseteq> ?open sh2" using fds_open assms(3) by (simp add: keeps_def)
  with f1 f2 have "fds m2 \<subseteq> fds m \<union> (?open sh2 - ?open sh)" by blast
  moreover have "?open sh - fds m \<subseteq> ?open sh2" using f1 f2 by blast
  ultimately show ?thesis
    using assms(2,3) tasks unfolding keeps_def by fastforce
qed

text \<open>The contract: under it an operation may be applied to any connection of the server.\<close>

locale manager_operation =
  fixes f :: "net \<Rightarrow> manager \<times> shared \<Rightarrow> (manager \<times> shared) result"
  assumes f_keeps: "fresh_socket net \<Longrightarrow> manager_ok sh m \<Longrightarrow> os_ok (os_state sh) \<Longrightarrow>
    f net (m, sh) = Inr (m', sh') \<Longrightarrow> keeps (m, sh) (m', sh')"

section \<open>The operations\<close>

text \<open>An operation that replaces nothing but flags, messages and non-identifying stream data.\<close>

lemma keeps_quiet:
  assumes "manager_ok sh m" and "os_ok (os_state sh)"
    and "keys_ok (streams m')" and "socket_id m' = socket_id m"
    and "\<And>k. rel_option (\<lambda>d' d. ss_id d' = ss_id d \<and> ss_fd d' = ss_fd d \<and> (ss_pcap d' = None \<longrightarrow> ss_pcap d = None))
        (map_of (streams m') k) (map_of (streams m) k)"
    and "tasks sh' = tasks sh @ ts" and "\<forall>t \<in> set ts. wt_this t = socket_id m"
    and "conf sh' = conf sh" and "pcap_build sh' = pcap_build sh"
    and "send_queue_len sh' = send_queue_len sh"
    and "open_fds (os_state sh') = open_fds (os_state sh)"
    and "interest (os_state sh') = interest (os_state sh)"
    and "pipes (os_state sh') = pipes (os_state sh)"
  shows "keeps (m, sh) (m', sh')"
proof -
  have src: "\<exists>d. map_of (streams m) k = Some d \<and> ss_id d' = ss_id d \<and> ss_fd d' = ss_fd d \<and>
      (ss_pcap d' = None \<longrightarrow> ss_pcap d = None)" if "map_of (streams m') k = Some d'" for k d'
    using assms(5) [of k] that by (cases "map_of (streams m) k") auto
  have cap: "capturing sh' = capturing sh" using assms(8,9) by (simp add: capturing_def)
  have "fds m' \<subseteq> fds m" using src by (auto simp: fds_def) metis
  moreover have "stream_ok sh' k d'" if "map_of (streams m') k = Some d'" for k d'
    using src [OF that] manager_okD [OF assms(1), of k] assms(11,13) cap
    by (auto simp: stream_ok_def)
  moreover have "fields_unique ss_fd (streams m')"
    unfolding fields_unique_def
  proof (intro allI impI)
    fix k k' v v'
    assume a: "map_of (streams m') k = Some v" "map_of (streams m') k' = Some v'" "ss_fd v = ss_fd v'"
    obtain d d' where d: "map_of (streams m) k = Some d" "map_of (streams m) k' = Some d'"
      "ss_fd d = ss_fd d'"
      using src [OF a(1)] src [OF a(2)] a(3) by auto
    have "fields_unique ss_fd (streams m)" using assms(1) by (simp add: manager_ok_def)
    from ktab.uniqueD [OF this d] show "k = k'" .
  qed
  ultimately show ?thesis
    using assms by (auto simp: keeps_def manager_ok_def os_ok_def)
qed

text \<open>Special cases: only flags and messages; one stream in place; only tasks.\<close>

lemma keeps_flags:
  assumes "manager_ok sh m" and "os_ok (os_state sh)"
    and "streams m' = streams m" and "socket_id m' = socket_id m"
  shows "keeps (m, sh) (m', sh)"
  by (rule keeps_quiet [where ts = "[]"])
    (use assms in \<open>auto simp: manager_ok_def option.rel_refl\<close>)

lemma keeps_update:
  assumes "manager_ok sh m" and "os_ok (os_state sh)"
    and "map_of (streams m) k = Some d" and "streams m' = AList.update k d' (streams m)"
    and "ss_id d' = ss_id d" and "ss_fd d' = ss_fd d" and "ss_pcap d' = None \<longrightarrow> ss_pcap d = None"
    and "socket_id m' = socket_id m"
  shows "keeps (m, sh) (m', sh)"
proof (rule keeps_quiet [where ts = "[]"])
  show "keys_ok (streams m')"
    using assms(1,4) by (simp add: manager_ok_def tab.ok_assign)
  show "rel_option (\<lambda>d' d. ss_id d' = ss_id d \<and> ss_fd d' = ss_fd d \<and> (ss_pcap d' = None \<longrightarrow> ss_pcap d = None))
      (map_of (streams m') k') (map_of (streams m) k')" for k'
    using assms(3-7) by (auto simp: tab.lookup_assign option.rel_refl)
qed (use assms in auto)

lemma keeps_task:
  assumes "manager_ok sh m" and "os_ok (os_state sh)" and "wt_this t = socket_id m"
  shows "keeps (m, sh) (m, sh\<lparr>tasks := tasks sh @ [t]\<rparr>)"
  by (rule keeps_quiet [where ts = "[t]"])
    (use assms in \<open>auto simp: manager_ok_def option.rel_refl\<close>)

lemma ws_send_simps [simp]:
  "streams (ws_send f m) = streams m" "socket_id (ws_send f m) = socket_id m"
  by (simp_all add: ws_send_def)

lemma capture_keeps:
  assumes "manager_ok sh m" and "os_ok (os_state sh)" and "capture g sid m = Inr m'"
  shows "keeps (m, sh) (m', sh)"
proof -
  from assms(3) obtain d p where "map_of (streams m) sid = Some d"
    and "m' = m\<lparr>streams := AList.update sid (d\<lparr>ss_pcap := Some p\<rparr>) (streams m)\<rparr>"
    by (auto simp: capture_def ebind_eq_Inr split: option.splits)
  with assms(1,2) show ?thesis by (auto intro: keeps_update)
qed

lemma send_data_keeps:
  assumes "manager_ok sh m" and "os_ok (os_state sh)" and "send_data sh sid d n m = Inr m'"
  shows "keeps (m, sh) (m', sh)"
proof -
  obtain m1 where m1: "(if capturing sh then capture (write_dummy_target d n) sid m else Inr m) = Inr m1"
    and m': "streams m' = streams m1" "socket_id m' = socket_id m1"
    using assms(3) by (auto simp: send_data_def ebind_eq_Inr)
  have k: "keeps (m, sh) (m1, sh)"
    using m1 assms(1,2) by (auto intro: keeps_refl capture_keeps split: if_splits)
  with keeps_ok have "keeps (m1, sh) (m', sh)" by (intro keeps_flags) (use m' in auto)
  with assms(2) k show ?thesis by (rule keeps_trans)
qed

lemma update_streams_keeps:
  assumes "manager_ok sh m" and "os_ok (os_state sh)" and "update_streams sh m = Inr m'"
  shows "keeps (m, sh) (m', sh)"
proof (rule keeps_quiet [where ts = "[]"])
  have k: "keys_ok (streams m)" using assms(1) by (simp add: manager_ok_def)
  note u = update_streams_spec [OF k, of sh, unfolded assms(3), simplified]
  show "keys_ok (streams m')" using u k by (simp add: keys_ok_map_values)
  show "rel_option (\<lambda>d' d. ss_id d' = ss_id d \<and> ss_fd d' = ss_fd d \<and> (ss_pcap d' = None \<longrightarrow> ss_pcap d = None))
      (map_of (streams m') k') (map_of (streams m) k')" for k'
    using u by (cases "map_of (streams m) k'")
      (auto simp: map_of_map_values refreshed_def)
  show "socket_id m' = socket_id m" using u by simp
qed (use assms in auto)

lemma handle_data_keeps:
  assumes "manager_ok sh m" and "os_ok (os_state sh)" and "handle_data p (m, sh) = Inr (r, m', sh')"
  shows "keeps (m, sh) (m', sh')"
proof (cases "map_of (streams m) (stream_id p)")
  case None
  with assms show ?thesis by (simp add: handle_data_def keeps_refl)
next
  case (Some d)
  let ?t = "\<lparr>wt_this = socket_id m, wt_packet = p\<rparr>"
  have sh': "sh' = sh\<lparr>tasks := tasks sh @ [?t]\<rparr>"
    using assms(3) Some by (auto simp: handle_data_def Let_def send_simps split: if_splits)
  have t: "keeps (m, sh) (m, sh')" unfolding sh' using assms(1,2) by (rule keeps_task) simp
  have "m' = m \<or> (\<exists>b. streams m' = AList.update (stream_id p) (d\<lparr>ss_buffer := b\<rparr>) (streams m) \<and>
      socket_id m' = socket_id m)"
    using assms(3) Some by (auto simp: handle_data_def Let_def send_simps split: if_splits)
  then have "keeps (m, sh') (m', sh')"
    using keeps_ok [OF t] Some by (auto intro: keeps_refl keeps_update)
  with assms(2) t show ?thesis by (rule keeps_trans)
qed

lemma run_task_keeps:
  assumes "manager_ok sh m" and "os_ok (os_state sh)" and "run_task as p (m, sh) = Inr (Some (m', sh'))"
  shows "keeps (m, sh) (m', sh')"
  using assms
proof (induction as arbitrary: m sh)
  case Nil
  then show ?case by simp
next
  case (Cons a as)
  from Cons.prems(3) obtain again m1 sh1 where r: "task_round a p (m, sh) = Inr (again, m1, sh1)"
    and n: "(if again then run_task as p (m1, sh1) else Inr (Some (m1, sh1))) = Inr (Some (m', sh'))"
    by (auto simp: ebind_eq_Inr)
  obtain m2 where m2: "keeps (m, sh) (m2, sh)" and m1: "m1 = m2"
    and sh1: "\<exists>c. sh1 = sh \<or> sh1 = sh\<lparr>os_state := sys c (os_state sh)\<rparr>"
  proof -
    from r obtain d where c: "(if capturing sh then capture (write_dummy_user (data p) (data_len p))
        (stream_id p) m else Inr m) = Inr m1"
      and s: "\<exists>c. sh1 = sh \<or> sh1 = sh\<lparr>os_state := sys c (os_state sh)\<rparr>"
      by (cases a) (auto simp: task_round_def ebind_eq_Inr split: option.splits)
    from c Cons.prems(1,2) have "keeps (m, sh) (m1, sh)"
      by (auto intro: keeps_refl capture_keeps split: if_splits)
    with s show ?thesis using that by blast
  qed
  have "keeps (m2, sh) (m1, sh1)"
    by (rule keeps_quiet [where ts = "[]"])
      (use keeps_ok [OF m2] m1 sh1 in \<open>auto simp: manager_ok_def option.rel_refl sys_def\<close>)
  with Cons.prems(2) m2 have k: "keeps (m, sh) (m1, sh1)" by (rule keeps_trans)
  show ?case
  proof (cases again)
    case True
    with n have "keeps (m1, sh1) (m', sh')" using keeps_ok [OF k] by (auto intro: Cons.IH)
    with Cons.prems(2) k show ?thesis by (rule keeps_trans)
  next
    case False
    with n k show ?thesis by simp
  qed
qed

text \<open>Closing: the entry goes, its descriptor is closed.\<close>

lemma close_stream_keeps:
  assumes "manager_ok sh m" and "os_ok (os_state sh)"
    and "close_stream sid rp (m, sh) = Inr (m', sh')"
  shows "keeps (m, sh) (m', sh')"
proof -
  obtain d where d: "map_of (streams m) sid = Some d"
    using assms(3) close_stream_missing [of m sid rp sh] by fastforce
  have ok: "stream_ok sh sid d" using assms(1) d by (rule manager_okD)
  have p: "capturing sh \<longrightarrow> ss_pcap d \<noteq> None" using ok by (simp add: stream_ok_def)
  note c = close_stream_found [OF d p, of rp, unfolded assms(3), simplified]
  have m': "streams m' = AList.delete sid (streams m)" and id: "socket_id m' = socket_id m"
    using c by simp_all
  have os': "open_fds (os_state sh') = removeAll (ss_fd d) (open_fds (os_state sh))"
    "interest (os_state sh') = removeAll (ss_fd d) (interest (os_state sh))"
    "pipes (os_state sh') = pipes (os_state sh)"
    using c by (simp_all add: os_defs)
  have sh': "tasks sh' = tasks sh" "conf sh' = conf sh" "pcap_build sh' = pcap_build sh"
    "send_queue_len sh' = send_queue_len sh"
    using c by simp_all
  have cap: "capturing sh' = capturing sh" using sh' by (simp add: capturing_def)
  have u: "fields_unique ss_fd (streams m)" "keys_ok (streams m)"
    using assms(1) by (simp_all add: manager_ok_def)
  have l: "map_of (streams m') = (map_of (streams m))(sid := None)"
    unfolding m' by (rule tab.lookup_erase)
  have "stream_ok sh' k e" if e: "map_of (streams m') k = Some e" for k e
  proof -
    have "k \<noteq> sid" "map_of (streams m) k = Some e" using e l by (auto split: if_splits)
    moreover from this have "ss_fd e \<noteq> ss_fd d" using ktab.uniqueD [OF u(1) _ d] by blast
    moreover have "stream_ok sh k e" using assms(1) calculation(2) by (rule manager_okD)
    ultimately show ?thesis using os' cap by (auto simp: stream_ok_def)
  qed
  then have "manager_ok sh' m'"
    unfolding manager_ok_def m' using u by (simp add: tab.ok_erase ktab.unique_erase)
  moreover have "os_ok (os_state sh')"
    using assms(2) ok os' by (auto simp: os_ok_def stream_ok_def)
  moreover have "fds m' \<subseteq> fds m" using l by (auto simp: fds_def split: if_splits)
  moreover have "ss_fd d \<in> fds m" using d by (auto simp: fds_def)
  ultimately show ?thesis
    using sh' os' id by (auto simp: keeps_def)
qed

lemma force_close_keeps:
  assumes "manager_ok sh m" and "os_ok (os_state sh)" and "force_close (m, sh) = Inr (m', sh')"
  shows "keeps (m, sh) (m', sh')"
proof -
  let ?ms = "(m\<lparr>has_backpressure := False\<rparr>, sh)"
  have start: "keeps (m, sh) ?ms" using assms(1,2) by (intro keeps_flags) simp_all
  have "keeps (m, sh) t" if "efold (\<lambda>id. close_stream id True) ks ?ms = Inr t" for ks t
    using that start
  proof (rule efold_invariant [where P = "keeps (m, sh)"])
    fix x s t
    assume k: "keeps (m, sh) s" and c: "close_stream x True s = Inr t"
    obtain m1 sh1 m2 sh2 where s: "s = (m1, sh1)" and t: "t = (m2, sh2)" by (cases s, cases t) blast
    have "keeps (m1, sh1) (m2, sh2)"
      using keeps_ok [OF k [unfolded s]] c s t by (auto intro: close_stream_keeps)
    with assms(2) k show "keeps (m, sh) t" unfolding s t by (rule keeps_trans)
  qed
  with assms(3) show ?thesis by (simp add: force_close_def)
qed

text \<open>Connecting: at most one new descriptor, which nobody has.\<close>

lemma open_stream_steps:
  assumes "sock_type_of type = Some ty"
  shows "open_stream c net host type port s =
    ebind (match_members c host port) (\<lambda>(a, b).
      if block_type c = BLOCK_BLACK \<and> (a \<or> b) then Inr (None, s)
      else if block_type c = BLOCK_WHITE \<and> \<not> (a \<and> b) then Inr (None, s)
      else ebind (c_string host) (\<lambda>h. Inr (attempt net h ty port s)))"
proof -
  have "(case resolve net h (to_string (unat port)) ty s of
        (None, s) \<Rightarrow> Inr (None, s)
      | (Some dns, s) \<Rightarrow>
          (let fd = net_socket net (open_fds s) ty;
               s = sys (Sys_socket ty fd) s
           in if fd = - 1 then Inr (None, s)
              else let s = s\<lparr>open_fds := fd # open_fds s\<rparr>;
                       ret = net_connect net fd dns;
                       s = sys (Sys_connect fd dns ret) s
                   in if ret \<noteq> 0 then Inr (None, sys_close fd s)
                      else Inr (Some (fd, dns), sys (Sys_set_nonblocking fd) s))) =
      (Inr (attempt net h ty port s) :: ((int \<times> addrinfo) option \<times> os) result)" for h
    by (auto simp: attempt_def Let_def split: option.split prod.split)
  then show ?thesis using assms by (simp add: open_stream_def cong: if_cong)
qed

lemma open_stream_attempt:
  assumes "open_stream c net host type port s = Inr (r, s')"
  shows "(r = None \<and> s' = s) \<or> (\<exists>h ty. attempt net h ty port s = (r, s'))"
proof (cases "sock_type_of type")
  case None
  with assms show ?thesis by (simp add: open_stream_bad_type)
next
  case (Some ty)
  with assms show ?thesis
    by (auto simp: open_stream_steps ebind_eq_Inr split: if_splits)
qed

lemma attempt_pipes: "attempt net h ty port s = (r, s') \<Longrightarrow> pipes s' = pipes s"
  by (auto simp: attempt_def resolve_def os_defs Let_def split: option.splits if_splits)

lemma open_stream_new:
  assumes "fresh_socket net" and "os_ok s" and "open_stream c net host type port s = Inr (r, s')"
  shows "interest s' = interest s \<and> pipes s' = pipes s \<and>
    (case r of None \<Rightarrow> open_fds s' = open_fds s
     | Some (fd, ai) \<Rightarrow> fd \<notin> set (open_fds s) \<and> open_fds s' = fd # open_fds s)"
proof (cases "r = None \<and> s' = s")
  case False
  with open_stream_attempt [OF assms(3)] obtain h ty where a: "attempt net h ty port s = (r, s')" by blast
  show ?thesis
  proof (cases r)
    case None
    with attempt_None [OF assms(1) a [unfolded None]] attempt_pipes [OF a] assms(2) show ?thesis
      by (simp add: os_ok_def)
  next
    case (Some q)
    obtain fd ai where "q = (fd, ai)" by fastforce
    with Some a attempt_Some [OF assms(1), of h ty port s fd ai s'] show ?thesis by simp
  qed
qed simp

lemma keeps_open:
  assumes "manager_ok sh m" and "os_ok (os_state sh)"
    and "fd \<notin> set (open_fds (os_state sh))" and "ss_fd d = fd" and "ss_id d = sid"
    and "capturing sh \<longrightarrow> ss_pcap d \<noteq> None"
    and "streams m' = AList.update sid d (streams m)" and "socket_id m' = socket_id m"
    and "open_fds (os_state sh') = fd # open_fds (os_state sh)"
    and "interest (os_state sh') = fd # interest (os_state sh)"
    and "pipes (os_state sh') = pipes (os_state sh)" and "tasks sh' = tasks sh"
    and "conf sh' = conf sh" and "pcap_build sh' = pcap_build sh"
    and "send_queue_len sh' = send_queue_len sh"
  shows "keeps (m, sh) (m', sh')"
proof -
  have cap: "capturing sh' = capturing sh" using assms by (simp add: capturing_def)
  have u: "fields_unique ss_fd (streams m)" "keys_ok (streams m)"
    using assms(1) by (simp_all add: manager_ok_def)
  have l: "map_of (streams m') = (map_of (streams m))(sid \<mapsto> d)"
    unfolding assms(7) by (rule tab.lookup_assign)
  have np: "fd \<noteq> fst (pipes (os_state sh))" "fd \<noteq> snd (pipes (os_state sh))"
    using assms(2,3) by (auto simp: os_ok_def)
  have old: "stream_ok sh k e" if "map_of (streams m) k = Some e" for k e
    using assms(1) that by (rule manager_okD)
  have "fields_unique ss_fd (streams m')"
    unfolding assms(7) using u(1)
    by (rule ktab.unique_assign_fresh) (use old assms(3,4) in \<open>force simp: stream_ok_def\<close>)
  moreover have "stream_ok sh' k e" if "map_of (streams m') k = Some e" for k e
    using that l old [of k e] np assms(4-6,9,11) cap by (auto simp: stream_ok_def split: if_splits)
  ultimately have "manager_ok sh' m'"
    unfolding manager_ok_def using u(2) by (simp add: assms(7) tab.ok_assign)
  moreover have "os_ok (os_state sh')" using assms(2,9-11) by (auto simp: os_ok_def)
  moreover have "fds m' \<subseteq> insert fd (fds m)" using l assms(4) by (auto simp: fds_def split: if_splits)
  ultimately show ?thesis using assms by (auto simp: keeps_def)
qed

lemma handle_connect_keeps:
  assumes "fresh_socket net" and "manager_ok sh m" and "os_ok (os_state sh)"
    and "handle_connect net now p (m, sh) = Inr (r, m', sh')"
  shows "keeps (m, sh) (m', sh')"
proof -
  from assms(4) obtain c :: connect_packet and con os1 where
    o: "open_stream (get_conf (conf sh)) net (destination_hostname c) (stream_type c)
          (destination_port c) (os_state sh) = Inr (con, os1)"
    and rest: "(case con of None \<Rightarrow> Inr (None, m, sh\<lparr>os_state := os1\<rparr>)
      | Some (fd, ai) \<Rightarrow>
          ebind (if capturing (sh\<lparr>os_state := os1\<rparr>)
                 then open_pcap now (ai_addr ai) (destination_port c) (sh\<lparr>os_state := os1\<rparr>)
                   (fresh_stream (stream_type c) (stream_id p) fd ai)
                 else Inr (fresh_stream (stream_type c) (stream_id p) fd ai, sh\<lparr>os_state := os1\<rparr>))
            (\<lambda>(d, sh). Inr (Some (stream_id p), m\<lparr>streams := AList.update (stream_id p) d (streams m)\<rparr>,
               sh\<lparr>os_state := wake (push_fd fd (os_state sh))\<rparr>))) = Inr (r, m', sh')"
  proof -
    obtain c where c: "ConnectPacket (data p) (data_len p) = Inr c"
      using assms(4) by (auto simp: handle_connect_def ebind_eq_Inr)
    obtain con os1 where "open_stream (get_conf (conf sh)) net (destination_hostname c) (stream_type c)
        (destination_port c) (os_state sh) = Inr (con, os1)"
      using assms(4) c by (auto simp: handle_connect_def ebind_eq_Inr)
    with c show ?thesis
      using that [of c con os1] assms(4)
      unfolding handle_connect_def Let_def fresh_stream_def [symmetric] by simp
  qed
  note new = open_stream_new [OF assms(1,3) o]
  show ?thesis
  proof (cases con)
    case None
    with rest have "m' = m" "sh' = sh\<lparr>os_state := os1\<rparr>" by simp_all
    with new None assms(2,3) show ?thesis
      by (intro keeps_quiet [where ts = "[]"]) (auto simp: manager_ok_def option.rel_refl)
  next
    case (Some c')
    obtain fd ai where c': "con = Some (fd, ai)" using Some by (cases c') simp
    have fd: "fd \<notin> set (open_fds (os_state sh))" "fd \<notin> set (interest os1)"
      and os1: "open_fds os1 = fd # open_fds (os_state sh)" "interest os1 = interest (os_state sh)"
        "pipes os1 = pipes (os_state sh)"
      using new c' assms(3) by (auto simp: os_ok_def)
    obtain d sh2 where d: "ss_fd d = fd" "ss_id d = stream_id p" "capturing sh \<longrightarrow> ss_pcap d \<noteq> None"
      and m': "m' = m\<lparr>streams := AList.update (stream_id p) d (streams m)\<rparr>"
      and sh': "sh' = sh2\<lparr>os_state := wake (push_fd fd os1)\<rparr>"
      and sh2: "sh2 = sh\<lparr>os_state := os1\<rparr> \<or> sh2 = sh\<lparr>os_state := os1, pcap_iter := pcap_iter sh + 1\<rparr>"
    proof (cases "capturing sh")
      case True
      obtain name q where q: "open_pcap now (ai_addr ai) (destination_port c) (sh\<lparr>os_state := os1\<rparr>)
          (fresh_stream (stream_type c) (stream_id p) fd ai) =
        Inr ((fresh_stream (stream_type c) (stream_id p) fd ai)\<lparr>ss_pcap_file := name, ss_pcap := Some q\<rparr>,
             sh\<lparr>os_state := os1, pcap_iter := pcap_iter sh + 1\<rparr>)"
        using open_pcap_ok [of now "ai_addr ai" "destination_port c" "sh\<lparr>os_state := os1\<rparr>"] by fastforce
      let ?d = "(fresh_stream (stream_type c) (stream_id p) fd ai)\<lparr>ss_pcap_file := name, ss_pcap := Some q\<rparr>"
      have "m' = m\<lparr>streams := AList.update (stream_id p) ?d (streams m)\<rparr>"
        "sh' = sh\<lparr>pcap_iter := pcap_iter sh + 1, os_state := wake (push_fd fd os1)\<rparr>"
        using rest c' True q by auto
      then show ?thesis
        by (intro that [of ?d "sh\<lparr>os_state := os1, pcap_iter := pcap_iter sh + 1\<rparr>"])
          (simp_all add: fresh_stream_def)
    next
      case False
      show ?thesis
        by (rule that [of "fresh_stream (stream_type c) (stream_id p) fd ai" "sh\<lparr>os_state := os1\<rparr>"])
          (use rest c' False in \<open>simp_all add: fresh_stream_def\<close>)
    qed
    show ?thesis
      by (rule keeps_open [OF assms(2,3) fd(1) d])
        (use m' sh' sh2 os1 fd(2) in \<open>auto simp: os_defs\<close>)
  qed
qed

lemma receive_keeps:
  assumes "fresh_socket net" and "manager_ok sh m" and "os_ok (os_state sh)"
    and "receive net now rcv n (m, sh) = Inr (m', sh')"
  shows "keeps (m, sh) (m', sh')"
proof -
  obtain p where p: "WispPacket rcv n = Inr p" using assms(4) by (auto simp: receive_def ebind_eq_Inr)
  define m1 where "m1 = (if \<not> received_info m \<and> info_valid m then m\<lparr>info_valid := False\<rparr> else m)"
  have n: "keeps (m, sh) (m1, sh)"
    using assms(2,3) by (intro keeps_flags) (simp_all add: m1_def)
  note ok = keeps_ok [OF n]
  consider "m' = m" "sh' = sh" | "m' = m1" "sh' = sh"
    | ret m2 where "handle_connect net now p (m1, sh) = Inr (ret, m2, sh')"
        "m' = m2 \<or> send_close 0x41 (stream_id p) m2 = Inr m'"
    | ret where "handle_data p (m1, sh) = Inr (ret, m', sh')"
    using assms(4) p unfolding receive_def Let_def fst_conv snd_conv m1_def [symmetric]
    by (auto simp: ebind_eq_Inr split: if_splits)
  then have "m' = m \<and> sh' = sh \<or> keeps (m1, sh) (m', sh')"
  proof cases
    case 3
    with ok assms(1) have k: "keeps (m1, sh) (m2, sh')" by (blast intro: handle_connect_keeps)
    moreover have "keeps (m2, sh') (m', sh')"
      using 3(2) keeps_ok [OF k] by (auto simp: send_simps intro: keeps_refl keeps_flags)
    ultimately show ?thesis using keeps_trans [of sh] assms(3) by blast
  qed (use ok in \<open>auto intro: keeps_refl handle_data_keeps\<close>)
  then show ?thesis using n keeps_trans [OF assms(3)] by (auto intro: keeps_refl [OF assms(2,3)])
qed

lemma drain_keeps:
  assumes "manager_ok sh m" and "os_ok (os_state sh)"
    and "update_streams sh (m\<lparr>has_backpressure := False\<rparr>) = Inr m'"
  shows "keeps (m, sh) (m', sh\<lparr>os_state := wake (os_state sh)\<rparr>)"
proof -
  have b: "keeps (m, sh) (m\<lparr>has_backpressure := False\<rparr>, sh)"
    using assms(1,2) by (intro keeps_flags) simp_all
  have u: "keeps (m\<lparr>has_backpressure := False\<rparr>, sh) (m', sh)"
    using keeps_ok [OF b] assms(3) by (blast intro: update_streams_keeps)
  have "keeps (m', sh) (m', sh\<lparr>os_state := wake (os_state sh)\<rparr>)"
    by (rule keeps_quiet [where ts = "[]"])
      (use keeps_ok [OF u] in \<open>auto simp: manager_ok_def option.rel_refl wake_def\<close>)
  with keeps_trans [OF assms(2) b u] show ?thesis by (rule keeps_trans [OF assms(2)])
qed

section \<open>The operations fulfil the contract\<close>

interpretation receive_op: manager_operation "\<lambda>net. receive net now rcv n" for now rcv n
  by unfold_locales (rule receive_keeps)

interpretation close_op: manager_operation "\<lambda>net. close_stream sid remove_poll" for sid remove_poll
  by unfold_locales (rule close_stream_keeps)

interpretation force_close_op: manager_operation "\<lambda>net. force_close"
  by unfold_locales (rule force_close_keeps)

interpretation refresh_op: manager_operation
  "\<lambda>net (m, sh). ebind (update_streams sh m) (\<lambda>m'. Inr (m', sh))"
  by unfold_locales (auto simp: ebind_eq_Inr intro: update_streams_keeps)

interpretation drain_op: manager_operation
  "\<lambda>net (m, sh). ebind (update_streams sh (m\<lparr>has_backpressure := False\<rparr>)) (\<lambda>m'.
     Inr (m', sh\<lparr>os_state := wake (os_state sh)\<rparr>))"
  by unfold_locales (auto simp: ebind_eq_Inr intro: drain_keeps)

section \<open>The invariant of the server\<close>

definition managers_ok :: "world \<Rightarrow> bool" where
  "managers_ok w \<longleftrightarrow> keys_ok (watched w) \<and> os_ok (os_state (common w)) \<and>
     (\<forall>wid m. map_of (watched w) wid = Some m \<longrightarrow> socket_id m = wid \<and> manager_ok (common w) m) \<and>
     (\<forall>wid m wid' m'. map_of (watched w) wid = Some m \<longrightarrow> map_of (watched w) wid' = Some m' \<longrightarrow>
        wid \<noteq> wid' \<longrightarrow> fds m \<inter> fds m' = {})"

text \<open>
  \<open>send_queue_len\<close> counts the deferred deliveries, and no more tasks are in execution than
  there are workers.
\<close>

definition world_ok :: "world \<Rightarrow> bool" where
  "world_ok w \<longleftrightarrow> managers_ok w \<and> send_queue_len (common w) = of_nat (length (deferreds w)) \<and>
     length (running w) \<le> workers w"

lemma managers_okD:
  "managers_ok w \<Longrightarrow> map_of (watched w) wid = Some m \<Longrightarrow>
     socket_id m = wid \<and> manager_ok (common w) m \<and> os_ok (os_state (common w))"
  by (simp add: managers_ok_def)

text \<open>The tasks of the server in the order of their life: done, in execution, waiting.\<close>

definition history :: "world \<Rightarrow> write_task list" where
  "history w = executed w @ running w @ tasks (common w)"

text \<open>What a step on one connection leaves alone.\<close>

definition extends :: "world \<Rightarrow> world \<Rightarrow> bool" where
  "extends w w' \<longleftrightarrow> managers_ok w' \<and> deferreds w' = deferreds w \<and> running w' = running w \<and>
     executed w' = executed w \<and> workers w' = workers w \<and>
     send_queue_len (common w') = send_queue_len (common w) \<and>
     capturing (common w') = capturing (common w) \<and>
     (\<exists>ts. tasks (common w') = tasks (common w) @ ts)"

lemma extends_refl: "managers_ok w \<Longrightarrow> extends w w"
  by (simp add: extends_def)

lemma extends_ok: "extends w w' \<Longrightarrow> managers_ok w'"
  by (simp add: extends_def)

lemma extends_trans: "extends w w1 \<Longrightarrow> extends w1 w2 \<Longrightarrow> extends w w2"
  by (auto simp: extends_def)

lemma managers_ok_update:
  assumes "managers_ok w" and "map_of (watched w) wid = Some m" and "keeps (m, common w) (m', sh')"
  shows "managers_ok (w\<lparr>watched := AList.update wid m' (watched w), common := sh'\<rparr>)"
proof -
  let ?w = "w\<lparr>watched := AList.update wid m' (watched w), common := sh'\<rparr>"
  let ?open = "set (open_fds (os_state (common w)))" and ?open' = "set (open_fds (os_state sh'))"
  have ok': "manager_ok sh' m'" "os_ok (os_state sh')" "socket_id m' = wid"
    using keeps_ok [OF assms(3)] assms managers_okD by (auto simp: keeps_def)
  have k: "pipes (os_state sh') = pipes (os_state (common w))" "capturing sh' = capturing (common w)"
    "fds m' \<subseteq> fds m \<union> (?open' - ?open)" "?open - fds m \<subseteq> ?open'"
    using assms(3) by (auto simp: keeps_def capturing_def)
  have l: "map_of (watched ?w) = (map_of (watched w))(wid \<mapsto> m')" by (simp add: tab.lookup_assign)
  have others: "manager_ok sh' m2 \<and> fds m2 \<inter> fds m' = {}"
    if m2: "map_of (watched w) wid2 = Some m2" "wid2 \<noteq> wid" for wid2 m2
  proof
    have d: "fds m2 \<inter> fds m = {}" using assms(1,2) m2 unfolding managers_ok_def by blast
    have o: "manager_ok (common w) m2" using managers_okD [OF assms(1) m2(1)] by simp
    with fds_open have f: "fds m2 \<subseteq> ?open" .
    have "stream_ok sh' k2 d2" if "map_of (streams m2) k2 = Some d2" for k2 d2
    proof -
      have "ss_fd d2 \<in> fds m2" using that by (auto simp: fds_def)
      with d f k(4) have "ss_fd d2 \<in> ?open'" by blast
      with manager_okD [OF o that] k(1,2) show ?thesis by (simp add: stream_ok_def)
    qed
    with o show "manager_ok sh' m2" by (simp add: manager_ok_def)
    show "fds m2 \<inter> fds m' = {}" using d f k(3) by blast
  qed
  show ?thesis
    unfolding managers_ok_def l
    using ok' others assms(1)
    by (auto simp: tab.ok_assign managers_ok_def split: if_splits)
qed

context manager_operation
begin

lemma on_manager_extends:
  assumes "fresh_socket net" and "managers_ok w" and "on_manager wid (f net) w = Inr w'"
  shows "extends w w'"
proof (cases "map_of (watched w) wid")
  case None
  with assms show ?thesis by (simp add: on_manager_def extends_refl)
next
  case (Some m)
  with assms(3) obtain m' sh' where f: "f net (m, common w) = Inr (m', sh')"
    and w': "w' = w\<lparr>watched := AList.update wid m' (watched w), common := sh'\<rparr>"
    by (auto simp: on_manager_def ebind_eq_Inr)
  have k: "keeps (m, common w) (m', sh')"
    using managers_okD [OF assms(2) Some] f assms(1) by (blast intro: f_keeps)
  then show ?thesis
    using managers_ok_update [OF assms(2) Some k] w' by (auto simp: extends_def keeps_def capturing_def)
qed

end

section \<open>Every event keeps the invariant\<close>

lemma managers_ok_cong:
  assumes "managers_ok w" and "watched w' = watched w" and "os_ok (os_state (common w'))"
    and "open_fds (os_state (common w')) = open_fds (os_state (common w))"
    and "pipes (os_state (common w')) = pipes (os_state (common w))"
    and "conf (common w') = conf (common w)" and "pcap_build (common w') = pcap_build (common w)"
  shows "managers_ok w'"
proof -
  have "manager_ok (common w') m = manager_ok (common w) m" for m
    using assms by (simp add: manager_ok_def stream_ok_def capturing_def)
  with assms show ?thesis by (simp add: managers_ok_def)
qed

lemma managers_ok_delete:
  "managers_ok w \<Longrightarrow> managers_ok (w\<lparr>watched := AList.delete wid (watched w)\<rparr>)"
  by (auto simp: managers_ok_def tab.lookup_erase tab.ok_erase split: if_splits)

lemma managers_ok_enter:
  assumes "managers_ok w" and "streams m = []" and "socket_id m = wid"
  shows "managers_ok (w\<lparr>watched := AList.update wid m (watched w), next_id := n\<rparr>)"
proof -
  have "fds m = {}" and "manager_ok (common w) m"
    using assms(2) by (simp_all add: fds_def manager_ok_def)
  with assms(1,3) show ?thesis
    by (auto simp: managers_ok_def tab.lookup_assign tab.ok_assign split: if_splits)
qed

lemma efold_extends:
  assumes "efold f xs w = Inr w'" and "managers_ok w"
    and "\<And>x u v. managers_ok u \<Longrightarrow> f x u = Inr v \<Longrightarrow> extends u v"
  shows "extends w w'"
  using assms(1)
proof (rule efold_invariant [where P = "extends w"])
  show "extends w w" using assms(2) by (rule extends_refl)
  show "extends w t" if "extends w s" "f x s = Inr t" for x s t
    using that assms(3) extends_trans by (meson extends_def)
qed

lemma forward_stream_keeps:
  assumes "manager_ok sh m" and "os_ok (os_state sh)"
    and "forward_stream sh status wid df k (m, found) = Inr (m', found')"
  shows "keeps (m, sh) (m', sh)"
proof (cases "\<exists>d. map_of (streams m) k = Some d \<and> ss_fd d = df_fd df")
  case False
  with assms show ?thesis
    by (auto simp: forward_stream_def intro: keeps_refl split: option.splits)
next
  case True
  with assms(3) obtain m1 where s: "send_data sh k (df_buffer df) (of_nat (length (df_buffer df))) m = Inr m1"
    and m': "m' = (case status wid k of BACKPRESSURE \<Rightarrow> m1\<lparr>has_backpressure := True\<rparr> | SUCCESS \<Rightarrow> m1
        | DROPPED \<Rightarrow> m1\<lparr>sent := sent m\<rparr>)"
    by (auto simp: forward_stream_def ebind_eq_Inr)
  have k: "keeps (m, sh) (m1, sh)" using assms(1,2) s by (rule send_data_keeps)
  moreover have "keeps (m1, sh) (m', sh)"
    using keeps_ok [OF k] m' by (intro keeps_flags) (simp_all split: send_status.split)
  ultimately show ?thesis by (rule keeps_trans [OF assms(2)])
qed

lemma forward_streams_keeps:
  assumes "manager_ok sh m" and "os_ok (os_state sh)"
    and "efold (forward_stream sh status wid df) ks (m, found) = Inr (m', found')"
  shows "keeps (m, sh) (m', sh)"
proof -
  have "keeps (m, sh) (fst (m', found'), sh)"
    using assms(3)
  proof (rule efold_invariant [where P = "\<lambda>mf. keeps (m, sh) (fst mf, sh)"])
    show "keeps (m, sh) (fst (m, found), sh)" using assms(1,2) by (simp add: keeps_refl)
    fix k s t
    assume k: "keeps (m, sh) (fst s, sh)" and f: "forward_stream sh status wid df k s = Inr t"
    have "keeps (fst s, sh) (fst t, sh)"
      using keeps_ok [OF k] f by (cases s, cases t) (auto intro: forward_stream_keeps)
    with k show "keeps (m, sh) (fst t, sh)" by (rule keeps_trans [OF assms(2)])
  qed
  then show ?thesis by simp
qed

lemma forward_manager_extends:
  assumes "managers_ok w" and "forward_manager status df wid (w, found) = Inr (w', found')"
  shows "extends w w'"
proof (cases "map_of (watched w) wid")
  case None
  with assms show ?thesis by (simp add: forward_manager_def extends_refl)
next
  case (Some m)
  with assms(2) obtain m' where
    f: "efold (forward_stream (common w) status wid df) (map fst (streams m)) (m, found) = Inr (m', found')"
    and w': "w' = w\<lparr>watched := AList.update wid m' (watched w), common := common w\<rparr>"
    by (auto simp: forward_manager_def ebind_eq_Inr)
  have k: "keeps (m, common w) (m', common w)"
    using managers_okD [OF assms(1) Some] f by (blast intro: forward_streams_keeps)
  then show ?thesis
    using managers_ok_update [OF assms(1) Some k] w' by (auto simp: extends_def)
qed

lemma forward_managers_extends:
  assumes "managers_ok w" and "efold (forward_manager status df) wids (w, found) = Inr (w', found')"
  shows "extends w w'"
proof -
  have "extends w (fst (w', found'))"
    using assms(2)
  proof (rule efold_invariant [where P = "\<lambda>wf. extends w (fst wf)"])
    show "extends w (fst (w, found))" using assms(1) by (simp add: extends_refl)
    fix k s t
    assume k: "extends w (fst s)" and f: "forward_manager status df k s = Inr t"
    have "extends (fst s) (fst t)"
      using extends_ok [OF k] f by (cases s, cases t) (auto intro: forward_manager_extends)
    with k show "extends w (fst t)" by (rule extends_trans)
  qed
  then show ?thesis by simp
qed

text \<open>
  The progress of the tasks over a step: it is one of the abstract work queue, no task is lost
  or duplicated, and with one worker they keep their order.
\<close>

definition work :: "world \<Rightarrow> write_task list \<times> write_task multiset" where
  "work w = (tasks (common w), mset (running w))"

definition progresses :: "world \<Rightarrow> world \<Rightarrow> bool" where
  "progresses w w' \<longleftrightarrow> workers w' = workers w \<and> capturing (common w') = capturing (common w) \<and>
     advances (work w) (work w') \<and>
     (\<exists>ts. mset (history w') = mset (history w @ ts) \<and> (workers w \<le> 1 \<longrightarrow> history w' = history w @ ts))"

lemma progresses_refl: "progresses w w"
  by (auto simp: progresses_def intro: exI [of _ "[]"])

lemma progresses_trans:
  assumes "progresses w w1" and "progresses w1 w2"
  shows "progresses w w2"
proof -
  obtain ts us where "mset (history w1) = mset (history w @ ts)" "mset (history w2) = mset (history w1 @ us)"
    "workers w \<le> 1 \<longrightarrow> history w1 = history w @ ts" "workers w1 \<le> 1 \<longrightarrow> history w2 = history w1 @ us"
    "workers w1 = workers w" "workers w2 = workers w" "capturing (common w2) = capturing (common w)"
    using assms by (auto simp: progresses_def)
  moreover have "advances (work w) (work w2)"
    using assms by (auto simp: progresses_def intro: advances_trans)
  ultimately show ?thesis by (auto simp: progresses_def intro!: exI [of _ "ts @ us"])
qed

lemma progresses_same:
  assumes "workers w' = workers w" and "running w' = running w" and "executed w' = executed w"
    and "tasks (common w') = tasks (common w) @ ts" and "capturing (common w') = capturing (common w)"
  shows "progresses w w'"
  using assms advances_enqueue [of "tasks (common w)" "mset (running w)" ts]
  by (auto simp: progresses_def history_def work_def)

lemma extends_progresses:
  assumes "extends w w'"
  shows "progresses w w'"
proof -
  obtain ts where "tasks (common w') = tasks (common w) @ ts" using assms by (auto simp: extends_def)
  with assms show ?thesis
    by (intro progresses_same [where ts = ts]) (auto simp: extends_def)
qed

lemma world_ok_extends: "world_ok w \<Longrightarrow> extends w w' \<Longrightarrow> world_ok w' \<and> progresses w w'"
  by (simp add: extends_progresses) (simp add: world_ok_def extends_def)

lemma world_ok_managers: "world_ok w \<Longrightarrow> managers_ok w"
  by (simp add: world_ok_def)

text \<open>The delivery: forwarding, closing and refreshing are steps on single connections.\<close>

lemma deliver_ok:
  assumes "fresh_socket net" and "managers_ok w" and "deliver status df w = Inr w'"
  shows "\<exists>w2. extends w w2 \<and> extends (w2\<lparr>common := (common w2)\<lparr>send_queue_len := send_queue_len (common w) - 1\<rparr>\<rparr>) w'"
proof -
  obtain w1 found where f: "efold (forward_manager status df) (map fst (watched w)) (w, None) = Inr (w1, found)"
    and r: "ebind (case found of
              Some (wid, k) \<Rightarrow> if df_to_close df then on_manager wid (close_stream k False) w1 else Inr w1
            | None \<Rightarrow> Inr w1) (\<lambda>w.
       let w = w\<lparr>common := (common w)\<lparr>send_queue_len := send_queue_len (common w) - 1\<rparr>\<rparr>
       in if send_queue_len (common w) < MAX_QUEUE
          then efold refresh_manager (map fst (watched w)) w else Inr w) = Inr w'"
    using assms(3) by (auto simp: deliver_def ebind_eq_Inr)
  have e1: "extends w w1" using assms(2) f by (rule forward_managers_extends)
  obtain w2 where c: "(case found of
              Some (wid, k) \<Rightarrow> if df_to_close df then on_manager wid (close_stream k False) w1 else Inr w1
            | None \<Rightarrow> Inr w1) = Inr w2"
    using r by (auto simp: ebind_eq_Inr)
  have "extends w1 w2"
    using c extends_ok [OF e1] close_op.on_manager_extends [OF assms(1)]
    by (auto intro: extends_refl split: option.splits if_splits)
  with e1 have e2: "extends w w2" by (rule extends_trans)
  let ?w3 = "w2\<lparr>common := (common w2)\<lparr>send_queue_len := send_queue_len (common w2) - 1\<rparr>\<rparr>"
  have m3: "managers_ok ?w3"
    by (rule managers_ok_cong [OF extends_ok [OF e2]]) (use extends_ok [OF e2] in \<open>simp_all add: managers_ok_def\<close>)
  have "extends ?w3 w'"
  proof (cases "send_queue_len (common ?w3) < MAX_QUEUE")
    case True
    with r c have "efold refresh_manager (map fst (watched ?w3)) ?w3 = Inr w'" by (simp add: Let_def)
    then show ?thesis
      using m3 by (rule efold_extends)
        (use refresh_op.on_manager_extends [OF assms(1)] in \<open>auto simp: refresh_manager_def\<close>)
  next
    case False
    with r c have "w' = ?w3" by (simp add: Let_def)
    with m3 show ?thesis by (simp add: extends_refl)
  qed
  moreover have "send_queue_len (common w2) = send_queue_len (common w)" using e2 by (simp add: extends_def)
  ultimately show ?thesis using e2 by auto
qed

lemma watch_event_ok:
  assumes "world_ok w"
  shows "world_ok (watch_event fd as w) \<and> progresses w (watch_event fd as w)"
proof -
  have o: "os_ok (os_state (common w))" using assms by (simp add: world_ok_def managers_ok_def)
  have e: "open_fds (snd (erase_fd fd s)) = open_fds s" "pipes (snd (erase_fd fd s)) = pipes s"
    "open_fds (drain_pipe s) = open_fds s" "pipes (drain_pipe s) = pipes s"
    "interest (drain_pipe s) = interest s" for s
    by (simp_all add: os_defs)
  have d: "os_ok (drain_pipe (os_state (common w)))" using o by (simp add: os_ok_def e)
  have c: "os_ok (snd (erase_fd fd (os_state (common w))))" if "fd \<noteq> fst (pipes (os_state (common w)))"
    using o that by (auto simp: os_ok_def os_defs)
  have "managers_ok (watch_event fd as w)"
    by (rule managers_ok_cong [OF world_ok_managers [OF assms]])
      (use o d c in \<open>auto simp: watch_event_def Let_def e split: option.split\<close>)
  moreover have "progresses w (watch_event fd as w)"
    by (rule progresses_same [where ts = "[]"]) (auto simp: watch_event_def Let_def split: option.split)
  ultimately show ?thesis
    using assms
    by (auto simp: world_ok_def watch_event_def Let_def split: option.split)
qed

lemma open_socket_ok:
  assumes "world_ok w" and "open_socket w = Inr w'"
  shows "world_ok w' \<and> progresses w w'"
proof -
  obtain m where c: "WebSocketManager (next_id w) = Inr m"
    and w': "w' = w\<lparr>watched := AList.update (next_id w) m (watched w), next_id := next_id w + 1\<rparr>"
    using assms(2) by (auto simp: open_socket_def ebind_eq_Inr)
  from c have "streams m = []" "socket_id m = next_id w"
    by (auto simp: WebSocketManager_def send_simps emit_def)
  then have "managers_ok w'"
    unfolding w' by (rule managers_ok_enter [OF world_ok_managers [OF assms(1)]])
  moreover have "progresses w w'" by (rule progresses_same [where ts = "[]"]) (simp_all add: w')
  ultimately show ?thesis using assms(1) w' by (simp add: world_ok_def)
qed

lemma close_socket_ok:
  assumes "fresh_socket net" and "world_ok w" and "close_socket wid w = Inr w'"
  shows "world_ok w' \<and> progresses w w'"
proof -
  obtain w1 where f: "on_manager wid force_close w = Inr w1"
    and w': "w' = w1\<lparr>watched := AList.delete wid (watched w1)\<rparr>"
    using assms(3) by (auto simp: close_socket_def ebind_eq_Inr)
  have "extends w w1"
    using force_close_op.on_manager_extends [OF assms(1) world_ok_managers [OF assms(2)] f] .
  with assms(2) have ok: "world_ok w1" "progresses w w1" using world_ok_extends by blast+
  moreover have "progresses w1 w'" by (rule progresses_same [where ts = "[]"]) (simp_all add: w')
  ultimately have "progresses w w'" by (blast intro: progresses_trans)
  moreover have "world_ok w'"
    using ok(1) managers_ok_delete [of w1 wid] by (simp add: w' world_ok_def)
  ultimately show ?thesis by blast
qed

lemma deliver_head_ok:
  assumes "fresh_socket net" and "world_ok w" and "deferreds w = df # dfs"
    and "deliver status df (w\<lparr>deferreds := dfs\<rparr>) = Inr w'"
  shows "world_ok w' \<and> progresses w w'"
proof -
  let ?w = "w\<lparr>deferreds := dfs\<rparr>"
  have "managers_ok ?w"
    by (rule managers_ok_cong [OF world_ok_managers [OF assms(2)]])
      (use assms(2) in \<open>simp_all add: world_ok_def managers_ok_def\<close>)
  then obtain w2 where e: "extends ?w w2"
    "extends (w2\<lparr>common := (common w2)\<lparr>send_queue_len := send_queue_len (common ?w) - 1\<rparr>\<rparr>) w'"
    (is "extends ?w3 w'")
    using deliver_ok [OF assms(1) _ assms(4)] by blast
  have "progresses w ?w" by (rule progresses_same [where ts = "[]"]) simp_all
  moreover have "progresses w2 ?w3" by (rule progresses_same [where ts = "[]"]) simp_all
  ultimately have "progresses w w'"
    using e [THEN extends_progresses] by (blast intro: progresses_trans)
  moreover have "world_ok w'"
    using assms(2,3) e by (auto simp: world_ok_def extends_def)
  ultimately show ?thesis by blast
qed

lemma dequeue_ok:
  assumes "world_ok w"
  shows "world_ok (dequeue w) \<and> progresses w (dequeue w)"
proof -
  have "managers_ok (dequeue w)"
    by (rule managers_ok_cong [OF world_ok_managers [OF assms]])
      (use assms in \<open>auto simp: dequeue_def world_ok_def managers_ok_def split: list.split\<close>)
  moreover have "advances (work w) (work (dequeue w))"
    by (auto simp: dequeue_def work_def intro: advances_take split: list.split)
  moreover have "history (dequeue w) = history w" "workers (dequeue w) = workers w"
    "capturing (common (dequeue w)) = capturing (common w)"
    by (auto simp: dequeue_def history_def split: list.split)
  ultimately have "progresses w (dequeue w)" by (auto simp: progresses_def intro: exI [of _ "[]"])
  moreover have "managers_ok (dequeue w)" by fact
  ultimately show ?thesis
    using assms by (auto simp: world_ok_def dequeue_def split: list.split)
qed

lemma run_running_ok:
  assumes "world_ok w" and "run_running i as w = Inr w'"
  shows "world_ok w' \<and> progresses w w'"
proof (cases "i < length (running w) \<and> w' \<noteq> w")
  case False
  then have "w' = w" using assms(2) by (auto simp: run_running_def)
  with assms(1) show ?thesis by (simp add: progresses_refl)
next
  case True
  let ?t = "running w ! i"
  from assms(2) True obtain m m' sh' where m: "map_of (watched w) (wt_this ?t) = Some m"
    and r: "run_task as (wt_packet ?t) (m, common w) = Inr (Some (m', sh'))"
    and w': "w' = w\<lparr>watched := AList.update (wt_this ?t) m' (watched w), common := sh',
        running := take i (running w) @ drop (Suc i) (running w), executed := executed w @ [?t]\<rparr>"
    by (auto simp: run_running_def Let_def ebind_eq_Inr split: option.splits)
  have ok: "managers_ok w" using assms(1) by (rule world_ok_managers)
  have k: "keeps (m, common w) (m', sh')"
    using managers_okD [OF ok m] r by (blast intro: run_task_keeps)
  have "managers_ok w'"
    by (rule managers_ok_cong [OF managers_ok_update [OF ok m k]])
      (use keeps_ok [OF k] in \<open>simp_all add: w'\<close>)
  moreover obtain ts where ts: "tasks sh' = tasks (common w) @ ts" using k by (auto simp: keeps_def)
  have split: "running w = take i (running w) @ ?t # drop (Suc i) (running w)"
    using True by (simp add: id_take_nth_drop)
  have "mset (running w) = mset (take i (running w) @ drop (Suc i) (running w)) + {#?t#}"
    by (subst split) simp
  then have "mset (history w') = mset (history w @ ts)"
    by (simp add: history_def w' ts)
  moreover have "advances (work w) (work w')"
  proof -
    have "advances (work w) (tasks (common w), mset (running w) - {#?t#})"
      using \<open>mset (running w) = _\<close> advances_finish [of "tasks (common w)" ?t "mset (running w) - {#?t#}"]
      by (simp add: work_def)
    moreover have "work w' = (tasks (common w) @ ts, mset (running w) - {#?t#})"
      using \<open>mset (running w) = _\<close> by (simp add: work_def w' ts)
    ultimately show ?thesis
      using advances_enqueue by (metis advances_trans)
  qed
  moreover have "history w' = history w @ ts" if "workers w \<le> 1"
  proof -
    have "length (running w) = 1" "i = 0" using True that assms(1) by (auto simp: world_ok_def)
    then obtain x where "running w = [x]" by (auto simp: length_Suc_conv)
    then show ?thesis using \<open>i = 0\<close> by (simp add: history_def w' ts)
  qed
  ultimately show ?thesis
    using assms(1) k True by (auto simp: world_ok_def progresses_def w' keeps_def capturing_def)
qed

lemma step_ok:
  assumes "fresh_socket net" and "world_ok w" and "step net e w = Inr w'"
  shows "world_ok w' \<and> progresses w w'"
proof (cases e)
  case Open
  with assms show ?thesis by (simp add: open_socket_ok)
next
  case (Message wid now rcv n)
  with assms have "extends w w'"
    using receive_op.on_manager_extends [OF _ world_ok_managers] by simp
  with assms(2) show ?thesis by (rule world_ok_extends)
next
  case (Drain wid)
  with assms have "extends w w'"
    using drain_op.on_manager_extends [OF _ world_ok_managers] by (simp add: drain_socket_def)
  with assms(2) show ?thesis by (rule world_ok_extends)
next
  case (Close wid)
  with assms show ?thesis by (simp add: close_socket_ok)
next
  case (Wait fds)
  let ?w = "w\<lparr>ready := wait_events (\<lambda>fd. fd \<in> set fds) (os_state (common w))\<rparr>"
  have "managers_ok ?w"
    by (rule managers_ok_cong [OF world_ok_managers [OF assms(2)]])
      (use assms(2) in \<open>simp_all add: world_ok_def managers_ok_def\<close>)
  moreover have "progresses w ?w" by (rule progresses_same [where ts = "[]"]) simp_all
  ultimately show ?thesis
    using assms Wait progresses_refl by (auto simp: world_ok_def split: if_splits)
next
  case (Watch as)
  show ?thesis
  proof (cases "ready w")
    case Nil
    with assms Watch show ?thesis by (simp add: progresses_refl)
  next
    case (Cons fd fds)
    let ?w = "w\<lparr>ready := fds\<rparr>"
    have "managers_ok ?w"
      by (rule managers_ok_cong [OF world_ok_managers [OF assms(2)]])
        (use assms(2) in \<open>simp_all add: world_ok_def managers_ok_def\<close>)
    then have "world_ok ?w" using assms(2) by (simp add: world_ok_def)
    moreover have "progresses w ?w" by (rule progresses_same [where ts = "[]"]) simp_all
    moreover have "w' = watch_event fd as ?w" using assms(3) Watch Cons by simp
    ultimately show ?thesis
      using watch_event_ok [of ?w fd as] by (blast intro: progresses_trans)
  qed
next
  case (Deliver status)
  with assms show ?thesis
    by (cases "deferreds w") (simp_all add: deliver_head_ok progresses_refl)
next
  case Dequeue
  with assms dequeue_ok show ?thesis by auto
next
  case (Run i as)
  with assms show ?thesis using run_running_ok [OF assms(2), of i as w'] by simp
qed

section \<open>Reachable servers\<close>

inductive world_step :: "net \<Rightarrow> world \<Rightarrow> world \<Rightarrow> bool" for net where
  "step net e w = Inr w' \<Longrightarrow> world_step net w w'"

inductive_cases world_stepE: "world_step net w w'"

definition starts :: "config \<Rightarrow> bool \<Rightarrow> nat \<Rightarrow> os \<Rightarrow> world \<Rightarrow> bool" where
  "starts c pcap n s w \<longleftrightarrow> os_ok s \<and> w = initial_world c pcap n s"

lemma starts_ok: "starts c pcap n s w \<Longrightarrow> world_ok w"
  by (simp add: starts_def initial_world_def world_ok_def managers_ok_def)

text \<open>
  The invariant, for a kernel that hands out fresh descriptors: the parameter is part of the
  state predicate, so that the interpretation needs no hypothesis.
\<close>

interpretation server: inductive_invariant "starts c pcap n s" "world_step net"
  "\<lambda>w. fresh_socket net \<longrightarrow> world_ok w" for c pcap n s net
  by unfold_locales (auto intro: starts_ok elim!: world_stepE dest: step_ok)

text \<open>
  The tasks of the server run through the abstract work queue, which is never cleared: this is
  what the server needs of the thread pool.
\<close>

definition server_step :: "net \<Rightarrow> event \<Rightarrow> world \<Rightarrow> world \<Rightarrow> bool" where
  "server_step net e w w' \<longleftrightarrow> fresh_socket net \<and> step net e w = Inr w'"

interpretation server_work: work_queue "server_step net" world_ok work "\<lambda>e cs. Clear \<notin> set cs" for net
  by unfold_locales
    (auto simp: server_step_def progresses_def advances_def clear_commands dest: step_ok)

lemma run_events_ok:
  assumes "fresh_socket net" and "world_ok w" and "run_events net es w = Inr w'"
  shows "world_ok w' \<and> progresses w w'"
  using assms(3) unfolding run_events_def
proof (rule efold_invariant [where P = "\<lambda>v. world_ok v \<and> progresses w v"])
  show "world_ok w \<and> progresses w w" using assms(2) by (simp add: progresses_refl)
  show "world_ok t \<and> progresses w t" if "world_ok s \<and> progresses w s" "step net e s = Inr t" for e s t
    using that step_ok [OF assms(1)] progresses_trans by blast
qed

end
