(* ===== verification/WorldProps.thy ===== *)
theory WorldProps
  imports WorldInv ManagerProps "HOL-Library.Sublist"
begin

text \<open>
  Properties of whole runs: the invariant and the order of the write tasks, the way of the
  data from a target socket to its client, and the runs in which the code goes wrong.
\<close>

section \<open>The read loop\<close>

definition bytes_read :: "read_answer \<Rightarrow> u8 list" where
  "bytes_read a = (case a of Read_bytes bs \<Rightarrow> bs | _ \<Rightarrow> [])"

text \<open>What the kernel promises about one \<open>read\<close> into a buffer of \<open>SEGMENT_SIZE\<close> bytes.\<close>

definition read_ok :: "read_answer \<Rightarrow> bool" where
  "read_ok a \<longleftrightarrow> int (length (bytes_read a)) \<le> uint SEGMENT_SIZE"

lemma read_loop_spec:
  assumes "read_loop as b = Some (b', c)" and "list_all read_ok as" and "length b \<le> 63000000"
  shows "\<exists>bs. b' = b @ map Some bs \<and> prefix bs (concat (map bytes_read as)) \<and>
    length b' \<le> 63000000 + 20480"
  using assms
proof (induction as b rule: read_loop.induct)
  case (5 bs as b)
  show ?case
  proof (cases "bs = []")
    case True
    with 5 show ?thesis by (auto intro: exI [of _ "[]"])
  next
    case False
    let ?b = "b @ map Some bs"
    have l: "length bs \<le> 20480"
      using 5(3) by (simp add: read_ok_def bytes_read_def SEGMENT_SIZE_def)
    have u: "unat (of_nat (length ?b) :: size_t) = length ?b"
      using l 5(4) by (intro unat_of_size) simp
    have m: "MAX_WS_FRAME < of_nat (length ?b) \<longleftrightarrow> 63000000 < length ?b"
      unfolding word_less_nat_alt u by (simp add: MAX_WS_FRAME_def)
    show ?thesis
    proof (cases "63000000 < length ?b")
      case True
      with 5(2) False m have "b' = ?b" by (simp add: Let_def)
      with l 5(4) show ?thesis
        by (intro exI [of _ bs]) (simp add: bytes_read_def)
    next
      case False
      with 5(2) \<open>bs \<noteq> []\<close> m have r: "read_loop as ?b = Some (b', c)" by (simp add: Let_def)
      from 5(1) [OF \<open>bs \<noteq> []\<close> refl _ r] m False 5(3)
      obtain cs where "b' = ?b @ map Some cs" "prefix cs (concat (map bytes_read as))"
        "length b' \<le> 63000000 + 20480" by auto
      moreover have "bytes_read (Read_bytes bs) = bs" by (simp add: bytes_read_def)
      ultimately show ?thesis by (intro exI [of _ "bs @ cs"]) simp
    qed
  qed
qed (auto intro: exI [of _ "[]"])

text \<open>Enough answers end the loop: any answer that is no data, or data beyond the bound.\<close>

lemma read_loop_ends:
  "\<exists>a \<in> set as. bytes_read a = [] \<Longrightarrow> read_loop as b \<noteq> None"
  by (induction as b rule: read_loop.induct) (auto simp: bytes_read_def Let_def)

section \<open>Forwarding to the owner\<close>

definition forwarded :: "statuses \<Rightarrow> deferred \<Rightarrow> size_t \<Rightarrow> u32 \<Rightarrow> manager \<Rightarrow> manager" where
  "forwarded status df wid k m =
     (let m = emit (data_frame k (df_buffer df)) m
      in case status wid k of
           BACKPRESSURE \<Rightarrow> m\<lparr>has_backpressure := True\<rparr>
         | SUCCESS \<Rightarrow> m
         | DROPPED \<Rightarrow> m\<lparr>sent := butlast (sent m)\<rparr>)"

lemma forwarded_simps [simp]:
  "streams (forwarded status df wid k m) = streams m"
  "socket_id (forwarded status df wid k m) = socket_id m"
  "sent (forwarded status df wid k m) = sent m @ (if status wid k = DROPPED then [] else [data_frame k (df_buffer df)])"
  by (simp_all add: forwarded_def Let_def split: send_status.split)

definition owns :: "manager \<Rightarrow> u32 \<Rightarrow> int \<Rightarrow> bool" where
  "owns m k fd \<longleftrightarrow> (\<exists>d. map_of (streams m) k = Some d \<and> ss_fd d = fd)"

lemma fds_owns: "fd \<in> fds m \<longleftrightarrow> (\<exists>k. owns m k fd)"
  by (auto simp: fds_def owns_def)

lemma owns_unique: "manager_ok sh m \<Longrightarrow> owns m k fd \<Longrightarrow> owns m k' fd \<Longrightarrow> k' = k"
  unfolding manager_ok_def owns_def using ktab.uniqueD [where f = ss_fd] by metis

lemma forward_stream_cases:
  assumes "\<not> capturing sh" and "5 + length (df_buffer df) < 2 ^ 63"
  shows "forward_stream sh status wid df k (m, found) =
    Inr (if owns m k (df_fd df) then (forwarded status df wid k m, Some (wid, k)) else (m, found))"
proof -
  have "unat (of_nat (length (df_buffer df)) :: size_t) = length (df_buffer df)"
    using assms(2) by (intro unat_of_size) simp
  from send_data_frame [OF assms(1) this assms(2)] show ?thesis
    by (auto simp: forward_stream_def owns_def forwarded_def Let_def split: option.split send_status.split)
qed

lemma forward_streams:
  assumes "\<not> capturing sh" and "5 + length (df_buffer df) < 2 ^ 63" and "manager_ok sh m"
    and "distinct ks"
  shows "efold (forward_stream sh status wid df) ks (m, found) =
    Inr (case filter (\<lambda>k. owns m k (df_fd df)) ks of
           [] \<Rightarrow> (m, found)
         | k # _ \<Rightarrow> (forwarded status df wid k m, Some (wid, k)))"
proof -
  have none: "efold (forward_stream sh status wid df) ks (v, f) = Inr (v, f)"
    if "filter (\<lambda>k. owns v k (df_fd df)) ks = []" for ks v f
    using that by (induction ks) (simp_all add: forward_stream_cases [OF assms(1,2)] split: if_splits)
  show ?thesis
    using assms(4)
  proof (induction ks)
    case (Cons k ks)
    show ?case
    proof (cases "owns m k (df_fd df)")
      case True
      have "k \<notin> set ks" using Cons.prems by simp
      then have "\<forall>k' \<in> set ks. \<not> owns m k' (df_fd df)" using owns_unique [OF assms(3) True] by blast
      then have "filter (\<lambda>k. owns m k (df_fd df)) ks = []" by (simp add: filter_empty_conv)
      moreover have "owns (forwarded status df wid k m) k' fd = owns m k' fd" for k' fd
        by (simp add: owns_def)
      ultimately show ?thesis
        using True none [of "forwarded status df wid k m" ks]
        by (simp add: forward_stream_cases [OF assms(1,2)])
    next
      case False
      with Cons show ?thesis by (simp add: forward_stream_cases [OF assms(1,2)])
    qed
  qed simp
qed

text \<open>The same over the connections: \<open>the_owner\<close> is the one that has the descriptor.\<close>

definition the_owner :: "world \<Rightarrow> int \<Rightarrow> (size_t \<times> u32) option \<Rightarrow> bool" where
  "the_owner w fd r \<longleftrightarrow> (case r of
      None \<Rightarrow> \<forall>wid m. map_of (watched w) wid = Some m \<longrightarrow> fd \<notin> fds m
    | Some (wid, k) \<Rightarrow> \<exists>m. map_of (watched w) wid = Some m \<and> owns m k fd)"

lemma the_owner_ex: "\<exists>r. the_owner w fd r"
proof (cases "\<exists>wid m k. map_of (watched w) wid = Some m \<and> owns m k fd")
  case True
  then obtain wid m k where "map_of (watched w) wid = Some m" "owns m k fd" by blast
  then show ?thesis by (intro exI [of _ "Some (wid, k)"]) (simp add: the_owner_def)
next
  case False
  then show ?thesis by (intro exI [of _ None]) (auto simp: the_owner_def fds_owns)
qed

lemma update_same: "map_of xs k = Some v \<Longrightarrow> AList.update k v xs = xs"
  by (induction xs) auto

lemma filter_unique_key:
  assumes "distinct ks" and "k \<in> set ks" and "P k" and "\<And>k'. P k' \<Longrightarrow> k' = k"
  shows "filter P ks = [k]"
proof -
  have "filter P ks = filter (\<lambda>k'. k' = k) ks"
    by (rule filter_cong [OF refl]) (use assms(3,4) in blast)
  with filter_eq_single [OF assms(1,2)] show ?thesis by simp
qed

lemma owner_filter:
  assumes "manager_ok sh m" and "owns m k fd"
  shows "filter (\<lambda>k. owns m k fd) (map fst (streams m)) = [k]"
proof (rule filter_unique_key)
  show "distinct (map fst (streams m))" using assms(1) by (simp add: manager_ok_def keys_ok_def)
  show "k \<in> set (map fst (streams m))"
    using assms(2) key_in_keys [of "streams m" k] by (auto simp: owns_def)
qed (use assms owns_unique in blast)+

lemma forward_manager_other:
  assumes "\<not> capturing (common w)" and "5 + length (df_buffer df) < 2 ^ 63" and "managers_ok w"
    and "\<And>m. map_of (watched w) wid = Some m \<Longrightarrow> df_fd df \<notin> fds m"
  shows "forward_manager status df wid (w, found) = Inr (w, found)"
proof (cases "map_of (watched w) wid")
  case None
  then show ?thesis by (simp add: forward_manager_def)
next
  case (Some m)
  have ok: "manager_ok (common w) m" using managers_okD [OF assms(3) Some] by simp
  have d: "distinct (map fst (streams m))" using ok by (simp add: manager_ok_def keys_ok_def)
  have "filter (\<lambda>k. owns m k (df_fd df)) (map fst (streams m)) = []"
    using assms(4) [OF Some] unfolding fds_owns filter_empty_conv by blast
  with forward_streams [OF assms(1,2) ok d] Some show ?thesis
    by (simp add: forward_manager_def update_same)
qed

definition forwarded_to :: "statuses \<Rightarrow> deferred \<Rightarrow> (size_t \<times> u32) option \<Rightarrow> world \<Rightarrow> world" where
  "forwarded_to status df r w =
     (case r of
        None \<Rightarrow> w
      | Some (wid, k) \<Rightarrow> (case map_of (watched w) wid of
            None \<Rightarrow> w
          | Some m \<Rightarrow> w\<lparr>watched := AList.update wid (forwarded status df wid k m) (watched w)\<rparr>))"

lemma forward_manager_owner:
  assumes "\<not> capturing (common w)" and "5 + length (df_buffer df) < 2 ^ 63" and "managers_ok w"
    and "map_of (watched w) wid = Some m" and "owns m k (df_fd df)"
  shows "forward_manager status df wid (w, found) =
    Inr (forwarded_to status df (Some (wid, k)) w, Some (wid, k))"
proof -
  have ok: "manager_ok (common w) m" using managers_okD [OF assms(3,4)] by simp
  have d: "distinct (map fst (streams m))" using ok by (simp add: manager_ok_def keys_ok_def)
  from forward_streams [OF assms(1,2) ok d] owner_filter [OF ok assms(5)] assms(4) show ?thesis
    by (simp add: forward_manager_def forwarded_to_def)
qed

lemma forward_managers_none:
  assumes "\<not> capturing (common w)" and "5 + length (df_buffer df) < 2 ^ 63" and "managers_ok w"
    and "\<And>wid m. wid \<in> set wids \<Longrightarrow> map_of (watched w) wid = Some m \<Longrightarrow> df_fd df \<notin> fds m"
  shows "efold (forward_manager status df) wids (w, found) = Inr (w, found)"
  using assms(4)
proof (induction wids)
  case (Cons wid wids)
  have "forward_manager status df wid (w, found) = Inr (w, found)"
    by (rule forward_manager_other [OF assms(1-3)]) (rule Cons.prems, simp_all)
  moreover have "efold (forward_manager status df) wids (w, found) = Inr (w, found)"
    by (rule Cons.IH) (rule Cons.prems, simp_all)
  ultimately show ?case by simp
qed simp

lemma forwarded_to_lookup:
  assumes "map_of (watched w) wid = Some m"
  shows "map_of (watched (forwarded_to status df (Some (wid, k)) w)) =
    (map_of (watched w))(wid \<mapsto> forwarded status df wid k m)"
  using assms by (simp add: forwarded_to_def tab.lookup_assign)

lemma forwarded_to_simps [simp]:
  "common (forwarded_to status df r w) = common w"
  "deferreds (forwarded_to status df r w) = deferreds w"
  by (simp_all add: forwarded_to_def split: option.split prod.split)

lemma forward_managers:
  assumes "\<not> capturing (common w)" and "5 + length (df_buffer df) < 2 ^ 63" and "managers_ok w"
    and "the_owner w (df_fd df) r"
  shows "efold (forward_manager status df) (map fst (watched w)) (w, None) =
    Inr (forwarded_to status df r w, r)"
proof (cases r)
  case None
  with assms(4) show ?thesis
    by (subst forward_managers_none [OF assms(1-3)]) (auto simp: the_owner_def forwarded_to_def)
next
  case (Some wk)
  obtain wid k where r: "r = Some (wid, k)" using Some by (cases wk) simp
  with assms(4) obtain m where m: "map_of (watched w) wid = Some m" and o: "owns m k (df_fd df)"
    by (auto simp: the_owner_def)
  have fm: "df_fd df \<in> fds m" using o by (auto simp: fds_owns)
  let ?w = "forwarded_to status df (Some (wid, k)) w"
  have d: "distinct (map fst (watched w))" using assms(3) by (simp add: managers_ok_def keys_ok_def)
  have "wid \<in> set (map fst (watched w))" using m by (rule key_in_keys)
  then obtain xs ys where s: "map fst (watched w) = xs @ wid # ys" by (auto simp: in_set_conv_decomp)
  with d have n: "wid \<notin> set xs" "wid \<notin> set ys" by simp_all
  have other: "df_fd df \<notin> fds m2" if "map_of (watched w) wid2 = Some m2" "wid2 \<noteq> wid" for wid2 m2
    using assms(3) m that fm unfolding managers_ok_def by blast
  have f: "forward_manager status df wid (w, None) = Inr (?w, Some (wid, k))"
    by (rule forward_manager_owner [OF assms(1-3) m o])
  have w: "managers_ok ?w" using forward_manager_extends [OF assms(3) f] by (rule extends_ok)
  have "efold (forward_manager status df) xs (w, None) = Inr (w, None)"
    by (rule forward_managers_none [OF assms(1-3)]) (use other n in blast)
  moreover have "efold (forward_manager status df) ys (?w, Some (wid, k)) = Inr (?w, Some (wid, k))"
  proof (rule forward_managers_none [OF _ assms(2) w])
    show "\<not> capturing (common ?w)" using assms(1) by simp
    fix wid2 m2
    assume "wid2 \<in> set ys" "map_of (watched ?w) wid2 = Some m2"
    then show "df_fd df \<notin> fds m2"
      using n other by (auto simp: forwarded_to_lookup [OF m] split: if_splits)
  qed
  ultimately show ?thesis by (simp add: s efold_append f r)
qed

section \<open>Refreshing every connection\<close>

text \<open>The connections after a step that only announces credit.\<close>

definition grown :: "manager \<Rightarrow> manager \<Rightarrow> bool" where
  "grown m m' \<longleftrightarrow> (\<exists>cs. sent m' = sent m @ cs \<and> set cs \<subseteq> range (continue_frame 127)) \<and>
     (\<forall>k fd. owns m' k fd = owns m k fd)"

definition announces :: "world \<Rightarrow> world \<Rightarrow> bool" where
  "announces w w' \<longleftrightarrow> common w' = common w \<and>
     (\<forall>wid. rel_option grown (map_of (watched w) wid) (map_of (watched w') wid))"

lemma grown_refl [simp]: "grown m m"
  by (auto simp: grown_def)

lemma grown_trans: "grown m m1 \<Longrightarrow> grown m1 m2 \<Longrightarrow> grown m m2"
  unfolding grown_def by fastforce

lemma announces_refl: "announces w w"
  by (simp add: announces_def option.rel_refl)

lemma announces_trans:
  assumes "announces w w1" and "announces w1 w2"
  shows "announces w w2"
proof -
  have "rel_option grown (map_of (watched w) wid) (map_of (watched w2) wid)" for wid
  proof -
    have "rel_option grown (map_of (watched w) wid) (map_of (watched w1) wid)"
      "rel_option grown (map_of (watched w1) wid) (map_of (watched w2) wid)"
      using assms by (simp_all add: announces_def)
    then show ?thesis
      by (cases "map_of (watched w) wid"; cases "map_of (watched w1) wid"; cases "map_of (watched w2) wid")
        (auto intro: grown_trans)
  qed
  with assms show ?thesis by (simp add: announces_def)
qed

lemma refreshed_fd: "ss_fd (refreshed d) = ss_fd d"
  by (simp add: refreshed_def)

lemma refresh_manager_announces:
  assumes "managers_ok w"
  shows "\<exists>w'. refresh_manager wid w = Inr w' \<and> announces w w'"
proof (cases "map_of (watched w) wid")
  case None
  then show ?thesis using announces_refl by (auto simp: refresh_manager_def on_manager_def)
next
  case (Some m)
  have k: "keys_ok (streams m)" using managers_okD [OF assms Some] by (simp add: manager_ok_def)
  let ?r = "map (\<lambda>(k, d). (k, refreshed d)) (streams m)"
  let ?m = "if has_backpressure m \<or> MAX_QUEUE < send_queue_len (common w) then m
    else m\<lparr>streams := ?r, sent := sent m @ refresh_frames (streams m)\<rparr>"
  have r: "map_of ?r k = map_option refreshed (map_of (streams m) k)" for k
    by (rule map_of_map_values)
  have "owns (m\<lparr>streams := ?r, sent := s\<rparr>) k fd = owns m k fd" for k fd s
    using r by (auto simp: owns_def refreshed_fd)
  then have g: "grown m ?m"
    by (auto simp: grown_def refresh_frames_def BUFFER_COUNT_def)
  obtain m' where m': "update_streams (common w) m = Inr m'" and gm: "grown m m'"
    using update_streams_spec [OF k] g by blast
  let ?w = "w\<lparr>watched := AList.update wid m' (watched w), common := common w\<rparr>"
  have "refresh_manager wid w = Inr ?w"
    using Some m' by (simp add: refresh_manager_def on_manager_def)
  moreover have "announces w ?w"
    using Some gm by (auto simp: announces_def tab.lookup_assign option.rel_refl)
  ultimately show ?thesis by blast
qed

lemma efold_refresh_announces:
  assumes "managers_ok w" and "fresh_socket net"
  shows "\<exists>w'. efold refresh_manager wids w = Inr w' \<and> announces w w'"
  using assms(1)
proof (induction wids arbitrary: w)
  case Nil
  then show ?case using announces_refl by auto
next
  case (Cons wid wids)
  then obtain w1 where w1: "refresh_manager wid w = Inr w1" "announces w w1"
    using refresh_manager_announces by blast
  then have "managers_ok w1"
    using refresh_op.on_manager_extends [OF assms(2) Cons.prems] extends_ok
    unfolding refresh_manager_def by blast
  with Cons.IH obtain w2 where "efold refresh_manager wids w1 = Inr w2" "announces w1 w2" by blast
  with w1 show ?case using announces_trans by auto
qed

section \<open>A delivery\<close>

text \<open>
  What a delivery puts on the websocket \<open>wid\<close> when \<open>r\<close> is the owner of its descriptor; the data
  that uWebSockets drops is not there.
\<close>

definition told :: "statuses \<Rightarrow> deferred \<Rightarrow> (size_t \<times> u32) option \<Rightarrow> size_t \<Rightarrow> buffer list" where
  "told status df r wid = (case r of
      Some (owner, k) \<Rightarrow>
        if wid = owner
        then (if status wid k = DROPPED then [] else [data_frame k (df_buffer df)]) @
          (if df_to_close df then [close_frame 2 k] else [])
        else []
    | None \<Rightarrow> [])"

lemma close_after_forward:
  assumes "fresh_socket net" and "managers_ok w" and "\<not> capturing (common w)" and "the_owner w (df_fd df) r"
    and "extends w (forwarded_to status df r w)"
  shows "\<exists>w2. (case r of
       Some (wid, k) \<Rightarrow> if df_to_close df then on_manager wid (close_stream k False) (forwarded_to status df r w)
                       else Inr (forwarded_to status df r w)
     | None \<Rightarrow> Inr (forwarded_to status df r w)) = Inr w2 \<and> extends w w2 \<and>
    (\<forall>wid m. map_of (watched w) wid = Some m \<longrightarrow>
       (\<exists>m'. map_of (watched w2) wid = Some m' \<and> sent m' = sent m @ told status df r wid)) \<and>
    (r \<noteq> None \<longrightarrow> df_to_close df \<longrightarrow> df_fd df \<notin> set (open_fds (os_state (common w2))))"
proof (cases r)
  case None
  then show ?thesis using assms(2) by (simp add: forwarded_to_def told_def extends_refl)
next
  case (Some wk)
  obtain wid k where r: "r = Some (wid, k)" using Some by (cases wk) simp
  with assms(4) obtain m where m: "map_of (watched w) wid = Some m" and o: "owns m k (df_fd df)"
    by (auto simp: the_owner_def)
  let ?v = "forwarded_to status df (Some (wid, k)) w"
  let ?f = "forwarded status df wid k m"
  have l: "map_of (watched ?v) wid2 = (if wid2 = wid then Some ?f else map_of (watched w) wid2)" for wid2
    by (simp add: forwarded_to_lookup [OF m])
  show ?thesis
  proof (cases "df_to_close df")
    case False
    with r l m assms(5) show ?thesis by (auto simp: told_def)
  next
    case True
    from o obtain d where d: "map_of (streams ?f) k = Some d" "ss_fd d = df_fd df" by (auto simp: owns_def)
    let ?m = "(emit (close_frame 2 k) ?f)\<lparr>streams := AList.delete k (streams ?f)\<rparr>"
    let ?sh = "(common w)\<lparr>os_state := sys_close (ss_fd d) (os_state (common w)),
      finished_captures := finished_captures (common w)\<rparr>"
    let ?w = "?v\<lparr>watched := AList.update wid ?m (watched ?v), common := ?sh\<rparr>"
    have "close_stream k False (?f, common w) = Inr (?m, ?sh)"
      using close_stream_found [OF d(1), of "common w" False] assms(3) by simp
    then have c: "on_manager wid (close_stream k False) ?v = Inr ?w"
      using l by (simp add: on_manager_def)
    have "extends ?v ?w"
      using close_op.on_manager_extends [OF assms(1) _ c] extends_ok [OF assms(5)] r by simp
    then have "extends w ?w" using assms(5) r by (blast intro: extends_trans)
    with c l m d True r show ?thesis
      by (auto simp: told_def tab.lookup_assign os_defs)
  qed
qed

text \<open>The delivery as a whole.\<close>

lemma deliver_spec:
  assumes "fresh_socket net" and "managers_ok w" and "\<not> capturing (common w)"
    and "5 + length (df_buffer df) < 2 ^ 63" and "the_owner w (df_fd df) r"
  shows "\<exists>w'. deliver status df w = Inr w' \<and>
    (\<forall>wid m. map_of (watched w) wid = Some m \<longrightarrow>
       (\<exists>m' cs. map_of (watched w') wid = Some m' \<and> sent m' = sent m @ told status df r wid @ cs \<and>
          set cs \<subseteq> range (continue_frame 127))) \<and>
    (r \<noteq> None \<longrightarrow> df_to_close df \<longrightarrow> df_fd df \<notin> set (open_fds (os_state (common w'))))"
proof -
  let ?v = "forwarded_to status df r w"
  note f = forward_managers [OF assms(3,4,2,5)]
  have e: "extends w ?v" using assms(2) f by (rule forward_managers_extends)
  obtain w2 where c: "(case r of
       Some (wid, k) \<Rightarrow> if df_to_close df then on_manager wid (close_stream k False) ?v else Inr ?v
     | None \<Rightarrow> Inr ?v) = Inr w2" and e2: "extends w w2"
    and s: "\<And>wid m. map_of (watched w) wid = Some m \<Longrightarrow>
       \<exists>m'. map_of (watched w2) wid = Some m' \<and> sent m' = sent m @ told status df r wid"
    and closed: "r \<noteq> None \<longrightarrow> df_to_close df \<longrightarrow> df_fd df \<notin> set (open_fds (os_state (common w2)))"
    using close_after_forward [OF assms(1,2,3,5) e] by blast
  let ?w3 = "w2\<lparr>common := (common w2)\<lparr>send_queue_len := send_queue_len (common w2) - 1\<rparr>\<rparr>"
  have m3: "managers_ok ?w3"
    by (rule managers_ok_cong [OF extends_ok [OF e2]]) (use extends_ok [OF e2] in \<open>simp_all add: managers_ok_def\<close>)
  have d: "deliver status df w = (if send_queue_len (common ?w3) < MAX_QUEUE
      then efold refresh_manager (map fst (watched ?w3)) ?w3 else Inr ?w3)"
    using f c by (simp add: deliver_def Let_def)
  obtain w' where w': "deliver status df w = Inr w'" and a: "announces ?w3 w'"
    using efold_refresh_announces [OF m3 assms(1), of "map fst (watched ?w3)"] announces_refl [of ?w3] d
    by (cases "send_queue_len (common ?w3) < MAX_QUEUE") auto
  have "\<exists>m' cs. map_of (watched w') wid = Some m' \<and> sent m' = sent m @ told status df r wid @ cs \<and>
      set cs \<subseteq> range (continue_frame 127)" if m: "map_of (watched w) wid = Some m" for wid m
  proof -
    obtain m2 where m2: "map_of (watched w2) wid = Some m2" "sent m2 = sent m @ told status df r wid"
      using s [OF m] by blast
    have "rel_option grown (map_of (watched ?w3) wid) (map_of (watched w') wid)"
      using a by (simp add: announces_def)
    with m2(1) obtain m' where "map_of (watched w') wid = Some m'" "grown m2 m'"
      by (cases "map_of (watched w') wid") auto
    with m2(2) show ?thesis by (auto simp: grown_def)
  qed
  moreover have "common w' = common ?w3" using a by (simp add: announces_def)
  ultimately show ?thesis using w' closed by auto
qed

section \<open>Runs\<close>

lemma run_events_reaches:
  assumes "run_events net es w = Inr w'" and "reaches init (world_step net) w"
  shows "reaches init (world_step net) w'"
  using assms(1) unfolding run_events_def
proof (rule efold_invariant [where P = "reaches init (world_step net)"])
  show "reaches init (world_step net) t" if "reaches init (world_step net) s" "step net e s = Inr t" for e s t
    using that by (blast intro: reaches_step world_step.intros)
qed (rule assms(2))

definition connect_message :: "size_t \<Rightarrow> u32 \<Rightarrow> event" where
  "connect_message wid sid = Message wid 0 (frame PACKET_CONNECT sid (map Some connect_bytes)) 10"

definition data_message :: "size_t \<Rightarrow> u32 \<Rightarrow> u8 \<Rightarrow> event" where
  "data_message wid sid b = Message wid 0 (frame PACKET_DATA sid [Some b]) 6"

definition start_world :: "nat \<Rightarrow> world" where
  "start_world n = initial_world example_conf False n quiet_os"

text \<open>The writes to target sockets, in the order in which they were made.\<close>

definition writes :: "world \<Rightarrow> (int \<times> buffer) list" where
  "writes w = concat (map (\<lambda>c. case c of Sys_write fd b \<Rightarrow> [(fd, b)] | _ \<Rightarrow> []) (trace (os_state (common w))))"

definition sent_to :: "size_t \<Rightarrow> world \<Rightarrow> buffer list" where
  "sent_to wid w = (case map_of (watched w) wid of None \<Rightarrow> [] | Some m \<Rightarrow> sent m)"

lemma quiet_os_ok: "os_ok quiet_os"
  by (simp add: os_ok_def quiet_os_def)

lemma start_world_ok: "world_ok (start_world n)"
  using starts_ok [of example_conf False n quiet_os] by (simp add: starts_def start_world_def quiet_os_ok)

section \<open>Properties\<close>

text \<open>
  C8: In every reachable state of the server, whatever the clients, the targets, the pool and
  the scheduling do (short of a fault): each connection is entered under its own id; each
  stream under its own stream id; each stream has an open descriptor, which is not an end of
  the wake-up pipe and which no other stream of any connection uses; only open descriptors
  are watched, the wake-up pipe always is; \<open>send_queue_len\<close> is the number of deferred
  deliveries; and no more tasks are in execution than the pool has workers.
\<close>
theorem server_invariant:
  assumes "fresh_socket net" and "reaches (starts c pcap n s) (world_step net) w"
  shows "world_ok w"
  using server.inv_reaches [OF assms(2)] assms(1) by blast

theorem server_invariant_witness:
  "\<exists>w. run_events quiet_net [Open, connect_message 0 7, data_message 0 7 1, Dequeue] (start_world 2) = Inr w \<and>
     length (running w) = 1 \<and> world_ok w"
proof -
  have "ebind (run_events quiet_net [Open, connect_message 0 7, data_message 0 7 1, Dequeue] (start_world 2))
      (\<lambda>w. Inr (length (running w))) = (Inr 1 :: nat result)"
    by code_simp
  then obtain w where w: "run_events quiet_net [Open, connect_message 0 7, data_message 0 7 1, Dequeue]
      (start_world 2) = Inr w" "length (running w) = 1"
    by (auto simp: ebind_eq_Inr)
  have "reaches (starts example_conf False 2 quiet_os) (world_step quiet_net) (start_world 2)"
    by (rule reaches_init) (simp add: starts_def start_world_def quiet_os_ok)
  with w(1) have "reaches (starts example_conf False 2 quiet_os) (world_step quiet_net) w"
    by (rule run_events_reaches)
  from server_invariant [OF fresh_quiet_net this] w show ?thesis by blast
qed

text \<open>
  No write task is lost or duplicated: over any run, the tasks that have run, are running
  or are waiting are those from before plus those the run has queued. With a single worker
  they also keep their order, so the tasks run in the order in which their packets arrived.
\<close>
theorem tasks_kept:
  assumes "fresh_socket net" and "world_ok w" and "run_events net es w = Inr w'"
  shows "\<exists>ts. mset (history w') = mset (history w @ ts) \<and> (workers w \<le> 1 \<longrightarrow> history w' = history w @ ts)"
  using run_events_ok [OF assms] by (simp add: progresses_def)

theorem tasks_kept_witness:
  "\<exists>w ts. run_events quiet_net [Open, connect_message 0 7, data_message 0 7 1, data_message 0 7 2, Dequeue,
       Run 0 [Write_took 1]] (start_world 1) = Inr w \<and> length (executed w) = 1 \<and> history w = ts \<and> length ts = 2"
proof -
  let ?r = "run_events quiet_net [Open, connect_message 0 7, data_message 0 7 1, data_message 0 7 2, Dequeue,
       Run 0 [Write_took 1]] (start_world 1)"
  have "ebind ?r (\<lambda>w. Inr (length (executed w), length (history w))) = (Inr (1, 2) :: (nat \<times> nat) result)"
    by code_simp
  then obtain w where w: "?r = Inr w" "length (executed w) = 1" "length (history w) = 2"
    by (auto simp: ebind_eq_Inr)
  have "workers (start_world 1) \<le> 1" "history (start_world 1) = []"
    by (simp_all add: start_world_def initial_world_def history_def)
  with tasks_kept [OF fresh_quiet_net start_world_ok w(1)] w show ?thesis by auto
qed

definition example_deferred :: deferred where
  "example_deferred = \<lparr>df_buffer = [Some 65, Some 66], df_to_close = True, df_fd = 6\<rparr>"

definition example_world :: world where
  "example_world = \<lparr>watched = [(0, example_manager)], common = example_shared\<lparr>send_queue_len := 1\<rparr>,
     ready = [], deferreds = [example_deferred], running = [], executed = [], next_id = 1, workers = 2\<rparr>"

lemma example_world_ok: "world_ok example_world"
proof -
  have "fields_unique ss_fd (streams example_manager)"
    by (auto simp: fields_unique_def example_manager_def split: if_splits)
  then have "manager_ok (example_shared\<lparr>send_queue_len := 1\<rparr>) example_manager"
    by (auto simp: manager_ok_def stream_ok_def example_manager_def example_stream_def fresh_stream_def
        example_shared_def keys_ok_def capturing_def example_conf_def)
  moreover have "os_ok (os_state example_shared)" by (simp add: os_ok_def example_shared_def)
  ultimately show ?thesis
    by (simp add: world_ok_def managers_ok_def example_world_def keys_ok_def example_manager_def)
qed

text \<open>
  C7: A delivery hands the bytes read from a target socket, as one DATA frame under the right
  stream id, to the connection that owns the descriptor, followed by a CLOSE (and the release
  of the descriptor) when the target is done; every other connection gets nothing but credit
  announcements. When no connection owns the descriptor the bytes are dropped. Of a frame that
  uWebSockets reports as dropped nothing arrives, though the stream goes on.
\<close>
theorem deliver_to_owner:
  assumes "fresh_socket net" and "world_ok w" and "deferreds w = df # dfs" and "\<not> capturing (common w)"
    and "5 + length (df_buffer df) < 2 ^ 63" and "the_owner w (df_fd df) r"
  shows "\<exists>w'. step net (Deliver status) w = Inr w' \<and>
    (\<forall>wid m. map_of (watched w) wid = Some m \<longrightarrow>
       (\<exists>m' cs. map_of (watched w') wid = Some m' \<and> sent m' = sent m @ told status df r wid @ cs \<and>
          set cs \<subseteq> range (continue_frame 127))) \<and>
    (r \<noteq> None \<longrightarrow> df_to_close df \<longrightarrow> df_fd df \<notin> set (open_fds (os_state (common w'))))"
proof -
  let ?w = "w\<lparr>deferreds := dfs\<rparr>"
  have "managers_ok ?w"
    by (rule managers_ok_cong [OF world_ok_managers [OF assms(2)]])
      (use assms(2) in \<open>simp_all add: world_ok_def managers_ok_def\<close>)
  moreover have "the_owner ?w (df_fd df) r" using assms(6) by (auto simp: the_owner_def split: option.splits)
  ultimately show ?thesis
    using deliver_spec [OF assms(1), of ?w df r status] assms(3-5) by simp
qed

theorem deliver_to_owner_witness:
  "\<exists>w' m'. step quiet_net (Deliver (\<lambda>wid k. SUCCESS)) example_world = Inr w' \<and>
     map_of (watched w') 0 = Some m' \<and> prefix [data_frame 7 [Some 65, Some 66], close_frame 2 7] (sent m') \<and>
     6 \<notin> set (open_fds (os_state (common w')))"
proof -
  have d: "deferreds example_world = example_deferred # []" "\<not> capturing (common example_world)"
    "5 + length (df_buffer example_deferred) < 2 ^ 63" "map_of (watched example_world) 0 = Some example_manager"
    by (simp_all add: example_world_def example_deferred_def)
  have "the_owner example_world (df_fd example_deferred) (Some (0, 7))"
    by (simp add: the_owner_def d owns_def example_deferred_def example_stream_def fresh_stream_def)
  from deliver_to_owner [OF fresh_quiet_net example_world_ok d(1-3) this, of "\<lambda>wid k. SUCCESS"] d(4)
  obtain w' m' cs where "step quiet_net (Deliver (\<lambda>wid k. SUCCESS)) example_world = Inr w'"
    "map_of (watched w') 0 = Some m'" "sent m' = sent example_manager @ told (\<lambda>wid k. SUCCESS) example_deferred (Some (0, 7)) 0 @ cs"
    "df_to_close example_deferred \<longrightarrow> df_fd example_deferred \<notin> set (open_fds (os_state (common w')))"
    by blast
  then show ?thesis
    by (simp add: example_manager_def told_def example_deferred_def)
qed

text \<open>
  C12: The disconnection of a client removes its connection and no other, closes and unwatches
  exactly the descriptors of its streams, and so leaves every stream of every other
  connection with an open descriptor.
\<close>
theorem close_socket_isolated:
  assumes "world_ok w" and "\<not> capturing (common w)" and "map_of (watched w) wid = Some m"
  shows "\<exists>w'. step net (Close wid) w = Inr w' \<and>
    map_of (watched w') = (map_of (watched w))(wid := None) \<and>
    set (open_fds (os_state (common w'))) = set (open_fds (os_state (common w))) - fds m \<and>
    set (interest (os_state (common w'))) = set (interest (os_state (common w))) - fds m \<and>
    (\<forall>wid2 m2. map_of (watched w') wid2 = Some m2 \<longrightarrow> fds m2 \<subseteq> set (open_fds (os_state (common w'))))"
proof -
  have ok: "managers_ok w" using assms(1) by (rule world_ok_managers)
  have k: "keys_ok (streams m)" using managers_okD [OF ok assms(3)] by (simp add: manager_ok_def)
  obtain fin where f: "force_close (m, common w) =
    Inr (m\<lparr>streams := [], has_backpressure := False,
            sent := sent m @ map (\<lambda>(k, d). close_frame 2 k) (streams m)\<rparr>,
         (common w)\<lparr>os_state := fold (\<lambda>(k, d). sys_close (ss_fd d)) (streams m) (os_state (common w)),
            finished_captures := fin\<rparr>)"
    using force_close_spec [OF k] assms(2) by blast
  have c: "(ss_fd \<circ> snd) ` set (streams m) = fds m"
    using tab.entries_lookup [OF k] unfolding fds_def by force
  have other: "fds m2 \<subseteq> set (open_fds (os_state (common w))) - fds m"
    if "map_of (watched w) wid2 = Some m2" "wid2 \<noteq> wid" for wid2 m2
  proof -
    have "fds m2 \<inter> fds m = {}" using ok assms(3) that unfolding managers_ok_def by blast
    moreover have "fds m2 \<subseteq> set (open_fds (os_state (common w)))"
      using managers_okD [OF ok that(1)] fds_open by blast
    ultimately show ?thesis by blast
  qed
  let ?s = "fold (\<lambda>(k, d). sys_close (ss_fd d)) (streams m) (os_state (common w))"
  have s: "set (open_fds ?s) = set (open_fds (os_state (common w))) - fds m"
    "set (interest ?s) = set (interest (os_state (common w))) - fds m"
    unfolding fold_sys_close c by auto
  obtain w' where w': "step net (Close wid) w = Inr w'"
    "map_of (watched w') = (map_of (watched w))(wid := None)" "os_state (common w') = ?s"
    using assms(3) f by (simp add: close_socket_def on_manager_def tab.lookup_erase tab.lookup_assign)
  then show ?thesis
    using other s by (auto split: if_splits)
qed

theorem close_socket_isolated_witness:
  "\<exists>w'. step quiet_net (Close 0) example_world = Inr w' \<and> map_of (watched w') 0 = None \<and>
     6 \<notin> set (open_fds (os_state (common w')))"
proof -
  have d: "\<not> capturing (common example_world)" "map_of (watched example_world) 0 = Some example_manager"
    by (simp_all add: example_world_def)
  have "6 \<in> fds example_manager"
    by (auto simp: fds_def example_manager_def example_stream_def fresh_stream_def)
  then show ?thesis using close_socket_isolated [OF example_world_ok d, of quiet_net] by auto
qed

text \<open>
  C31: The read loop of the watcher ends on the first answer that brings no bytes; what it hands
  over is an initial part of the bytes the socket has delivered, in order, and never more
  than \<open>MAX_WS_FRAME\<close> plus one segment.
\<close>
theorem read_loop_bounded:
  assumes "list_all read_ok as" and "\<exists>a \<in> set as. bytes_read a = []"
  shows "\<exists>bs c. read_loop as [] = Some (map Some bs, c) \<and> prefix bs (concat (map bytes_read as)) \<and>
    length bs \<le> 63000000 + 20480"
proof -
  obtain b c where r: "read_loop as [] = Some (b, c)"
    using read_loop_ends [OF assms(2), of "[]"] by (cases "read_loop as []") auto
  from read_loop_spec [OF r assms(1)] r show ?thesis by auto
qed

theorem read_loop_bounded_witness:
  "\<exists>bs c. read_loop [Read_bytes [1, 2], Read_bytes [3], Read_again] [] = Some (map Some bs, c) \<and>
     prefix bs [1, 2, 3]"
proof -
  have "list_all read_ok [Read_bytes [1, 2], Read_bytes [3], Read_again]"
    "\<exists>a \<in> set [Read_bytes [1, 2], Read_bytes [3], Read_again]. bytes_read a = []"
    by (simp_all add: read_ok_def bytes_read_def SEGMENT_SIZE_def)
  from read_loop_bounded [OF this] show ?thesis by (auto simp: bytes_read_def)
qed

text \<open>
  With two workers the order is lost: two DATA packets of one TCP stream, dequeued in
  order, may be written to the target socket in the opposite order.
\<close>
theorem two_workers_reorder:
  "ebind (run_events quiet_net [Open, connect_message 0 7, data_message 0 7 1, data_message 0 7 2,
       Dequeue, Dequeue, Run 1 [Write_took 1], Run 0 [Write_took 1]] (start_world 2)) (\<lambda>w. Inr (writes w)) =
     (Inr [(6, [Some 2]), (6, [Some 1])] :: (int \<times> buffer) list result)"
  by code_simp

text \<open>
  A write task does not keep its connection alive: when the client disconnects while one
  of its packets is still queued, the manager is deleted and the task then uses it.
\<close>
theorem task_outlives_manager:
  "run_events quiet_net [Open, connect_message 0 7, data_message 0 7 1, Close 0, Dequeue,
     Run 0 [Write_took 1]] (start_world 2) = Inl Use_after_free"
  by code_simp

text \<open>
  A write task does not keep its stream alive either: when the target closes the connection
  before the task runs, the task dereferences the end iterator of the table.
\<close>
theorem task_outlives_stream:
  "run_events quiet_net [Open, connect_message 0 7, data_message 0 7 1, Wait [6], Watch [Read_eof],
     Deliver (\<lambda>wid k. SUCCESS), Dequeue, Run 0 [Write_took 1]] (start_world 2) = Inl End_iterator"
  by code_simp

text \<open>
  A delivery is for whoever owns the descriptor when it runs: when the data was read for a
  client that has since disconnected and its descriptor number was given to a new client,
  the new client gets the old client's data.
\<close>
theorem delivery_to_wrong_client:
  "ebind (run_events quiet_net [Open, connect_message 0 7, Wait [6], Watch [Read_bytes [65], Read_again],
       Close 0, Open, connect_message 1 9, Deliver (\<lambda>wid k. SUCCESS)] (start_world 2))
     (\<lambda>w. Inr (sent_to 1 w)) =
   (Inr [continue_frame 127 0, data_frame 9 [Some 65]] :: buffer list result)"
  by code_simp

end
