(* ===== verification/EndToEnd.thy ===== *)
theory EndToEnd
  imports WorldProps
begin

text \<open>
  The server end to end: what a target sends arrives at its client, and what a client sends
  arrives at its target, complete, once and in order, whatever else the server does in
  between. Both directions are instances of one locale, a channel that conserves the bytes
  put into it: what has come out, followed by what is under way, grows exactly by what goes
  in.
\<close>

section \<open>Channels\<close>

text \<open>A property of every step of a run, which must not fault, and what its steps put in.\<close>

primrec continue_with :: "'b \<Rightarrow> 's result \<Rightarrow> ('s \<Rightarrow> 'b) \<Rightarrow> 'b" where
  "continue_with b (Inl f) g = b"
| "continue_with b (Inr t) g = g t"

fun along :: "('e \<Rightarrow> 's \<Rightarrow> 's result) \<Rightarrow> ('e \<Rightarrow> 's \<Rightarrow> bool) \<Rightarrow> 'e list \<Rightarrow> 's \<Rightarrow> bool" where
  "along stp guard [] s = True"
| "along stp guard (e # es) s = (guard e s \<and> continue_with False (stp e s) (along stp guard es))"

fun collect :: "('e \<Rightarrow> 's \<Rightarrow> 's result) \<Rightarrow> ('e \<Rightarrow> 's \<Rightarrow> 'b list) \<Rightarrow> 'e list \<Rightarrow> 's \<Rightarrow> 'b list" where
  "collect stp input [] s = []"
| "collect stp input (e # es) s = input e s @ continue_with [] (stp e s) (collect stp input es)"

lemma continue_with_True: "continue_with False r g \<longleftrightarrow> (\<exists>t. r = Inr t \<and> g t)"
  by (cases r) simp_all

lemma along_returns: "along stp guard es s \<Longrightarrow> \<exists>t. efold stp es s = Inr t"
  by (induction es arbitrary: s) (auto simp: continue_with_True)

locale channel =
  fixes stp :: "'e \<Rightarrow> 's \<Rightarrow> 's result"
    and ok :: "'s \<Rightarrow> bool"
    and guard :: "'e \<Rightarrow> 's \<Rightarrow> bool"
    and input :: "'e \<Rightarrow> 's \<Rightarrow> 'b list"
    and delivered :: "'s \<Rightarrow> 'b list"
    and under_way :: "'s \<Rightarrow> 'b list"
  assumes ok_step: "ok s \<Longrightarrow> guard e s \<Longrightarrow> stp e s = Inr t \<Longrightarrow> ok t"
    and conserves: "ok s \<Longrightarrow> guard e s \<Longrightarrow> stp e s = Inr t \<Longrightarrow>
      delivered t @ under_way t = delivered s @ under_way s @ input e s"
begin

lemma run_conserves:
  assumes "along stp guard es s" and "efold stp es s = Inr t" and "ok s"
  shows "ok t \<and> delivered t @ under_way t = delivered s @ under_way s @ collect stp input es s"
  using assms
proof (induction es arbitrary: s)
  case (Cons e es)
  then obtain u where u: "stp e s = Inr u" "along stp guard es u" "guard e s" "efold stp es u = Inr t"
    by (auto simp: continue_with_True)
  have "ok t \<and> delivered t @ under_way t = delivered u @ under_way u @ collect stp input es u"
    using u ok_step [OF Cons.prems(3) u(3,1)] by (intro Cons.IH)
  with conserves [OF Cons.prems(3) u(3,1)] u(1) show ?case by simp
qed simp

end

section \<open>What an operation on one connection sends and writes\<close>

text \<open>The frames that carry no data, and the bytes written to a descriptor.\<close>

definition control :: "buffer \<Rightarrow> bool" where
  "control f \<longleftrightarrow> (\<exists>reason k. f = close_frame reason k) \<or> (\<exists>n k. f = continue_frame n k)"

lemma control_frames [simp]: "control (close_frame reason k)" "control (continue_frame n k)"
  by (auto simp: control_def)

definition target_bytes :: "int \<Rightarrow> os \<Rightarrow> buffer" where
  "target_bytes fd s = concat (map (\<lambda>c. case c of Sys_write fd' b \<Rightarrow> if fd' = fd then b else [] | _ \<Rightarrow> []) (trace s))"

lemma target_bytes_sys:
  "target_bytes fd (sys c s) = target_bytes fd s @ (case c of Sys_write fd' b \<Rightarrow> if fd' = fd then b else [] | _ \<Rightarrow> [])"
  by (simp add: target_bytes_def sys_def)

lemma target_bytes_simps [simp]:
  "target_bytes fd (wake s) = target_bytes fd s" "target_bytes fd (drain_pipe s) = target_bytes fd s"
  "target_bytes fd (push_fd fd' s) = target_bytes fd s" "target_bytes fd (snd (erase_fd fd' s)) = target_bytes fd s"
  "target_bytes fd (sys_close fd' s) = target_bytes fd s"
  "target_bytes fd (s\<lparr>open_fds := os\<rparr>) = target_bytes fd s"
  by (simp_all add: target_bytes_def os_defs)

text \<open>
  The operation appends control frames to what has been sent, writes nothing to a target,
  takes nothing out of the wake-up pipe and queues the tasks \<open>ts\<close>.
\<close>

definition traffic :: "write_task list \<Rightarrow> manager \<times> shared \<Rightarrow> manager \<times> shared \<Rightarrow> bool" where
  "traffic ts ms ms' \<longleftrightarrow> (case (ms, ms') of ((m, sh), (m', sh')) \<Rightarrow>
     (\<exists>cs. sent m' = sent m @ cs \<and> list_all control cs) \<and> tasks sh' = tasks sh @ ts \<and>
     pipe_bytes (os_state sh) \<le> pipe_bytes (os_state sh') \<and>
     (\<forall>fd. target_bytes fd (os_state sh') = target_bytes fd (os_state sh)))"

lemma pipe_bytes_simps [simp]:
  "pipe_bytes (push_fd fd s) = pipe_bytes s" "pipe_bytes (snd (erase_fd fd s)) = pipe_bytes s"
  "pipe_bytes (sys_close fd s) = pipe_bytes s" "pipe_bytes (sys c s) = pipe_bytes s"
  "pipe_bytes (wake s) = pipe_bytes s + 2"
  by (simp_all add: os_defs)

lemma traffic_refl: "traffic [] ms ms"
  by (cases ms) (auto simp: traffic_def)

lemma traffic_trans: "traffic ts ms ms1 \<Longrightarrow> traffic us ms1 ms2 \<Longrightarrow> traffic (ts @ us) ms ms2"
  by (cases ms; cases ms1; cases ms2) (fastforce simp: traffic_def)

locale traffic_operation = manager_operation +
  fixes queues :: "manager \<Rightarrow> write_task list"
  assumes f_traffic: "manager_ok sh m \<Longrightarrow> f net (m, sh) = Inr (m', sh') \<Longrightarrow>
    traffic (queues m) (m, sh) (m', sh')"


subsection \<open>The operations\<close>

lemma traffic_flags:
  "sent m' = sent m \<Longrightarrow> tasks sh' = tasks sh \<Longrightarrow> pipe_bytes (os_state sh) \<le> pipe_bytes (os_state sh') \<Longrightarrow> (\<And>fd. target_bytes fd (os_state sh') = target_bytes fd (os_state sh)) \<Longrightarrow>
     traffic [] (m, sh) (m', sh')"
  by (simp add: traffic_def)

lemma traffic_emit: "control f \<Longrightarrow> traffic [] (m, sh) (emit f m, sh)"
  by (simp add: traffic_def)

lemma refresh_traffic: "refresh_stream k m = Inr m' \<Longrightarrow> traffic [] (m, sh) (m', sh)"
  by (auto simp: refresh_stream_def send_simps traffic_def split: option.splits if_splits)

lemma update_streams_traffic:
  assumes "update_streams sh m = Inr m'"
  shows "traffic [] (m, sh) (m', sh)"
proof (cases "has_backpressure m \<or> MAX_QUEUE < send_queue_len sh")
  case True
  with assms show ?thesis by (simp add: update_streams_def traffic_refl)
next
  case False
  with assms have "efold refresh_stream (map fst (streams m)) m = Inr m'" by (simp add: update_streams_def)
  then show ?thesis
  proof (rule efold_invariant [where P = "\<lambda>v. traffic [] (m, sh) (v, sh)"])
    show "traffic [] (m, sh) (v, sh)" if "traffic [] (m, sh) (u, sh)" "refresh_stream k u = Inr v" for k u v
      using traffic_trans [OF that(1) refresh_traffic [OF that(2)]] by simp
  qed (rule traffic_refl)
qed

lemma drain_traffic:
  assumes "update_streams sh (m\<lparr>has_backpressure := False\<rparr>) = Inr m'"
  shows "traffic [] (m, sh) (m', sh\<lparr>os_state := wake (os_state sh)\<rparr>)"
  using update_streams_traffic [OF assms] by (simp add: traffic_def)

lemma close_traffic: "close_stream sid remove_poll ms = Inr ms' \<Longrightarrow> traffic [] ms ms'"
  by (cases ms; cases ms')
    (auto simp: close_stream_def send_simps traffic_def ebind_eq_Inr Let_def split: option.splits if_splits)

lemma force_close_traffic:
  assumes "force_close ms = Inr ms'"
  shows "traffic [] ms ms'"
proof -
  obtain m sh where ms: "ms = (m, sh)" by fastforce
  have "efold (\<lambda>id. close_stream id True) (map fst (streams m)) (m\<lparr>has_backpressure := False\<rparr>, sh) = Inr ms'"
    using assms by (simp add: force_close_def ms)
  then have "traffic [] (m\<lparr>has_backpressure := False\<rparr>, sh) ms'"
  proof (rule efold_invariant)
    show "traffic [] (m\<lparr>has_backpressure := False\<rparr>, sh) v"
      if "traffic [] (m\<lparr>has_backpressure := False\<rparr>, sh) u" "close_stream k True u = Inr v" for k u v
      using traffic_trans [OF that(1) close_traffic [OF that(2)]] by simp
  qed (rule traffic_refl)
  then show ?thesis unfolding ms by (cases ms') (simp add: traffic_def)
qed

lemma open_stream_bytes:
  assumes "open_stream c net host type port s = Inr (r, s')"
  shows "target_bytes fd s' = target_bytes fd s \<and> pipe_bytes s' = pipe_bytes s"
proof -
  have "target_bytes fd s' = target_bytes fd s \<and> pipe_bytes s' = pipe_bytes s" if "attempt net h ty port s = (r, s')" for h ty
    using that
    by (auto simp: attempt_def resolve_def target_bytes_sys Let_def split: option.splits if_splits)
  with open_stream_attempt [OF assms] show ?thesis by blast
qed

lemma handle_connect_traffic:
  assumes "handle_connect net now p (m, sh) = Inr (r, m', sh')"
  shows "traffic [] (m, sh) (m', sh')"
proof -
  obtain c where c: "ConnectPacket (data p) (data_len p) = Inr c"
    using assms by (auto simp: handle_connect_def ebind_eq_Inr)
  obtain con os1 where o: "open_stream (get_conf (conf sh)) net (destination_hostname c) (stream_type c)
      (destination_port c) (os_state sh) = Inr (con, os1)"
    using assms c by (auto simp: handle_connect_def ebind_eq_Inr)
  have "sent m' = sent m \<and> tasks sh' = tasks sh \<and> (os_state sh' = os1 \<or> (\<exists>fd. os_state sh' = wake (push_fd fd os1)))"
  proof (cases con)
    case None
    with assms c o show ?thesis by (auto simp: handle_connect_def)
  next
    case (Some q)
    obtain fd ai where q: "q = (fd, ai)" by fastforce
    let ?sh = "sh\<lparr>os_state := os1\<rparr>"
    let ?d = "fresh_stream (stream_type c) (stream_id p) fd ai"
    obtain d sh2 where d: "(if capturing ?sh then open_pcap now (ai_addr ai) (destination_port c) ?sh ?d
        else Inr (?d, ?sh)) = Inr (d, sh2)"
      and r: "m' = m\<lparr>streams := AList.update (stream_id p) d (streams m)\<rparr>"
        "sh' = sh2\<lparr>os_state := wake (push_fd fd (os_state sh2))\<rparr>"
      using assms c o Some q unfolding handle_connect_def Let_def fresh_stream_def [symmetric]
      by (auto simp: ebind_eq_Inr simp del: capturing_frame)
    have "tasks sh2 = tasks sh \<and> os_state sh2 = os1"
    proof (cases "capturing ?sh")
      case True
      with d have "open_pcap now (ai_addr ai) (destination_port c) ?sh ?d = Inr (d, sh2)" by (simp only: if_True)
      then show ?thesis by (auto simp: open_pcap_def Let_def ebind_eq_Inr)
    next
      case False
      with d have "sh2 = ?sh" by (simp del: capturing_frame)
      then show ?thesis by simp
    qed
    with r show ?thesis by auto
  qed
  then show ?thesis using open_stream_bytes [OF o] by (intro traffic_flags) auto
qed

definition task_for :: "manager \<Rightarrow> wisp_packet \<Rightarrow> write_task list" where
  "task_for m p =
     (if packet_type p = PACKET_DATA \<and> map_of (streams m) (stream_id p) \<noteq> None
      then [\<lparr>wt_this = socket_id m, wt_packet = p\<rparr>] else [])"

lemma handle_data_traffic:
  "handle_data p (m, sh) = Inr (r, m', sh') \<Longrightarrow> packet_type p = PACKET_DATA \<Longrightarrow>
     traffic (task_for m p) (m, sh) (m', sh')"
  by (auto simp: handle_data_def task_for_def traffic_def send_simps Let_def split: option.splits if_splits)

definition message_tasks :: "buffer \<Rightarrow> size_t \<Rightarrow> manager \<Rightarrow> write_task list" where
  "message_tasks rcv n m = (case WispPacket rcv n of Inl e \<Rightarrow> [] | Inr p \<Rightarrow> task_for m p)"

lemma task_for_noted [simp]: "task_for (noted m) p = task_for m p"
  by (simp add: task_for_def)

lemma noted_traffic: "traffic ts (noted m, sh) ms' \<Longrightarrow> traffic ts (m, sh) ms'"
  by (cases ms') (simp add: traffic_def)

lemma receive_traffic:
  assumes "receive net now rcv n (m, sh) = Inr (m', sh')"
  shows "traffic (message_tasks rcv n m) (m, sh) (m', sh')"
proof -
  obtain p where p: "WispPacket rcv n = Inr p" using assms by (auto simp: receive_def ebind_eq_Inr)
  have r: "(if packet_type p = PACKET_INFO then Inr (m, sh)
     else if packet_type p = PACKET_CONNECT then
       ebind (handle_connect net now p (noted m, sh)) (\<lambda>(ret, m, sh).
         if ret = None then ebind (send_close 0x41 (stream_id p) m) (\<lambda>m. Inr (m, sh)) else Inr (m, sh))
     else if packet_type p = PACKET_DATA then ebind (handle_data p (noted m, sh)) (\<lambda>(ret, m, sh). Inr (m, sh))
     else Inr (noted m, sh)) = Inr (m', sh')"
    using assms p unfolding receive_def by (simp add: noted_def Let_def cong: if_cong)
  have t: "message_tasks rcv n m = task_for m p" by (simp add: message_tasks_def p)
  consider (data) "packet_type p = PACKET_DATA" | (connect) "packet_type p = PACKET_CONNECT"
    | (other) "packet_type p \<noteq> PACKET_DATA" "packet_type p \<noteq> PACKET_CONNECT" by blast
  then show ?thesis
  proof cases
    case data
    with r have "ebind (handle_data p (noted m, sh)) (\<lambda>(ret, m, sh). Inr (m, sh)) = Inr (m', sh')"
      by (simp add: packet_types)
    then obtain ret where "handle_data p (noted m, sh) = Inr (ret, m', sh')"
      by (auto simp: ebind_eq_Inr)
    from handle_data_traffic [OF this data] show ?thesis
      by (simp add: t noted_traffic)
  next
    case connect
    with r have "ebind (handle_connect net now p (noted m, sh)) (\<lambda>(ret, m, sh).
        if ret = None then ebind (send_close 0x41 (stream_id p) m) (\<lambda>m. Inr (m, sh)) else Inr (m, sh)) = Inr (m', sh')"
      by (simp add: packet_types)
    then obtain ret m1 where h: "handle_connect net now p (noted m, sh) = Inr (ret, m1, sh')"
      and m': "m' = m1 \<or> m' = emit (close_frame 0x41 (stream_id p)) m1"
      by (auto simp: ebind_eq_Inr send_simps split: if_splits)
    have "traffic [] (m1, sh') (m', sh')" using m' by (auto intro: traffic_refl traffic_emit)
    with handle_connect_traffic [OF h] have "traffic ([] @ []) (noted m, sh) (m', sh')" by (rule traffic_trans)
    with connect show ?thesis by (simp add: t task_for_def packet_types noted_traffic)
  next
    case other
    with r have "(m' = m \<or> m' = noted m) \<and> sh' = sh" by (auto split: if_splits)
    with other show ?thesis unfolding t by (auto simp: task_for_def intro!: traffic_flags)
  qed
qed

interpretation receive_io: traffic_operation "\<lambda>net. receive net now rcv n" "message_tasks rcv n" for now rcv n
  by unfold_locales (rule receive_traffic)

interpretation close_io: traffic_operation "\<lambda>net. close_stream sid remove_poll" "\<lambda>m. []" for sid remove_poll
  by unfold_locales (rule close_traffic)

interpretation force_close_io: traffic_operation "\<lambda>net. force_close" "\<lambda>m. []"
  by unfold_locales (rule force_close_traffic)

interpretation refresh_io: traffic_operation
  "\<lambda>net (m, sh). ebind (update_streams sh m) (\<lambda>m'. Inr (m', sh))" "\<lambda>m. []"
  by unfold_locales (auto simp: ebind_eq_Inr intro: update_streams_traffic)

interpretation drain_io: traffic_operation
  "\<lambda>net (m, sh). ebind (update_streams sh (m\<lparr>has_backpressure := False\<rparr>)) (\<lambda>m'.
     Inr (m', sh\<lparr>os_state := wake (os_state sh)\<rparr>))" "\<lambda>m. []"
  by unfold_locales (auto simp: ebind_eq_Inr intro: drain_traffic)

section \<open>What a step of the server sends and writes\<close>

text \<open>
  Nothing but control frames is sent, nothing is written to a target, the events, deliveries and
  tasks under way stay, no byte is taken out of the wake-up pipe, and \<open>ts\<close> are queued behind them.
\<close>

definition still :: "world \<Rightarrow> world \<Rightarrow> bool" where
  "still w w' \<longleftrightarrow> ready w' = ready w \<and> pipe_bytes (os_state (common w)) \<le> pipe_bytes (os_state (common w')) \<and>
     deferreds w' = deferreds w \<and> running w' = running w \<and> tasks (common w') = tasks (common w) \<and>
     (\<forall>fd. target_bytes fd (os_state (common w')) = target_bytes fd (os_state (common w)))"

definition calm :: "write_task list \<Rightarrow> world \<Rightarrow> world \<Rightarrow> bool" where
  "calm ts w w' \<longleftrightarrow> ready w' = ready w \<and> pipe_bytes (os_state (common w)) \<le> pipe_bytes (os_state (common w')) \<and>
     deferreds w' = deferreds w \<and> running w' = running w \<and> tasks (common w') = tasks (common w) @ ts \<and>
     (\<forall>fd. target_bytes fd (os_state (common w')) = target_bytes fd (os_state (common w))) \<and>
     (\<forall>wid m. map_of (watched w) wid = Some m \<longrightarrow>
        (\<exists>m' cs. map_of (watched w') wid = Some m' \<and> sent m' = sent m @ cs \<and> list_all control cs))"

lemma still_refl: "still w w"
  by (simp add: still_def)

lemma still_trans: "still w w1 \<Longrightarrow> still w1 w2 \<Longrightarrow> still w w2"
  by (simp add: still_def)

lemma calm_still: "calm [] w w' \<Longrightarrow> still w w'"
  by (simp add: calm_def still_def)

lemma calm_refl: "calm [] w w"
  by (simp add: calm_def)

context traffic_operation
begin

lemma on_manager_calm:
  assumes "managers_ok w" and "on_manager wid (f net) w = Inr w'"
  shows "calm (case map_of (watched w) wid of None \<Rightarrow> [] | Some m \<Rightarrow> queues m) w w'"
proof (cases "map_of (watched w) wid")
  case None
  with assms show ?thesis by (simp add: on_manager_def calm_refl)
next
  case (Some m)
  with assms(2) obtain m' sh' where f: "f net (m, common w) = Inr (m', sh')"
    and w': "w' = w\<lparr>watched := AList.update wid m' (watched w), common := sh'\<rparr>"
    by (auto simp: on_manager_def ebind_eq_Inr)
  have "manager_ok (common w) m" using managers_okD [OF assms(1) Some] by simp
  from f_traffic [OF this f] show ?thesis
    unfolding w' using Some by (auto simp: calm_def traffic_def tab.lookup_assign)
qed

end

lemma forward_manager_still:
  "forward_manager status df wid wd = Inr wd' \<Longrightarrow> still (fst wd) (fst wd')"
  by (cases wd; cases wd') (auto simp: forward_manager_def still_def ebind_eq_Inr split: option.splits)

lemma forward_managers_still:
  assumes "efold (forward_manager status df) wids (w, found) = Inr (w', found')"
  shows "still w w'"
proof -
  have "still w (fst (w', found'))"
    using assms
  proof (rule efold_invariant [where P = "\<lambda>wf. still w (fst wf)"])
    show "still w (fst t)" if "still w (fst s)" "forward_manager status df k s = Inr t" for k s t
      using still_trans [OF that(1) forward_manager_still [OF that(2)]] .
  qed (simp add: still_refl)
  then show ?thesis by simp
qed

lemma deliver_still:
  assumes "fresh_socket net" and "managers_ok w" and "deliver status df w = Inr w'"
  shows "still w w'"
proof -
  obtain w1 found where f: "efold (forward_manager status df) (map fst (watched w)) (w, None) = Inr (w1, found)"
    and r: "ebind (case found of
              Some (wid, k) \<Rightarrow> if df_to_close df then on_manager wid (close_stream k False) w1 else Inr w1
            | None \<Rightarrow> Inr w1) (\<lambda>w.
       let w = w\<lparr>common := (common w)\<lparr>send_queue_len := send_queue_len (common w) - 1\<rparr>\<rparr>
       in if send_queue_len (common w) < MAX_QUEUE
          then efold refresh_manager (map fst (watched w)) w else Inr w) = Inr w'"
    using assms(3) by (auto simp: deliver_def ebind_eq_Inr)
  have e1: "extends w w1" using assms(2) f by (rule forward_managers_extends)
  obtain w2 where c: "(case found of
              Some (wid, k) \<Rightarrow> if df_to_close df then on_manager wid (close_stream k False) w1 else Inr w1
            | None \<Rightarrow> Inr w1) = Inr w2"
    using r by (auto simp: ebind_eq_Inr)
  have es: "extends w1 w2 \<and> still w1 w2"
  proof (cases "\<exists>wid k. found = Some (wid, k) \<and> df_to_close df")
    case True
    then obtain wid k where "found = Some (wid, k)" "df_to_close df" by blast
    with c have o: "on_manager wid (close_stream k False) w1 = Inr w2" by simp
    have "calm [] w1 w2"
      using close_io.on_manager_calm [OF extends_ok [OF e1] o] by (simp split: option.splits)
    with close_op.on_manager_extends [OF assms(1) extends_ok [OF e1] o] show ?thesis
      using calm_still by blast
  next
    case False
    with c have "w2 = w1" by (cases found) auto
    with extends_ok [OF e1] show ?thesis by (simp add: extends_refl still_refl)
  qed
  then have e2: "extends w1 w2" and s2: "still w1 w2" by simp_all
  let ?w3 = "w2\<lparr>common := (common w2)\<lparr>send_queue_len := send_queue_len (common w2) - 1\<rparr>\<rparr>"
  have m3: "managers_ok ?w3"
    by (rule managers_ok_cong [OF extends_ok [OF e2]]) (use extends_ok [OF e2] in \<open>simp_all add: managers_ok_def\<close>)
  have "still ?w3 w'"
  proof (cases "send_queue_len (common ?w3) < MAX_QUEUE")
    case True
    with r c have "efold refresh_manager (map fst (watched ?w3)) ?w3 = Inr w'" by (simp add: Let_def)
    then have "managers_ok w' \<and> still ?w3 w'"
    proof (rule efold_invariant [where P = "\<lambda>v. managers_ok v \<and> still ?w3 v"])
      show "managers_ok ?w3 \<and> still ?w3 ?w3" using m3 by (simp add: still_refl)
      fix wid u v
      assume u: "managers_ok u \<and> still ?w3 u" and v: "refresh_manager wid u = Inr v"
      have "extends u v" using u v refresh_op.on_manager_extends [OF assms(1)] by (simp add: refresh_manager_def)
      moreover have "still u v"
        using u v refresh_io.on_manager_calm [of u wid v]
        by (auto simp: refresh_manager_def intro: calm_still split: option.splits)
      ultimately show "managers_ok v \<and> still ?w3 v" using u extends_ok still_trans by blast
    qed
    then show ?thesis by simp
  next
    case False
    with r c have "w' = ?w3" by (simp add: Let_def)
    then show ?thesis by (simp add: still_refl)
  qed
  then have "still w2 w'" by (simp add: still_def)
  with forward_managers_still [OF f] s2 show ?thesis using still_trans by blast
qed

text \<open>A write task: one write of a part of its payload, or of all of it.\<close>

definition payload :: "wisp_packet \<Rightarrow> buffer" where
  "payload p = take (unat (data_len p)) (data p)"

definition whole :: "wisp_packet \<Rightarrow> write_answer \<Rightarrow> bool" where
  "whole p a \<longleftrightarrow> (case a of Write_took n \<Rightarrow> unat (data_len p) \<le> n | Write_again \<Rightarrow> True | Poll_failed \<Rightarrow> False | Write_failed \<Rightarrow> False)"

lemma run_task_writes:
  assumes "run_task as p (m, sh) = Inr (Some (m', sh'))" and "\<not> capturing sh"
  shows "\<exists>d b. map_of (streams m) (stream_id p) = Some d \<and> m' = m \<and> tasks sh' = tasks sh \<and>
    (\<forall>fd. target_bytes fd (os_state sh') = target_bytes fd (os_state sh) @ (if ss_fd d = fd then b else [])) \<and>
    (list_all (whole p) as \<longrightarrow> b = payload p) \<and> prefix b (payload p)"
  using assms
proof (induction as)
  case (Cons a as)
  then obtain d where d: "map_of (streams m) (stream_id p) = Some d"
    by (auto simp: task_round_def split: option.splits)
  show ?case
  proof (cases a)
    case (Write_took n)
    have "list_all (whole p) (a # as) \<longrightarrow> take n (payload p) = payload p"
      by (simp add: Write_took whole_def payload_def)
    moreover have "prefix (take (min n (unat (data_len p))) (data p)) (take (unat (data_len p)) (data p))"
      using take_is_prefix [of n "take (unat (data_len p)) (data p)"] by simp
    ultimately show ?thesis
      using Cons.prems d Write_took
      by (intro exI [of _ d] exI [of _ "take n (payload p)"])
        (auto simp: task_round_def target_bytes_sys payload_def)
  next
    case Write_again
    with Cons d show ?thesis by (simp add: task_round_def whole_def)
  qed (use Cons.prems d in \<open>auto simp: task_round_def whole_def\<close>)
qed simp

section \<open>The stream\<close>

text \<open>
  The stream \<open>k\<close> of the client \<open>wid\<close> with the descriptor \<open>fd\<close>. In a steady run it is in the
  table before every event, the client does not disconnect, no new client gets its id, and
  the answers of the kernel are possible ones: no \<open>read\<close> longer than its buffer, and of the
  descriptor exactly those up to the one that ends the read loop.
\<close>

definition ends_loop :: "read_answer list \<Rightarrow> bool" where
  "ends_loop as \<longleftrightarrow> read_loop (butlast as) [] = None \<and> read_loop as [] \<noteq> None"

definition has_stream :: "size_t \<Rightarrow> u32 \<Rightarrow> int \<Rightarrow> world \<Rightarrow> bool" where
  "has_stream wid k fd w \<longleftrightarrow> (case map_of (watched w) wid of
      None \<Rightarrow> False
    | Some m \<Rightarrow> (case map_of (streams m) k of None \<Rightarrow> False | Some d \<Rightarrow> ss_fd d = fd))"

definition steady :: "size_t \<Rightarrow> u32 \<Rightarrow> int \<Rightarrow> event \<Rightarrow> world \<Rightarrow> bool" where
  "steady wid k fd e w \<longleftrightarrow> has_stream wid k fd w \<and> (case e of
      Open \<Rightarrow> next_id w \<noteq> wid
    | Close wid' \<Rightarrow> wid' \<noteq> wid
    | Watch as \<Rightarrow> list_all read_ok as \<and> (case ready w of
          [] \<Rightarrow> True
        | fd' # rest \<Rightarrow> if fd' = fd then ends_loop as else True)
    | _ \<Rightarrow> True)"

text \<open>uWebSockets drops no message of the stream.\<close>

definition undropped :: "size_t \<Rightarrow> u32 \<Rightarrow> event \<Rightarrow> bool" where
  "undropped wid k e \<longleftrightarrow> (case e of Deliver status \<Rightarrow> status wid k \<noteq> DROPPED | _ \<Rightarrow> True)"

text \<open>The kernel takes every payload as a whole, after any number of \<open>EAGAIN\<close>.\<close>

definition takes_whole :: "event \<Rightarrow> world \<Rightarrow> bool" where
  "takes_whole e w \<longleftrightarrow> (case e of
      Run i as \<Rightarrow> i < length (running w) \<longrightarrow> list_all (whole (wt_packet (running w ! i))) as
    | _ \<Rightarrow> True)"

text \<open>From the target: bytes read by the watcher, waiting in deferred deliveries, sent in DATA frames.\<close>

definition bytes_from :: "int \<Rightarrow> event \<Rightarrow> world \<Rightarrow> buffer" where
  "bytes_from fd e w = (case e of
      Watch as \<Rightarrow> (case ready w of
          [] \<Rightarrow> []
        | fd' # rest \<Rightarrow> if fd' = fd then map Some (concat (map bytes_read as)) else [])
    | _ \<Rightarrow> [])"

definition deferred_bytes :: "int \<Rightarrow> deferred list \<Rightarrow> buffer" where
  "deferred_bytes fd dfs = concat (map df_buffer (filter (\<lambda>df. df_fd df = fd) dfs))"

definition data_in :: "u32 \<Rightarrow> buffer \<Rightarrow> buffer" where
  "data_in k f = (case WispPacket f (of_nat (length f)) of
      Inl e \<Rightarrow> []
    | Inr p \<Rightarrow> if packet_type p = PACKET_DATA \<and> stream_id p = k then payload p else [])"

text \<open>What has been sent to the client and not been dropped.\<close>

definition client_gets :: "size_t \<Rightarrow> u32 \<Rightarrow> world \<Rightarrow> buffer" where
  "client_gets wid k w = concat (map (data_in k) (sent_to wid w))"

text \<open>From the client: payloads received, waiting in write tasks, written to the descriptor.\<close>

definition bytes_to :: "size_t \<Rightarrow> u32 \<Rightarrow> event \<Rightarrow> world \<Rightarrow> buffer" where
  "bytes_to wid k e w = (case e of
      Message wid' now rcv n \<Rightarrow> if wid' = wid then
          (case WispPacket rcv n of
             Inl e \<Rightarrow> []
           | Inr p \<Rightarrow> if packet_type p = PACKET_DATA \<and> stream_id p = k then payload p else [])
        else []
    | _ \<Rightarrow> [])"

definition task_bytes :: "size_t \<Rightarrow> u32 \<Rightarrow> write_task list \<Rightarrow> buffer" where
  "task_bytes wid k ts =
     concat (map (\<lambda>t. payload (wt_packet t)) (filter (\<lambda>t. wt_this t = wid \<and> stream_id (wt_packet t) = k) ts))"

definition target_gets :: "int \<Rightarrow> world \<Rightarrow> buffer" where
  "target_gets fd w = target_bytes fd (os_state (common w))"

text \<open>The states the two channels are about.\<close>

definition buffers_ok :: "world \<Rightarrow> bool" where
  "buffers_ok w \<longleftrightarrow> list_all (\<lambda>df. length (df_buffer df) \<le> 63020480) (deferreds w)"

definition serves :: "net \<Rightarrow> world \<Rightarrow> bool" where
  "serves net w \<longleftrightarrow> fresh_socket net \<and> world_ok w \<and> \<not> capturing (common w) \<and> buffers_ok w"

lemma lists_simps [simp]:
  "deferred_bytes fd [] = []" "deferred_bytes fd (xs @ ys) = deferred_bytes fd xs @ deferred_bytes fd ys"
  "deferred_bytes fd (df # xs) = (if df_fd df = fd then df_buffer df else []) @ deferred_bytes fd xs"
  "task_bytes wid k [] = []" "task_bytes wid k (ts @ us) = task_bytes wid k ts @ task_bytes wid k us"
  "task_bytes wid k (t # ts) =
     (if wt_this t = wid \<and> stream_id (wt_packet t) = k then payload (wt_packet t) else []) @ task_bytes wid k ts"
  by (simp_all add: deferred_bytes_def task_bytes_def)

lemma has_stream_iff: "has_stream wid k fd w \<longleftrightarrow> (\<exists>m. map_of (watched w) wid = Some m \<and> owns m k fd)"
  by (auto simp: has_stream_def owns_def split: option.splits)

lemma has_stream_owner:
  assumes "managers_ok w" and "has_stream wid k fd w" and "the_owner w fd r"
  shows "r = Some (wid, k)"
proof -
  obtain m where m: "map_of (watched w) wid = Some m" "owns m k fd" using assms(2) by (auto simp: has_stream_iff)
  then have "fd \<in> fds m" by (auto simp: fds_owns)
  then obtain wid' k' where r: "r = Some (wid', k')" using assms(3) m(1) by (cases r) (auto simp: the_owner_def)
  then obtain m' where m': "map_of (watched w) wid' = Some m'" "owns m' k' fd"
    using assms(3) by (auto simp: the_owner_def)
  then have "fd \<in> fds m'" by (auto simp: fds_owns)
  with \<open>fd \<in> fds m\<close> have "wid' = wid" using assms(1) m(1) m'(1) unfolding managers_ok_def by blast
  with m m' have "k' = k" using managers_okD [OF assms(1) m(1)] owns_unique by fastforce
  with r \<open>wid' = wid\<close> show ?thesis by simp
qed

lemma task_owner:
  assumes "managers_ok w" and "has_stream wid k fd w"
    and "map_of (watched w) (wt_this t) = Some m" and "map_of (streams m) (stream_id (wt_packet t)) = Some d"
  shows "ss_fd d = fd \<longleftrightarrow> wt_this t = wid \<and> stream_id (wt_packet t) = k"
proof
  assume "ss_fd d = fd"
  then have "the_owner w fd (Some (wt_this t, stream_id (wt_packet t)))"
    using assms(3,4) by (simp add: the_owner_def owns_def)
  from has_stream_owner [OF assms(1,2) this] show "wt_this t = wid \<and> stream_id (wt_packet t) = k" by simp
next
  assume "wt_this t = wid \<and> stream_id (wt_packet t) = k"
  with assms(2-4) show "ss_fd d = fd" by (simp add: has_stream_def)
qed

section \<open>Frames\<close>

lemma data_in_frame:
  assumes "5 + length b < 2 ^ 63"
  shows "data_in k (frame t k' b) = (if t = PACKET_DATA \<and> k' = k then b else [])"
proof -
  have "WispPacket (frame t k' b @ []) (of_nat (5 + length b)) = Inr (packet_of t k' b)"
    unfolding packet_of_def using assms by (rule WispPacket_frame)
  moreover have "unat (of_nat (length b) :: size_t) = length b" using assms by (intro unat_of_size) simp
  ultimately show ?thesis by (simp add: data_in_def payload_def)
qed

lemma data_in_control: "control f \<Longrightarrow> data_in k f = []"
  by (auto simp: control_def data_in_frame packet_types)

lemma client_gets_control: "list_all control cs \<Longrightarrow> concat (map (data_in k) cs) = []"
  by (induction cs) (simp_all add: data_in_control)

lemma calm_gets:
  assumes "calm ts w w'" and "map_of (watched w) wid = Some m"
  shows "client_gets wid k w' = client_gets wid k w"
  using assms client_gets_control by (fastforce simp: calm_def client_gets_def sent_to_def)

section \<open>Steps that move no data of the stream\<close>

definition calm_for :: "size_t \<Rightarrow> write_task list \<Rightarrow> world \<Rightarrow> world \<Rightarrow> bool" where
  "calm_for wid ts w w' \<longleftrightarrow> deferreds w' = deferreds w \<and> running w' = running w \<and>
     tasks (common w') = tasks (common w) @ ts \<and> (\<forall>fd. target_gets fd w' = target_gets fd w) \<and>
     (\<forall>k. client_gets wid k w' = client_gets wid k w)"

lemma calm_calm_for: "calm ts w w' \<Longrightarrow> map_of (watched w) wid = Some m \<Longrightarrow> calm_for wid ts w w'"
  using calm_gets [of ts w w' wid m] by (simp add: calm_for_def calm_def target_gets_def)

text \<open>The callbacks of the websocket library.\<close>

definition callback :: "event \<Rightarrow> bool" where
  "callback e \<longleftrightarrow> (case e of Open \<Rightarrow> True | Message wid now rcv n \<Rightarrow> True | Drain wid \<Rightarrow> True | Close wid \<Rightarrow> True | _ \<Rightarrow> False)"

definition new_tasks :: "event \<Rightarrow> world \<Rightarrow> write_task list" where
  "new_tasks e w = (case e of
      Message wid now rcv n \<Rightarrow> (case map_of (watched w) wid of None \<Rightarrow> [] | Some m \<Rightarrow> message_tasks rcv n m)
    | _ \<Rightarrow> [])"

lemma callback_calm:
  assumes "serves net w" and "steady wid k fd e w" and "step net e w = Inr w'" and "callback e"
  shows "calm_for wid (new_tasks e w) w w'"
proof -
  have ok: "managers_ok w" using assms(1) by (simp add: serves_def world_ok_managers)
  obtain m where m: "map_of (watched w) wid = Some m" using assms(2) by (auto simp: steady_def has_stream_iff)
  show ?thesis
  proof (cases e)
    case Open
    then have "next_id w \<noteq> wid" using assms(2) by (simp add: steady_def)
    moreover obtain m' where "w' = w\<lparr>watched := AList.update (next_id w) m' (watched w), next_id := next_id w + 1\<rparr>"
      using assms(3) Open by (auto simp: open_socket_def ebind_eq_Inr)
    ultimately show ?thesis
      using Open by (simp add: calm_for_def new_tasks_def client_gets_def target_gets_def sent_to_def tab.lookup_assign)
  next
    case (Message wid' now rcv n)
    with assms(3) have "on_manager wid' (receive net now rcv n) w = Inr w'" by simp
    from receive_io.on_manager_calm [OF ok this] calm_calm_for [OF _ m] Message show ?thesis
      by (simp add: new_tasks_def)
  next
    case (Drain wid')
    with assms(3) have "drain_socket wid' w = Inr w'" by simp
    from drain_io.on_manager_calm [OF ok this [unfolded drain_socket_def]] calm_calm_for [OF _ m] Drain show ?thesis
      by (simp add: new_tasks_def split: option.splits)
  next
    case (Close wid')
    with assms(3) obtain w1 where w1: "on_manager wid' force_close w = Inr w1"
      and w': "w' = w1\<lparr>watched := AList.delete wid' (watched w1)\<rparr>"
      by (auto simp: close_socket_def ebind_eq_Inr)
    have "wid' \<noteq> wid" using Close assms(2) by (simp add: steady_def)
    then have "sent_to wid w' = sent_to wid w1" unfolding w' by (simp add: sent_to_def tab.lookup_erase)
    moreover have "calm_for wid [] w w1"
      using force_close_io.on_manager_calm [OF ok w1] calm_calm_for [OF _ m] by (simp split: option.splits)
    ultimately show ?thesis
      using Close w' by (simp add: calm_for_def new_tasks_def client_gets_def target_gets_def)
  qed (use assms(4) in \<open>simp_all add: callback_def\<close>)
qed

lemma new_tasks_bytes:
  assumes "managers_ok w" and "has_stream wid k fd w"
  shows "task_bytes wid k (new_tasks e w) = bytes_to wid k e w"
proof (cases e)
  case (Message wid' now rcv n)
  show ?thesis
  proof (cases "map_of (watched w) wid'")
    case None
    with assms(2) have "wid' \<noteq> wid" by (auto simp: has_stream_iff)
    with Message None show ?thesis by (simp add: new_tasks_def bytes_to_def)
  next
    case (Some m)
    have s: "socket_id m = wid'" using managers_okD [OF assms(1) Some] by simp
    have "wid' = wid \<longrightarrow> map_of (streams m) k \<noteq> None" using assms(2) Some by (auto simp: has_stream_iff owns_def)
    with Message Some s show ?thesis
      by (auto simp: new_tasks_def bytes_to_def message_tasks_def task_for_def split: sum.split)
  qed
qed (simp_all add: new_tasks_def bytes_to_def)

text \<open>The watcher and the workers.\<close>

lemma watch_event_moves:
  assumes "fd' \<noteq> fst (pipes (os_state (common w)))"
  shows "deferreds (watch_event fd' as w) = deferreds w @ (case read_loop as [] of
       None \<Rightarrow> []
     | Some (b, c) \<Rightarrow> [\<lparr>df_buffer = b, df_to_close = c, df_fd = fd'\<rparr>])"
  using assms by (simp add: watch_event_def Let_def split: option.split)

lemma read_loop_all:
  "read_loop as b = Some (b', c) \<Longrightarrow> read_loop (butlast as) b = None \<Longrightarrow> b' = b @ map Some (concat (map bytes_read as))"
proof (induction as b rule: read_loop.induct)
  case (5 bs as b)
  show ?case
  proof (cases "as = [] \<or> bs = [] \<or> MAX_WS_FRAME < of_nat (length (b @ map Some bs))")
    case True
    with 5 show ?thesis by (auto simp: bytes_read_def Let_def split: if_splits)
  next
    case False
    with 5 show ?thesis by (simp add: bytes_read_def Let_def)
  qed
qed (simp_all add: bytes_read_def split: if_splits)

lemma ends_loop_bytes: "ends_loop as \<Longrightarrow> \<exists>c. read_loop as [] = Some (map Some (concat (map bytes_read as)), c)"
  using read_loop_all [of as "[]"] by (auto simp: ends_loop_def)

lemma watch_event_keeps:
  "running (watch_event fd' as w) = running w" "tasks (common (watch_event fd' as w)) = tasks (common w)"
  "watched (watch_event fd' as w) = watched w"
  "target_bytes fd (os_state (common (watch_event fd' as w))) = target_bytes fd (os_state (common w))"
  "fd' = fst (pipes (os_state (common w))) \<Longrightarrow> deferreds (watch_event fd' as w) = deferreds w"
  by (auto simp: watch_event_def Let_def split: option.split)

lemma sent_to_cong: "watched w' = watched w \<Longrightarrow> client_gets wid k w' = client_gets wid k w"
  by (simp add: client_gets_def sent_to_def)

lemma dequeue_moves:
  "running (dequeue w) @ tasks (common (dequeue w)) = running w @ tasks (common w)"
  "watched (dequeue w) = watched w" "deferreds (dequeue w) = deferreds w"
  "os_state (common (dequeue w)) = os_state (common w)"
  by (auto simp: dequeue_def split: list.split)

lemma has_stream_not_pipe:
  assumes "managers_ok w" and "has_stream wid k fd w"
  shows "fd \<noteq> fst (pipes (os_state (common w)))"
proof -
  obtain m d where "map_of (watched w) wid = Some m" "map_of (streams m) k = Some d" "ss_fd d = fd"
    using assms(2) by (auto simp: has_stream_iff owns_def)
  with managers_okD [OF assms(1)] manager_okD show ?thesis by (fastforce simp: stream_ok_def)
qed

section \<open>From the target to the client\<close>

lemma deliver_moves:
  assumes "serves net w" and "has_stream wid k fd w" and "deferreds w = df # dfs"
    and "deliver status df (w\<lparr>deferreds := dfs\<rparr>) = Inr w'"
  shows "client_gets wid k w' = client_gets wid k w @ (if df_fd df = fd \<and> status wid k \<noteq> DROPPED then df_buffer df else []) \<and>
    still (w\<lparr>deferreds := dfs\<rparr>) w'"
proof -
  let ?w = "w\<lparr>deferreds := dfs\<rparr>"
  have s: "fresh_socket net" "\<not> capturing (common ?w)" using assms(1) by (simp_all add: serves_def)
  have ok: "managers_ok ?w"
    by (rule managers_ok_cong [where w = w])
      (use assms(1) in \<open>simp_all add: serves_def world_ok_def managers_ok_def\<close>)
  have l: "length (df_buffer df) \<le> 63020480" using assms(1,3) by (simp add: serves_def buffers_ok_def)
  then have l2: "5 + length (df_buffer df) < 2 ^ 63" by simp
  obtain r where r: "the_owner ?w (df_fd df) r" using the_owner_ex by blast
  obtain m where m: "map_of (watched w) wid = Some m" "owns m k fd" using assms(2) by (auto simp: has_stream_iff)
  obtain w2 where w2: "deliver status df ?w = Inr w2"
    "\<And>wid m. map_of (watched ?w) wid = Some m \<Longrightarrow>
       \<exists>m' cs. map_of (watched w2) wid = Some m' \<and> sent m' = sent m @ told status df r wid @ cs \<and>
         set cs \<subseteq> range (continue_frame 127)"
    using deliver_spec [OF s(1) ok s(2) l2 r, of status] by blast
  then obtain m' cs where m': "map_of (watched w') wid = Some m'" "sent m' = sent m @ told status df r wid @ cs"
    "set cs \<subseteq> range (continue_frame 127)"
    using assms(4) m(1) by force
  have "list_all control cs" using m'(3) by (auto simp: list_all_iff)
  then have c: "concat (map (data_in k) cs) = []" by (rule client_gets_control)
  have t: "concat (map (data_in k) (told status df r wid)) = (if df_fd df = fd \<and> status wid k \<noteq> DROPPED then df_buffer df else [])"
  proof (cases "df_fd df = fd")
    case True
    have "has_stream wid k fd ?w" using assms(2) by (simp add: has_stream_iff)
    with ok r True have "r = Some (wid, k)" by (intro has_stream_owner) simp_all
    with True l2 show ?thesis by (simp add: told_def data_in_frame data_in_control)
  next
    case False
    have "k' \<noteq> k" if "r = Some (wid, k')" for k'
      using r m False that by (auto simp: the_owner_def owns_def)
    then show ?thesis
      using False l2 by (auto simp: told_def data_in_frame data_in_control split: option.split)
  qed
  have "still ?w w'" using s(1) ok assms(4) by (rule deliver_still)
  moreover have "client_gets wid k w' = client_gets wid k w @ (if df_fd df = fd \<and> status wid k \<noteq> DROPPED then df_buffer df else [])"
    using m(1) m'(1,2) t c by (simp add: client_gets_def sent_to_def)
  ultimately show ?thesis by simp
qed

lemma run_running_moves:
  assumes "serves net w" and "run_running i as w = Inr w'"
  shows "w' = w \<or> (i < length (running w) \<and> (\<exists>m d b. let t = running w ! i in
    map_of (watched w) (wt_this t) = Some m \<and> map_of (streams m) (stream_id (wt_packet t)) = Some d \<and>
    map_of (watched w') = map_of (watched w) \<and> deferreds w' = deferreds w \<and>
    running w' = take i (running w) @ drop (Suc i) (running w) \<and> tasks (common w') = tasks (common w) \<and>
    executed w' = executed w @ [t] \<and>
    (\<forall>fd. target_gets fd w' = target_gets fd w @ (if ss_fd d = fd then b else [])) \<and>
    (list_all (whole (wt_packet t)) as \<longrightarrow> b = payload (wt_packet t)) \<and> prefix b (payload (wt_packet t))))"
proof (cases "i < length (running w) \<and> w' \<noteq> w")
  case False
  with assms(2) show ?thesis by (auto simp: run_running_def)
next
  case True
  let ?t = "running w ! i"
  from assms(2) True obtain m m' sh' where m: "map_of (watched w) (wt_this ?t) = Some m"
    and r: "run_task as (wt_packet ?t) (m, common w) = Inr (Some (m', sh'))"
    and w': "w' = w\<lparr>watched := AList.update (wt_this ?t) m' (watched w), common := sh',
        running := take i (running w) @ drop (Suc i) (running w), executed := executed w @ [?t]\<rparr>"
    by (auto simp: run_running_def Let_def ebind_eq_Inr split: option.splits)
  obtain d b where "map_of (streams m) (stream_id (wt_packet ?t)) = Some d" "m' = m" "tasks sh' = tasks (common w)"
    "\<forall>fd. target_bytes fd (os_state sh') = target_bytes fd (os_state (common w)) @ (if ss_fd d = fd then b else [])"
    "list_all (whole (wt_packet ?t)) as \<longrightarrow> b = payload (wt_packet ?t)" "prefix b (payload (wt_packet ?t))"
    using run_task_writes [OF r] assms(1) by (auto simp: serves_def)
  with True m w' show ?thesis
    by (auto simp: Let_def target_gets_def update_same)
qed

lemma serves_step:
  assumes "serves net w" and "steady wid k fd e w" and "step net e w = Inr w'"
  shows "serves net w'"
proof -
  have s: "fresh_socket net" "world_ok w" using assms(1) by (simp_all add: serves_def)
  note ok = step_ok [OF s assms(3)]
  have "buffers_ok w'"
  proof (cases "callback e")
    case True
    with callback_calm [OF assms] assms(1) show ?thesis by (simp add: calm_for_def serves_def buffers_ok_def)
  next
    case False
    show ?thesis
    proof (cases e)
      case (Wait fds)
      with assms(1,3) show ?thesis by (auto simp: serves_def buffers_ok_def split: if_splits)
    next
      case (Watch as)
      show ?thesis
      proof (cases "ready w")
        case Nil
        with Watch assms(1,3) show ?thesis by (simp add: serves_def)
      next
        case (Cons fd' rest)
        let ?w = "w\<lparr>ready := rest\<rparr>"
        have w': "w' = watch_event fd' as ?w" using assms(3) Watch Cons by simp
        have a: "list_all read_ok as" using assms(2) Watch by (simp add: steady_def split: list.splits)
        have b: "length b \<le> 63020480" if "read_loop as [] = Some (b, c)" for b c
          using read_loop_spec [OF that a] by auto
        show ?thesis
        proof (cases "fd' = fst (pipes (os_state (common ?w)))")
          case True
          from watch_event_keeps(5) [OF True, of as] assms(1) w' show ?thesis
            by (simp add: serves_def buffers_ok_def)
        next
          case False
          from watch_event_moves [OF False, of as] assms(1) b w' show ?thesis
            by (auto simp: serves_def buffers_ok_def split: option.splits)
        qed
      qed
    next
      case (Deliver status)
      show ?thesis
      proof (cases "deferreds w")
        case Nil
        with Deliver assms(1,3) show ?thesis by (simp add: serves_def)
      next
        case (Cons df dfs)
        have "has_stream wid k fd w" using assms(2) by (simp add: steady_def)
        with deliver_moves [OF assms(1) _ Cons] assms(3) Deliver Cons have "still (w\<lparr>deferreds := dfs\<rparr>) w'" by simp
        with assms(1) Cons show ?thesis by (simp add: still_def serves_def buffers_ok_def)
      qed
    next
      case Dequeue
      with assms(1,3) dequeue_moves [of w] show ?thesis by (auto simp: serves_def buffers_ok_def)
    next
      case (Run i as)
      then have "run_running i as w = Inr w'" using assms(3) by simp
      from run_running_moves [OF assms(1) this] assms(1) show ?thesis
        by (auto simp: serves_def buffers_ok_def Let_def)
    qed (use False in \<open>simp_all add: callback_def\<close>)
  qed
  moreover have "capturing (common w') = capturing (common w)" using ok by (simp add: progresses_def)
  ultimately show ?thesis using assms(1) ok by (simp add: serves_def)
qed

lemma downstream_step:
  assumes "serves net w" and "steady wid k fd e w" and "undropped wid k e" and "step net e w = Inr w'"
  shows "client_gets wid k w' @ deferred_bytes fd (deferreds w') =
    client_gets wid k w @ deferred_bytes fd (deferreds w) @ bytes_from fd e w"
proof (cases "callback e")
  case True
  then have "bytes_from fd e w = []" by (cases e) (simp_all add: callback_def bytes_from_def)
  with callback_calm [OF assms(1,2,4) True] show ?thesis by (simp add: calm_for_def)
next
  case False
  have hs: "has_stream wid k fd w" using assms(2) by (simp add: steady_def)
  have ok: "managers_ok w" using assms(1) by (simp add: serves_def world_ok_managers)
  show ?thesis
  proof (cases e)
    case (Wait fds)
    with assms(4) show ?thesis by (auto simp: bytes_from_def client_gets_def sent_to_def split: if_splits)
  next
    case (Watch as)
    show ?thesis
    proof (cases "ready w")
      case Nil
      with Watch assms(4) show ?thesis by (simp add: bytes_from_def)
    next
      case (Cons fd' rest)
      let ?w = "w\<lparr>ready := rest\<rparr>"
      have w': "w' = watch_event fd' as ?w" using assms(4) Watch Cons by simp
      have c: "client_gets wid k w' = client_gets wid k w"
        unfolding w' by (rule sent_to_cong) (simp add: watch_event_keeps)
      show ?thesis
      proof (cases "fd' = fst (pipes (os_state (common ?w)))")
        case True
        have "fd' \<noteq> fd" using has_stream_not_pipe [OF ok hs] True by simp
        with watch_event_keeps(5) [OF True, of as] c Watch Cons w' show ?thesis by (simp add: bytes_from_def)
      next
        case False
        have "fd' = fd \<longrightarrow> ends_loop as" using assms(2) Watch Cons by (simp add: steady_def)
        with ends_loop_bytes [of as] watch_event_moves [OF False, of as] c Watch Cons w' show ?thesis
          by (auto simp: bytes_from_def split: option.splits)
      qed
    qed
  next
    case (Deliver status)
    show ?thesis
    proof (cases "deferreds w")
      case Nil
      with Deliver assms(4) show ?thesis by (simp add: bytes_from_def)
    next
      case (Cons df dfs)
      with deliver_moves [OF assms(1) hs Cons] assms(3,4) Deliver show ?thesis
        by (simp add: still_def bytes_from_def undropped_def)
    qed
  next
    case Dequeue
    with assms(4) dequeue_moves [of w] show ?thesis by (auto simp: bytes_from_def client_gets_def sent_to_def)
  next
    case (Run i as)
    then have "run_running i as w = Inr w'" using assms(4) by simp
    from run_running_moves [OF assms(1) this] Run show ?thesis
      by (auto simp: bytes_from_def client_gets_def sent_to_def Let_def)
  qed (use False in \<open>simp_all add: callback_def\<close>)
qed

interpretation downstream: channel "step net" "serves net" "\<lambda>e w. steady wid k fd e w \<and> undropped wid k e" "bytes_from fd" "client_gets wid k"
  "\<lambda>w. deferred_bytes fd (deferreds w)" for net wid k fd
  by unfold_locales (blast intro: serves_step, blast intro: downstream_step)

section \<open>From the client to the target\<close>

definition waiting_bytes :: "size_t \<Rightarrow> u32 \<Rightarrow> world \<Rightarrow> buffer" where
  "waiting_bytes wid k w = task_bytes wid k (running w @ tasks (common w))"

lemma upstream_step:
  assumes "serves net w" and "workers w \<le> 1" and "steady wid k fd e w" and "takes_whole e w"
    and "step net e w = Inr w'"
  shows "target_gets fd w' @ waiting_bytes wid k w' = target_gets fd w @ waiting_bytes wid k w @ bytes_to wid k e w"
proof -
  have hs: "has_stream wid k fd w" using assms(3) by (simp add: steady_def)
  have ok: "managers_ok w" using assms(1) by (simp add: serves_def world_ok_managers)
  show ?thesis
  proof (cases "callback e")
    case True
    with callback_calm [OF assms(1,3,5) True] new_tasks_bytes [OF ok hs, of e] show ?thesis
      by (simp add: calm_for_def waiting_bytes_def)
  next
    case False
    then have n: "bytes_to wid k e w = []" by (cases e) (simp_all add: callback_def bytes_to_def)
    show ?thesis
    proof (cases e)
      case (Wait fds)
      with assms(5) n show ?thesis by (auto simp: waiting_bytes_def target_gets_def split: if_splits)
    next
      case (Watch as)
      with assms(5) n show ?thesis
        by (cases "ready w") (auto simp: waiting_bytes_def target_gets_def watch_event_keeps)
    next
      case (Deliver status)
      show ?thesis
      proof (cases "deferreds w")
        case Nil
        with Deliver assms(5) n show ?thesis by simp
      next
        case (Cons df dfs)
        with deliver_moves [OF assms(1) hs Cons] assms(5) Deliver n show ?thesis
          by (simp add: still_def waiting_bytes_def target_gets_def)
      qed
    next
      case Dequeue
      with assms(5) n dequeue_moves [of w] show ?thesis by (auto simp: waiting_bytes_def target_gets_def)
    next
      case (Run i as)
      then have r: "run_running i as w = Inr w'" using assms(5) by simp
      show ?thesis
      proof (cases "w' = w")
        case True
        with n show ?thesis by simp
      next
        case False
        let ?t = "running w ! i"
        obtain m d b where i: "i < length (running w)" and m: "map_of (watched w) (wt_this ?t) = Some m"
          and d: "map_of (streams m) (stream_id (wt_packet ?t)) = Some d"
          and w': "running w' = take i (running w) @ drop (Suc i) (running w)" "tasks (common w') = tasks (common w)"
            "target_gets fd w' = target_gets fd w @ (if ss_fd d = fd then b else [])"
          and b: "list_all (whole (wt_packet ?t)) as \<longrightarrow> b = payload (wt_packet ?t)"
          using run_running_moves [OF assms(1) r] False by (auto simp: Let_def)
        have "length (running w) \<le> 1" using assms(1,2) by (simp add: serves_def world_ok_def)
        with i obtain t where one: "running w = [t]" "i = 0" by (cases "running w") auto
        have "ss_fd d = fd \<longleftrightarrow> wt_this ?t = wid \<and> stream_id (wt_packet ?t) = k"
          using ok hs m d by (rule task_owner)
        moreover have "b = payload (wt_packet ?t)" using b assms(4) Run i by (simp add: takes_whole_def)
        moreover have "waiting_bytes wid k w = (if wt_this ?t = wid \<and> stream_id (wt_packet ?t) = k
            then payload (wt_packet ?t) else []) @ task_bytes wid k (tasks (common w))"
          by (simp add: waiting_bytes_def one)
        moreover have "waiting_bytes wid k w' = task_bytes wid k (tasks (common w))"
          by (simp add: waiting_bytes_def w' one)
        ultimately show ?thesis using w'(3) n by simp
      qed
    qed (use False in \<open>simp_all add: callback_def\<close>)
  qed
qed

interpretation upstream: channel "step net" "\<lambda>w. serves net w \<and> workers w \<le> 1"
  "\<lambda>e w. steady wid k fd e w \<and> takes_whole e w" "bytes_to wid k" "target_gets fd" "waiting_bytes wid k"
  for net wid k fd
proof unfold_locales
  fix w e w'
  assume a: "serves net w \<and> workers w \<le> 1" "steady wid k fd e w \<and> takes_whole e w" "step net e w = Inr w'"
  then have "progresses w w'" using step_ok [of net w e w'] by (simp add: serves_def)
  then show "serves net w' \<and> workers w' \<le> 1"
    using a serves_step [of net w wid k fd e w'] by (simp add: progresses_def)
  show "target_gets fd w' @ waiting_bytes wid k w' = target_gets fd w @ waiting_bytes wid k w @ bytes_to wid k e w"
    using a by (intro upstream_step) auto
qed

section \<open>Properties\<close>

text \<open>
  C1: What a target sends arrives at its client, complete, once and in order, whatever the other
  clients and targets, the pool and the scheduling do, if uWebSockets drops no message of the
  stream: over a run in which a stream is open (until its last event), the bytes in the DATA
  frames of the stream that the client's websocket has taken, followed by those waiting in
  deferred deliveries, grow by exactly the bytes that the kernel hands out on the descriptor
  of the stream. What a dropped message does is the subject of \<open>dropped_data_lost\<close>.
\<close>
theorem target_to_client:
  assumes "serves net w" and "along (step net) (\<lambda>e w. steady wid k fd e w \<and> undropped wid k e) es w" and "run_events net es w = Inr w'"
  shows "client_gets wid k w' @ deferred_bytes fd (deferreds w') =
    client_gets wid k w @ deferred_bytes fd (deferreds w) @ collect (step net) (bytes_from fd) es w"
  using downstream.run_conserves [OF assms(2) assms(3) [unfolded run_events_def] assms(1)] by blast

text \<open>
  C2: What a client sends arrives at its target, complete, once and in order, if the pool has one
  worker and the kernel takes each payload as a whole: over a run in which a stream is open,
  the bytes written to the descriptor, followed by those in write tasks that are being
  executed or queued, grow by exactly the payloads of the DATA packets that the client sends
  on the stream. With two workers the order is lost (\<open>two_workers_reorder\<close>), with a partial
  write the rest of a payload is.
\<close>
theorem client_to_target:
  assumes "serves net w" and "workers w \<le> 1"
    and "along (step net) (\<lambda>e w. steady wid k fd e w \<and> takes_whole e w) es w" and "run_events net es w = Inr w'"
  shows "target_gets fd w' @ waiting_bytes wid k w' =
    target_gets fd w @ waiting_bytes wid k w @ collect (step net) (bytes_to wid k) es w"
  using upstream.run_conserves [OF assms(3) assms(4) [unfolded run_events_def]] assms(1,2) by blast

text \<open>
  A server with one worker, one client and one stream, from which two bytes have been read; the
  client sends, the target answers and closes.
\<close>

definition talking :: world where
  "talking = example_world\<lparr>workers := 1, deferreds := [example_deferred\<lparr>df_to_close := False\<rparr>]\<rparr>"

definition talk_events :: "event list" where
  "talk_events = [data_message 0 7 1, Wait [6], Watch [Read_bytes [67], Read_eof], Dequeue,
     Run 0 [Write_again, Write_took 1], data_message 0 7 2, Deliver (\<lambda>wid k. SUCCESS), Deliver (\<lambda>wid k. SUCCESS)]"

lemma talking_serves: "serves quiet_net talking" "workers talking \<le> 1"
proof -
  have "managers_ok talking"
    by (rule managers_ok_cong [where w = example_world])
      (use example_world_ok in \<open>simp_all add: talking_def world_ok_def managers_ok_def\<close>)
  then show "serves quiet_net talking" "workers talking \<le> 1"
    using fresh_quiet_net by (simp_all add: serves_def world_ok_def buffers_ok_def talking_def example_world_def
        example_deferred_def)
qed

theorem target_to_client_witness:
  "\<exists>w'. run_events quiet_net talk_events talking = Inr w' \<and>
     client_gets 0 7 w' @ deferred_bytes 6 (deferreds w') = [Some 65, Some 66, Some 67]"
proof -
  have a: "along (step quiet_net) (\<lambda>e w. steady 0 7 6 e w \<and> undropped 0 7 e) talk_events talking" by code_simp
  then obtain w' where w': "run_events quiet_net talk_events talking = Inr w'"
    using along_returns [OF a] unfolding run_events_def by blast
  have "client_gets 0 7 talking @ deferred_bytes 6 (deferreds talking) @
      collect (step quiet_net) (bytes_from 6) talk_events talking = [Some 65, Some 66, Some 67]" by code_simp
  with target_to_client [OF talking_serves(1) a w'] w' show ?thesis by simp
qed

theorem client_to_target_witness:
  "\<exists>w'. run_events quiet_net talk_events talking = Inr w' \<and>
     target_gets 6 w' @ waiting_bytes 0 7 w' = [Some 1, Some 2]"
proof -
  have a: "along (step quiet_net) (\<lambda>e w. steady 0 7 6 e w \<and> takes_whole e w) talk_events talking" by code_simp
  then obtain w' where w': "run_events quiet_net talk_events talking = Inr w'"
    using along_returns [OF a] unfolding run_events_def by blast
  have "target_gets 6 talking @ waiting_bytes 0 7 talking @
      collect (step quiet_net) (bytes_to 0 7) talk_events talking = [Some 1, Some 2]" by code_simp
  with client_to_target [OF talking_serves a w'] w' show ?thesis by simp
qed

text \<open>
  A message that uWebSockets drops is lost and nobody is told: the bytes of the first delivery
  are neither at the client nor on their way, those of the second arrive, and the stream is
  still open. The client cannot tell the gap.
\<close>
theorem dropped_data_lost:
  "ebind (run_events quiet_net [Wait [6], Watch [Read_bytes [67], Read_again],
       Deliver (\<lambda>wid k. DROPPED), Deliver (\<lambda>wid k. SUCCESS)] talking)
     (\<lambda>w. Inr (client_gets 0 7 w, deferred_bytes 6 (deferreds w), has_stream 0 7 6 w)) =
   (Inr ([Some 67], [], True) :: (buffer \<times> buffer \<times> bool) result)"
  by code_simp

end
