(* ===== verification/Watcher.thy ===== *)
theory Watcher
  imports EndToEnd
begin

text \<open>
  The life of the watcher thread (src/src/websocketManager.h, \<open>SystemWatcher\<close>): the constructor
  starts it, it goes round the loop of \<open>watch()\<close>, and the destructor raises a flag, wakes it
  through the pipe and joins it. The rest of the server runs on in between, as in theory
  World.

  The kernel's part is a guard of the steps: \<open>epoll_wait\<close> returns when at least one watched
  descriptor is ready, and the read end of the pipe is ready exactly when the pipe holds a
  byte.
\<close>

section \<open>State\<close>

text \<open>Where the watcher is: at the head of its loop, in \<open>epoll.wait\<close>, in the array of events, or gone.\<close>

datatype place = Loop_head | In_wait | Handling | Left

text \<open>How far the destructor is: not begun, the flag is set, the pipe is written, the thread is joined.\<close>

datatype phase = Alive | Flagged | Woken | Joined

record system =
  the_world :: world
  place :: place
  deconstructing :: bool
  phase :: phase

definition SystemWatcher :: "world \<Rightarrow> system" where
  "SystemWatcher w = \<lparr>the_world = w, place = Loop_head, deconstructing = False, phase = Alive\<rparr>"

text \<open>One step of the destructor: \<open>deconstructing = true; wake(); watcher.join();\<close>\<close>

definition SystemWatcher_destroy :: "system \<Rightarrow> system" where
  "SystemWatcher_destroy s =
     (case phase s of
        Alive \<Rightarrow> s\<lparr>deconstructing := True, phase := Flagged\<rparr>
      | Flagged \<Rightarrow>
          (let w = the_world s; sh = common w
           in s\<lparr>the_world := w\<lparr>common := sh\<lparr>os_state := wake (os_state sh)\<rparr>\<rparr>, phase := Woken\<rparr>)
      | Woken \<Rightarrow> if place s = Left then s\<lparr>phase := Joined\<rparr> else s
      | Joined \<Rightarrow> s)"

section \<open>The loop\<close>

text \<open>What \<open>epoll_wait\<close> may return: \<open>ds\<close> are the ready descriptors.\<close>

definition may_return :: "int list \<Rightarrow> os \<Rightarrow> bool" where
  "may_return ds os \<longleftrightarrow> wait_events (\<lambda>fd. fd \<in> set ds) os \<noteq> [] \<and>
     (fst (pipes os) \<in> set ds \<longleftrightarrow> 0 < pipe_bytes os)"

datatype watch_step = Check | Wait_return "int list" | Wait_error | Handle "read_answer list"

text \<open>
  One step of \<open>watch()\<close>: the test of the flag, the return of \<open>epoll.wait\<close> with events or with
  an error (which leaves the array untouched and counts no event), one event of the array or
  the end of the array.
\<close>

definition watch :: "watch_step \<Rightarrow> system \<Rightarrow> system" where
  "watch a s =
     (let w = the_world s in
      case a of
        Check \<Rightarrow> if place s = Loop_head then s\<lparr>place := if deconstructing s then Left else In_wait\<rparr> else s
      | Wait_return ds \<Rightarrow>
          if place s = In_wait \<and> may_return ds (os_state (common w))
          then s\<lparr>the_world := w\<lparr>ready := wait_events (\<lambda>fd. fd \<in> set ds) (os_state (common w))\<rparr>, place := Handling\<rparr>
          else s
      | Wait_error \<Rightarrow> if place s = In_wait then s\<lparr>place := Loop_head\<rparr> else s
      | Handle as \<Rightarrow>
          if place s = Handling then
            (case ready w of
               [] \<Rightarrow> s\<lparr>place := Loop_head\<rparr>
             | fd # rest \<Rightarrow> s\<lparr>the_world := watch_event fd as (w\<lparr>ready := rest\<rparr>)\<rparr>)
          else s)"

datatype system_event = Watching watch_step | Destroying | Elsewhere event

definition is_watching :: "event \<Rightarrow> bool" where
  "is_watching e = (case e of Wait ds \<Rightarrow> True | Watch as \<Rightarrow> True | _ \<Rightarrow> False)"

fun system_step :: "net \<Rightarrow> system_event \<Rightarrow> system \<Rightarrow> system result" where
  "system_step net (Watching a) s = Inr (watch a s)"
| "system_step net Destroying s = Inr (SystemWatcher_destroy s)"
| "system_step net (Elsewhere e) s =
     (if is_watching e then Inr s
      else ebind (step net e (the_world s)) (\<lambda>w. Inr (s\<lparr>the_world := w\<rparr>)))"

section \<open>The rest of the server and the pipe\<close>

lemma run_task_pipe:
  "run_task as p (m, sh) = Inr (Some (m', sh')) \<Longrightarrow> pipe_bytes (os_state sh') = pipe_bytes (os_state sh)"
proof (induction as arbitrary: m sh)
  case (Cons a as)
  from Cons.prems obtain again m1 sh1 where r: "task_round a p (m, sh) = Inr (again, m1, sh1)"
    and n: "(if again then run_task as p (m1, sh1) else Inr (Some (m1, sh1))) = Inr (Some (m', sh'))"
    by (auto simp: ebind_eq_Inr)
  from r have "pipe_bytes (os_state sh1) = pipe_bytes (os_state sh)"
    by (cases a) (auto simp: task_round_def ebind_eq_Inr split: option.splits)
  with n Cons.IH [of m1 sh1] show ?case by (simp split: if_splits)
qed simp

lemma elsewhere_keeps:
  assumes "fresh_socket net" and "world_ok w" and "step net e w = Inr w'" and "\<not> is_watching e"
  shows "ready w' = ready w \<and> pipe_bytes (os_state (common w)) \<le> pipe_bytes (os_state (common w'))"
proof -
  have ok: "managers_ok w" using assms(2) by (rule world_ok_managers)
  show ?thesis
  proof (cases e)
    case Open
    with assms(3) show ?thesis by (auto simp: open_socket_def ebind_eq_Inr)
  next
    case (Message wid now rcv n)
    with assms(3) receive_io.on_manager_calm [OF ok] show ?thesis by (fastforce simp: calm_def)
  next
    case (Drain wid)
    with assms(3) drain_io.on_manager_calm [OF ok] show ?thesis by (fastforce simp: calm_def drain_socket_def)
  next
    case (Close wid)
    with assms(3) obtain w1 where "on_manager wid force_close w = Inr w1"
      "w' = w1\<lparr>watched := AList.delete wid (watched w1)\<rparr>"
      by (auto simp: close_socket_def ebind_eq_Inr)
    with force_close_io.on_manager_calm [OF ok] show ?thesis by (fastforce simp: calm_def)
  next
    case (Deliver status)
    show ?thesis
    proof (cases "deferreds w")
      case (Cons df dfs)
      have "managers_ok (w\<lparr>deferreds := dfs\<rparr>)"
        by (rule managers_ok_cong [OF ok]) (use ok in \<open>simp_all add: managers_ok_def\<close>)
      from deliver_still [OF assms(1) this] Cons Deliver assms(3) show ?thesis by (fastforce simp: still_def)
    qed (use Deliver assms(3) in simp)
  next
    case Dequeue
    with assms(3) show ?thesis by (auto simp: dequeue_def split: list.splits)
  next
    case (Run i as)
    with assms(3) show ?thesis
      by (auto simp: run_running_def Let_def ebind_eq_Inr run_task_pipe split: if_splits option.splits)
  qed (use assms(4) in \<open>simp_all add: is_watching_def\<close>)
qed

section \<open>The invariant\<close>

text \<open>
  The array is empty outside of its loop; the flag follows the destructor; and a watcher that
  is in \<open>epoll.wait\<close> when the pipe has been written finds a byte there.
\<close>

definition system_ok :: "system \<Rightarrow> bool" where
  "system_ok s \<longleftrightarrow> world_ok (the_world s) \<and> (place s \<noteq> Handling \<longrightarrow> ready (the_world s) = []) \<and>
     length (ready (the_world s)) \<le> 127 \<and> (deconstructing s \<longleftrightarrow> phase s \<noteq> Alive) \<and>
     (phase s = Woken \<longrightarrow> place s = In_wait \<longrightarrow> 0 < pipe_bytes (os_state (common (the_world s)))) \<and>
     (phase s = Joined \<longrightarrow> place s = Left)"

lemma system_okD: "system_ok s \<Longrightarrow> world_ok (the_world s)"
  by (simp add: system_ok_def)

lemma world_ok_ready: "world_ok w \<Longrightarrow> world_ok (w\<lparr>ready := ds\<rparr>)"
  using managers_ok_cong [of w "w\<lparr>ready := ds\<rparr>"] by (simp add: world_ok_def managers_ok_def)

lemma wait_events_bound: "length (wait_events P os) \<le> 127"
  by (simp add: wait_events_def BUFFER_COUNT_def)

lemma watch_ready: "ready (watch_event fd as w) = ready w"
  by (auto simp: watch_event_def Let_def split: option.split)

lemma watch_ok:
  assumes "system_ok s"
  shows "system_ok (watch a s)"
proof (cases a)
  case (Handle as)
  show ?thesis
  proof (cases "ready (the_world s)")
    case Nil
    with Handle assms show ?thesis by (auto simp: watch_def system_ok_def Let_def)
  next
    case (Cons fd rest)
    let ?w = "(the_world s)\<lparr>ready := rest\<rparr>"
    have "world_ok (watch_event fd as ?w)"
      using watch_event_ok world_ok_ready system_okD [OF assms] by blast
    with Handle Cons assms show ?thesis by (auto simp: watch_def system_ok_def Let_def watch_ready)
  qed
qed (use assms world_ok_ready wait_events_bound in \<open>auto simp: watch_def system_ok_def Let_def\<close>)

lemma destroy_ok:
  assumes "system_ok s"
  shows "system_ok (SystemWatcher_destroy s)"
proof (cases "phase s")
  case Flagged
  let ?w = "the_world s" and ?sh = "common (the_world s)"
  have "managers_ok (?w\<lparr>common := ?sh\<lparr>os_state := wake (os_state ?sh)\<rparr>\<rparr>)"
    by (rule managers_ok_cong [where w = ?w])
      (use system_okD [OF assms] in \<open>simp_all add: world_ok_def managers_ok_def os_ok_def wake_def\<close>)
  with Flagged assms show ?thesis by (simp add: SystemWatcher_destroy_def system_ok_def world_ok_def Let_def)
qed (use assms in \<open>auto simp: SystemWatcher_destroy_def system_ok_def\<close>)

lemma elsewhere_ok:
  assumes "fresh_socket net" and "system_ok s" and "system_step net (Elsewhere e) s = Inr s'"
  shows "system_ok s' \<and> place s' = place s \<and> phase s' = phase s \<and> ready (the_world s') = ready (the_world s)"
proof (cases "is_watching e")
  case False
  then obtain w where w: "step net e (the_world s) = Inr w" "s' = s\<lparr>the_world := w\<rparr>"
    using assms(3) by (auto simp: ebind_eq_Inr)
  have "world_ok w" using step_ok [OF assms(1) system_okD [OF assms(2)] w(1)] by simp
  with elsewhere_keeps [OF assms(1) system_okD [OF assms(2)] w(1) False] w(2) assms(2) show ?thesis
    by (auto simp: system_ok_def)
qed (use assms in simp)

inductive system_steps :: "net \<Rightarrow> system \<Rightarrow> system \<Rightarrow> bool" for net where
  "system_step net e s = Inr s' \<Longrightarrow> system_steps net s s'"

inductive_cases system_stepsE: "system_steps net s s'"

definition starts_system :: "config \<Rightarrow> bool \<Rightarrow> nat \<Rightarrow> os \<Rightarrow> system \<Rightarrow> bool" where
  "starts_system c pcap n os s \<longleftrightarrow> os_ok os \<and> s = SystemWatcher (initial_world c pcap n os)"

lemma starts_system_ok: "starts_system c pcap n os s \<Longrightarrow> system_ok s"
  using starts_ok [of c pcap n os "initial_world c pcap n os"]
  by (auto simp: starts_system_def starts_def system_ok_def SystemWatcher_def initial_world_def)

lemma system_step_ok:
  assumes "fresh_socket net" and "system_ok s" and "system_step net e s = Inr s'"
  shows "system_ok s'"
proof (cases e)
  case (Elsewhere f)
  with assms elsewhere_ok show ?thesis by blast
qed (use assms watch_ok destroy_ok in auto)

interpretation watching: inductive_invariant "starts_system c pcap n os" "system_steps net"
  "\<lambda>s. fresh_socket net \<longrightarrow> system_ok s" for c pcap n os net
  by unfold_locales (auto intro: starts_system_ok elim!: system_stepsE dest: system_step_ok)

section \<open>The join returns\<close>

text \<open>
  A bound of the steps the watcher can still make once the flag is set: the array of
  \<open>epoll.wait\<close> has \<open>BUFFER_COUNT\<close> = 127 entries.
\<close>

definition remaining :: "system \<Rightarrow> nat" where
  "remaining s = (case place s of
      Left \<Rightarrow> 0 | Loop_head \<Rightarrow> 1 | Handling \<Rightarrow> 2 + length (ready (the_world s)) | In_wait \<Rightarrow> 130)"

text \<open>
  C6: The destructor of \<open>SystemWatcher\<close> returns: from the moment it waits for the watcher
  thread, whatever the rest of the server does, a watcher in \<open>epoll.wait\<close> is not left asleep:
  the pipe holds a byte and its read end is watched, so that the wait returns with it even
  if no other descriptor is ready. The watcher can always make a step that is no error of
  \<open>epoll.wait\<close>, every step it makes brings it nearer to its end, at most 130 of them, and no
  step of the rest of the server throws it back; when it has left, the join returns.
\<close>
theorem watcher_joins:
  assumes "fresh_socket net" and "reaches (starts_system c pcap n os) (system_steps net) s" and "phase s = Woken"
  shows "remaining s \<le> 130 \<and>
    (place s = Left \<longrightarrow> phase (SystemWatcher_destroy s) = Joined) \<and>
    (place s = In_wait \<longrightarrow> (let os = os_state (common (the_world s)); rd = fst (pipes os) in
       0 < pipe_bytes os \<and> rd \<in> set (interest os) \<and> may_return [rd] os \<and>
       place (watch (Wait_return [rd]) s) = Handling)) \<and>
    (place s \<noteq> Left \<longrightarrow> (\<exists>a. a \<noteq> Wait_error \<and> watch a s \<noteq> s)) \<and>
    (\<forall>a. watch a s \<noteq> s \<longrightarrow> remaining (watch a s) < remaining s) \<and>
    (\<forall>e s'. system_step net (Elsewhere e) s = Inr s' \<longrightarrow> phase s' = Woken \<and> remaining s' = remaining s)"
proof (intro conjI impI allI)
  have ok: "system_ok s" using watching.inv_reaches [OF assms(2)] assms(1) by blast
  let ?os = "os_state (common (the_world s))"
  have d: "deconstructing s" using ok assms(3) by (simp add: system_ok_def)
  show "remaining s \<le> 130" using ok by (auto simp: remaining_def system_ok_def split: place.split)
  show "phase (SystemWatcher_destroy s) = Joined" if "place s = Left"
    using that assms(3) by (simp add: SystemWatcher_destroy_def)
  have woken: "0 < pipe_bytes ?os \<and> fst (pipes ?os) \<in> set (interest ?os) \<and> may_return [fst (pipes ?os)] ?os \<and>
      place (watch (Wait_return [fst (pipes ?os)]) s) = Handling" if "place s = In_wait"
  proof -
    have b: "0 < pipe_bytes ?os" using that ok assms(3) by (simp add: system_ok_def)
    have i: "fst (pipes ?os) \<in> set (interest ?os)"
      using ok by (simp add: system_ok_def world_ok_def managers_ok_def os_ok_def)
    then have "wait_events (\<lambda>fd. fd \<in> set [fst (pipes ?os)]) ?os \<noteq> []"
      by (auto simp: wait_events_def BUFFER_COUNT_def filter_empty_conv)
    with b have "may_return [fst (pipes ?os)] ?os" by (simp add: may_return_def)
    with b i that show ?thesis by (simp add: watch_def Let_def)
  qed
  show "let os = ?os; rd = fst (pipes os) in 0 < pipe_bytes os \<and> rd \<in> set (interest os) \<and> may_return [rd] os \<and>
      place (watch (Wait_return [rd]) s) = Handling" if "place s = In_wait"
    using woken [OF that] by (simp only: Let_def)
  show "\<exists>a. a \<noteq> Wait_error \<and> watch a s \<noteq> s" if "place s \<noteq> Left"
  proof (cases "place s")
    case Loop_head
    then show ?thesis
      using d by (intro exI [of _ Check]) (auto simp: watch_def dest: arg_cong [where f = place])
  next
    case In_wait
    with woken show ?thesis
      by (intro exI [of _ "Wait_return [fst (pipes ?os)]"]) auto
  next
    case Handling
    have "place (watch (Handle []) s) \<noteq> place s \<or> length (ready (the_world (watch (Handle []) s))) < length (ready (the_world s))"
      using Handling by (cases "ready (the_world s)") (simp_all add: watch_def Let_def watch_ready)
    then show ?thesis by (intro exI [of _ "Handle []"]) auto
  qed (use that in simp)
  show "remaining (watch a s) < remaining s" if "watch a s \<noteq> s" for a
  proof (cases a)
    case (Wait_return ds)
    have "length (wait_events P ?os) < 128" for P using wait_events_bound [of P ?os] by simp
    with that Wait_return show ?thesis by (auto simp: watch_def remaining_def Let_def split: if_splits)
  next
    case (Handle as)
    with that show ?thesis by (auto simp: watch_def remaining_def Let_def watch_ready split: if_splits list.splits)
  qed (use that d in \<open>auto simp: watch_def remaining_def Let_def split: if_splits\<close>)
  fix e s'
  assume "system_step net (Elsewhere e) s = Inr s'"
  from elsewhere_ok [OF assms(1) ok this] assms(3) show "phase s' = Woken" "remaining s' = remaining s"
    by (simp_all add: remaining_def split: place.split)
qed

theorem watcher_joins_witness:
  "\<exists>s. phase s = Woken \<and> place s = In_wait \<and> place (watch (Wait_return [4]) s) = Handling \<and>
     remaining (watch (Wait_return [4]) s) < 130"
proof -
  let ?init = "starts_system example_conf False 2 quiet_os" and ?steps = "system_steps quiet_net"
  define s0 where "s0 = SystemWatcher (initial_world example_conf False 2 quiet_os)"
  define s1 where "s1 = watch Check s0"
  define s2 where "s2 = SystemWatcher_destroy s1"
  define s3 where "s3 = SystemWatcher_destroy s2"
  have "reaches ?init ?steps s0" by (rule reaches_init) (simp add: starts_system_def s0_def quiet_os_ok)
  then have "reaches ?init ?steps s1"
    by (rule reaches_step) (rule system_steps.intros [of _ "Watching Check"], simp add: s1_def)
  then have "reaches ?init ?steps s2"
    by (rule reaches_step) (rule system_steps.intros [of _ Destroying], simp add: s2_def)
  then have r: "reaches ?init ?steps s3"
    by (rule reaches_step) (rule system_steps.intros [of _ Destroying], simp add: s3_def)
  have p: "phase s3 = Woken" "place s3 = In_wait" "remaining s3 = 130"
    by (simp_all add: s3_def s2_def s1_def s0_def SystemWatcher_def SystemWatcher_destroy_def watch_def remaining_def Let_def)
  have "fst (pipes (os_state (common (the_world s3)))) = 4"
    by (simp add: s3_def s2_def s1_def s0_def SystemWatcher_def SystemWatcher_destroy_def watch_def Let_def wake_def
        initial_world_def quiet_os_def)
  with watcher_joins [OF fresh_quiet_net r p(1)] p(2) have m: "place (watch (Wait_return [4]) s3) = Handling"
    by (simp add: Let_def)
  with p(2) have "watch (Wait_return [4]) s3 \<noteq> s3" by auto
  with watcher_joins [OF fresh_quiet_net r p(1)] p(3) have "remaining (watch (Wait_return [4]) s3) < 130" by metis
  with m p show ?thesis by blast
qed

end
