(* ===== verification/IndexTypes.thy ===== *)
theory IndexTypes
  imports Prelude
begin

text \<open>
  The index types of the parallel loops (src/src/BS_thread_pool.hpp): the integer types of the
  platform as data, their conversions and arithmetic as C++20 defines them, and
  \<open>BS::common_index_type\<close>, which picks the type a loop over two index types counts in.

  A value of an integer type is an \<open>int\<close> within the range of the type. Conversions reduce it
  modulo the width; arithmetic is done in the promoted type, wraps around when that is
  unsigned and faults when it is signed and the result does not fit.
\<close>

section \<open>Integer types\<close>

datatype int_type = Int_type (is_signed: bool) (size_of: nat)

text \<open>The types of one, two, four and eight bytes.\<close>

definition int_types :: "int_type list" where
  "int_types = [Int_type s n. s \<leftarrow> [True, False], n \<leftarrow> [1, 2, 4, 8]]"

abbreviation int8_t where "int8_t \<equiv> Int_type True 1"
abbreviation int16_t where "int16_t \<equiv> Int_type True 2"
abbreviation int32_t where "int32_t \<equiv> Int_type True 4"
abbreviation int64_t where "int64_t \<equiv> Int_type True 8"
abbreviation uint8_t where "uint8_t \<equiv> Int_type False 1"
abbreviation uint16_t where "uint16_t \<equiv> Int_type False 2"
abbreviation uint32_t where "uint32_t \<equiv> Int_type False 4"
abbreviation uint64_t where "uint64_t \<equiv> Int_type False 8"

definition modulus :: "int_type \<Rightarrow> int" where
  "modulus T = 2 ^ (8 * size_of T)"

definition min_value :: "int_type \<Rightarrow> int" where
  "min_value T = (if is_signed T then - (modulus T div 2) else 0)"

definition max_value :: "int_type \<Rightarrow> int" where
  "max_value T = (if is_signed T then modulus T div 2 - 1 else modulus T - 1)"

definition in_type :: "int_type \<Rightarrow> int \<Rightarrow> bool" where
  "in_type T x \<longleftrightarrow> min_value T \<le> x \<and> x \<le> max_value T"

text \<open>\<open>static_cast\<close> to an integer type.\<close>

definition cast :: "int_type \<Rightarrow> int \<Rightarrow> int" where
  "cast T x = (x - min_value T) mod modulus T + min_value T"

text \<open>The integral promotions and the arithmetic on two operands of the same type.\<close>

definition promote :: "int_type \<Rightarrow> int_type" where
  "promote T = (if size_of T < 4 then int32_t else T)"

definition arith :: "int_type \<Rightarrow> int \<Rightarrow> int result" where
  "arith T x =
     (let P = promote T
      in if is_signed P then if in_type P x then Inr x else Inl Signed_overflow
         else Inr (x mod modulus P))"

section \<open>BS::common_index_type\<close>

text \<open>
  The specializations for two signed types, for two unsigned types and for one of each; no
  pair of integer types falls back to \<open>std::common_type\<close>.
\<close>

definition common_index_type :: "int_type \<Rightarrow> int_type \<Rightarrow> int_type" where
  "common_index_type T1 T2 =
     (if is_signed T1 = is_signed T2 then if size_of T1 \<ge> size_of T2 then T1 else T2
      else let S = (if is_signed T1 then T1 else T2);
               U = (if \<not> is_signed T1 then T1 else T2);
               larger_size = (if size_of S > size_of U then size_of S else size_of U)
           in if larger_size \<le> 4 then
                if larger_size = 1 \<or> size_of S = 2 \<and> size_of U = 1 then int16_t
                else if larger_size = 2 \<or> size_of S = 4 \<and> size_of U < 4 then int32_t
                else int64_t
              else if size_of U = 8 then uint64_t else int64_t)"

section \<open>Conversions\<close>

lemma modulus_pos [simp]: "0 < modulus T"
  by (simp add: modulus_def)

lemma int_types_iff: "T \<in> set int_types \<longleftrightarrow> size_of T \<in> {1, 2, 4, 8}"
  by (cases T) (auto simp: int_types_def)

lemma range_modulus: "size_of T \<noteq> 0 \<Longrightarrow> max_value T = min_value T + modulus T - 1"
  by (cases "size_of T") (auto simp: max_value_def min_value_def modulus_def)

lemma cast_in_type: "size_of T \<noteq> 0 \<Longrightarrow> in_type T (cast T x)"
  using pos_mod_bound [OF modulus_pos, of "x - min_value T" T]
  by (simp add: in_type_def cast_def range_modulus)

lemma cast_id: "size_of T \<noteq> 0 \<Longrightarrow> in_type T x \<Longrightarrow> cast T x = x"
  by (simp add: in_type_def cast_def range_modulus mod_pos_pos_trivial)

lemma cast_mod: "cast T x mod modulus T = x mod modulus T"
  by (simp add: cast_def mod_simps)

text \<open>The value of a conversion is determined by its residue.\<close>

lemma cast_unique:
  assumes "size_of T \<noteq> 0" and "in_type T y" and "x mod modulus T = y mod modulus T"
  shows "cast T x = y"
proof -
  have "(x - min_value T) mod modulus T = (y - min_value T) mod modulus T"
    using assms(3) by (rule mod_diff_cong) simp
  then have "cast T x = cast T y" by (simp add: cast_def)
  with cast_id [OF assms(1,2)] show ?thesis by simp
qed

lemma arith_mod: "arith T x = Inr y \<Longrightarrow> y mod modulus T = x mod modulus T"
  by (auto simp: arith_def promote_def Let_def split: if_splits)

lemma arith_unsigned: "\<not> is_signed (promote T) \<Longrightarrow> arith T x = Inr (x mod modulus (promote T))"
  by (simp add: arith_def Let_def)

lemma arith_exact: "is_signed (promote T) \<Longrightarrow> in_type (promote T) x \<Longrightarrow> arith T x = Inr x"
  by (simp add: arith_def Let_def)

lemma arith_overflow: "is_signed (promote T) \<Longrightarrow> \<not> in_type (promote T) x \<Longrightarrow> arith T x = Inl Signed_overflow"
  by (simp add: arith_def Let_def)

section \<open>The common type\<close>

text \<open>A type holds the values of another one.\<close>

definition holds :: "int_type \<Rightarrow> int_type \<Rightarrow> bool" where
  "holds T T' \<longleftrightarrow> min_value T \<le> min_value T' \<and> max_value T' \<le> max_value T"

lemma holds_in_type: "holds T T' \<Longrightarrow> in_type T' x \<Longrightarrow> in_type T x"
  by (auto simp: holds_def in_type_def)

text \<open>The one combination that no type of at most eight bytes holds.\<close>

definition lossy :: "int_type \<Rightarrow> int_type \<Rightarrow> bool" where
  "lossy T1 T2 \<longleftrightarrow> is_signed T1 \<noteq> is_signed T2 \<and> (T1 = uint64_t \<or> T2 = uint64_t)"

lemmas type_table = int_types_def common_index_type_def holds_def lossy_def min_value_def max_value_def
  modulus_def

lemma common_index_type_table:
  "\<forall>T1 \<in> set int_types. \<forall>T2 \<in> set int_types. common_index_type T1 T2 \<in> set int_types"
  "\<forall>T1 \<in> set int_types. \<forall>T2 \<in> set int_types. \<not> lossy T1 T2 \<longrightarrow>
     holds (common_index_type T1 T2) T1 \<and> holds (common_index_type T1 T2) T2"
  "\<forall>T1 \<in> set int_types. \<forall>T2 \<in> set int_types. \<not> lossy T1 T2 \<longrightarrow>
     (\<forall>T \<in> set int_types. holds T T1 \<and> holds T T2 \<longrightarrow> size_of (common_index_type T1 T2) \<le> size_of T)"
  "\<forall>T1 \<in> set int_types. \<forall>T2 \<in> set int_types. lossy T1 T2 \<longrightarrow> common_index_type T1 T2 = uint64_t \<and>
     (\<forall>T \<in> set int_types. \<not> (holds T T1 \<and> holds T T2))"
  by (simp_all add: type_table Let_def)

lemma int_types_bounds:
  "\<forall>T \<in> set int_types. size_of T \<noteq> 0 \<and> - (2 ^ 63) \<le> min_value T \<and> max_value T < 2 ^ 64"
  by (simp add: type_table)

lemma in_type_bounds: "T \<in> set int_types \<Longrightarrow> in_type T x \<Longrightarrow> - (2 ^ 63) \<le> x \<and> x < 2 ^ 64"
  using int_types_bounds by (force simp: in_type_def)

text \<open>
  C36: The index type of a loop: whatever the two index types, every index of either keeps its
  value when it is converted to \<open>common_index_type\<close>, and no smaller type would do; except for a
  signed type with an unsigned one of 64 bits, for which no type would do and which the loop
  counts in \<open>uint64_t\<close>: there indices that are not negative keep their value, and a negative
  one becomes larger than any index of the signed type.
\<close>
theorem common_index_type_holds:
  assumes "T1 \<in> set int_types" and "T2 \<in> set int_types" and "T = common_index_type T1 T2"
    and "in_type T1 x \<or> in_type T2 x"
  shows "if lossy T1 T2 then T = uint64_t \<and> cast T x = (if 0 \<le> x then x else 2 ^ 64 + x) \<and>
      (x < 0 \<longrightarrow> 2 ^ 63 \<le> cast T x)
    else cast T x = x \<and>
      (\<forall>T' \<in> set int_types. holds T' T1 \<and> holds T' T2 \<longrightarrow> size_of T \<le> size_of T')"
proof (cases "lossy T1 T2")
  case True
  then have T: "T = uint64_t" using common_index_type_table(4) assms(1-3) by blast
  have "- (2 ^ 63) \<le> x" "x < 2 ^ 64"
    using assms(1,2,4) in_type_bounds by blast+
  moreover have "cast T x = x mod 2 ^ 64" by (simp add: T cast_def min_value_def modulus_def)
  moreover have "x mod 2 ^ 64 = 2 ^ 64 + x" if "x < 0" "- (2 ^ 63) \<le> x"
    using that mod_add_self1 [of "2 ^ 64" x] mod_pos_pos_trivial [of "2 ^ 64 + x" "2 ^ 64"] by simp
  ultimately show ?thesis using True T by (auto simp: mod_pos_pos_trivial)
next
  case False
  have "size_of T \<noteq> 0" using common_index_type_table(1) assms(1-3) int_types_bounds by blast
  moreover have "in_type T x"
    using common_index_type_table(2) False assms holds_in_type by blast
  ultimately have "cast T x = x" by (rule cast_id)
  with False common_index_type_table(3) assms(1-3) show ?thesis by auto
qed

theorem common_index_type_holds_witness:
  "cast (common_index_type int32_t uint32_t) 4000000000 = 4000000000 \<and>
   cast (common_index_type int32_t uint64_t) (- 1) = 2 ^ 64 - 1"
proof -
  have t: "int32_t \<in> set int_types" "uint32_t \<in> set int_types" "uint64_t \<in> set int_types"
    by (simp_all add: int_types_iff)
  have "in_type uint32_t 4000000000" "in_type int32_t (- 1)"
    by (simp_all add: in_type_def min_value_def max_value_def modulus_def)
  with common_index_type_holds [OF t(1,2) refl, of 4000000000] common_index_type_holds [OF t(1,3) refl, of "- 1"]
  show ?thesis by (simp add: lossy_def common_index_type_def Let_def)
qed

end
