(* ===== verification/Pool.thy ===== *)
theory Pool
  imports Prelude
begin

text \<open>
  The thread pool (src/src/BS_thread_pool.hpp, class \<open>BS::thread_pool\<close>) with all its optional
  features, in the build of the program: C++20, so workers are \<open>std::jthread\<close>s and stop
  through their tokens.

  Every critical section of \<open>tasks_mutex\<close> is one function on the record \<open>pool\<close>, and a step is
  one such section or one notification; the interleaving of the threads is the sequence of
  steps. Both condition variables are explicit: a thread in \<open>wait\<close> is asleep until it is
  notified (or wakes spuriously, or its time is over), and takes the mutex again in a later
  step. A notification that the code sends after it has released the mutex is counted in
  \<open>notifies\<close> or \<open>notify_alls\<close> until it takes effect.

  With \<open>tp::priority\<close> the queue is a \<open>std::priority_queue\<close>, which serves a task of the highest
  priority; which one, when several have it, is unspecified and a choice of the step.
\<close>

section \<open>Options and tasks\<close>

type_synonym opt_t = u8
type_synonym priority_t = "8 word"

definition tp_none :: opt_t where "tp_none = 0"
definition tp_priority :: opt_t where "tp_priority = push_bit 0 1"
definition tp_pause :: opt_t where "tp_pause = push_bit 2 1"
definition tp_wait_deadlock_checks :: opt_t where "tp_wait_deadlock_checks = push_bit 3 1"

text \<open>A task with its priority, a signed integer of 8 bits.\<close>

datatype 'a pr_task = Pr_task (task: 'a) (priority: priority_t)

definition pr_less :: "'a pr_task \<Rightarrow> 'a pr_task \<Rightarrow> bool" where
  "pr_less lhs rhs \<longleftrightarrow> sint (priority lhs) < sint (priority rhs)"

text \<open>\<open>wait\<close> throws this when a task of the pool calls it and the checks are enabled.\<close>

datatype wait_deadlock = Wait_deadlock

section \<open>State\<close>

text \<open>
  A worker has just been created and runs its initialisation, or executes a task, or sleeps
  on \<open>task_available_cv\<close>, or has been woken there, or has left its loop.
\<close>

datatype 'a worker = Starting | Busy 'a | Sleeping | Notified | Stopped

text \<open>
  A thread in \<open>wait()\<close>, \<open>wait_for()\<close> or \<open>wait_until()\<close>: asleep on \<open>tasks_done_cv\<close>, woken
  there, or returned; the latter two calls return a status, the former as if it were \<open>true\<close>.
\<close>

datatype waiter = Wait_sleeping | Wait_notified | Wait_returned bool

fun is_returned :: "waiter \<Rightarrow> bool" where
  "is_returned (Wait_returned status) = True"
| "is_returned Wait_sleeping = False"
| "is_returned Wait_notified = False"

record 'a pool =
  priority_enabled :: bool
  pause_enabled :: bool
  wait_deadlock_checks_enabled :: bool
  queue :: "'a pr_task list"
  tasks_running :: size_t
  paused :: bool
  waiting :: bool
  threads :: "'a worker list"
  stop_requested :: "nat list"
  waiters :: "waiter list"
  timed :: "bool list"
  was_paused :: "bool option"
  notifies :: nat
  notify_alls :: nat
  started :: "'a list"

text \<open>
  \<open>timed\<close> tells which waiters have a deadline, \<open>was_paused\<close> is the local variable of a \<open>reset()\<close>
  in progress, and \<open>started\<close> records the tasks in the order in which the workers have taken
  them. Concurrent resets are not modelled: they race on \<open>threads\<close>.
\<close>

section \<open>Construction\<close>

definition determine_thread_count :: "u32 \<Rightarrow> size_t \<Rightarrow> size_t" where
  "determine_thread_count hardware_concurrency num_threads =
     (if 0 < num_threads then num_threads
      else if 0 < hardware_concurrency then ucast hardware_concurrency
      else 1)"

text \<open>
  The old threads, if any, have been joined by the assignment to \<open>threads\<close>.
\<close>

definition create_threads :: "u32 \<Rightarrow> size_t \<Rightarrow> 'a pool \<Rightarrow> 'a pool" where
  "create_threads hardware_concurrency num_threads p =
     (let thread_count = determine_thread_count hardware_concurrency num_threads
      in p\<lparr>tasks_running := thread_count, threads := replicate (unat thread_count) Starting,
           stop_requested := []\<rparr>)"

definition option_enabled :: "opt_t \<Rightarrow> opt_t \<Rightarrow> bool" where
  "option_enabled OptFlags flag \<longleftrightarrow> and OptFlags flag \<noteq> 0"

definition thread_pool :: "opt_t \<Rightarrow> u32 \<Rightarrow> size_t \<Rightarrow> 'a pool" where
  "thread_pool OptFlags hardware_concurrency num_threads =
     create_threads hardware_concurrency num_threads
       \<lparr>priority_enabled = option_enabled OptFlags tp_priority,
        pause_enabled = option_enabled OptFlags tp_pause,
        wait_deadlock_checks_enabled = option_enabled OptFlags tp_wait_deadlock_checks,
        queue = [], tasks_running = 0, paused = False, waiting = False,
        threads = [], stop_requested = [], waiters = [], timed = [], was_paused = None,
        notifies = 0, notify_alls = 0, started = []\<rparr>"

section \<open>Conditions\<close>

definition is_suspended :: "'a pool \<Rightarrow> bool" where
  "is_suspended p \<longleftrightarrow> pause_enabled p \<and> paused p"

text \<open>The predicate of \<open>task_available_cv.wait\<close> and the one of \<open>tasks_done_cv.wait\<close>.\<close>

definition task_available :: "'a pool \<Rightarrow> bool" where
  "task_available p \<longleftrightarrow> \<not> is_suspended p \<and> queue p \<noteq> []"

definition tasks_done :: "'a pool \<Rightarrow> bool" where
  "tasks_done p \<longleftrightarrow> tasks_running p = 0 \<and> (is_suspended p \<or> queue p = [])"

section \<open>Clients\<close>

definition detach_task :: "'a \<Rightarrow> priority_t \<Rightarrow> 'a pool \<Rightarrow> 'a pool" where
  "detach_task t pri p =
     p\<lparr>queue := queue p @ [Pr_task t (if priority_enabled p then pri else 0)],
       notifies := notifies p + 1\<rparr>"

definition purge :: "'a pool \<Rightarrow> 'a pool" where
  "purge p = p\<lparr>queue := []\<rparr>"

definition pause :: "'a pool \<Rightarrow> 'a pool" where
  "pause p = (if pause_enabled p then p\<lparr>paused := True\<rparr> else p)"

definition unpause :: "'a pool \<Rightarrow> 'a pool" where
  "unpause p = (if pause_enabled p then p\<lparr>paused := False, notify_alls := notify_alls p + 1\<rparr> else p)"

definition get_tasks_queued :: "'a pool \<Rightarrow> size_t" where
  "get_tasks_queued p = of_nat (length (queue p))"

definition get_tasks_running :: "'a pool \<Rightarrow> size_t" where
  "get_tasks_running p = tasks_running p"

definition get_tasks_total :: "'a pool \<Rightarrow> size_t" where
  "get_tasks_total p = tasks_running p + of_nat (length (queue p))"

definition get_thread_count :: "'a pool \<Rightarrow> size_t" where
  "get_thread_count p = of_nat (length (threads p))"

definition is_paused :: "'a pool \<Rightarrow> bool" where
  "is_paused p \<longleftrightarrow> paused p"

text \<open>
  \<open>this_thread::get_pool() == this\<close> for a caller that is worker \<open>i\<close>, running its
  initialisation or a task (\<open>Some i\<close>), or a thread outside of the pool (\<open>None\<close>).
\<close>

fun is_active :: "'a worker \<Rightarrow> bool" where
  "is_active Starting = True"
| "is_active (Busy t) = True"
| "is_active Sleeping = False"
| "is_active Notified = False"
| "is_active Stopped = False"

definition in_pool :: "nat option \<Rightarrow> 'a pool \<Rightarrow> bool" where
  "in_pool caller p \<longleftrightarrow> (case caller of
      None \<Rightarrow> False
    | Some i \<Rightarrow> i < length (threads p) \<and> is_active (threads p ! i))"

text \<open>
  \<open>wait()\<close>, and with a deadline \<open>wait_for()\<close> and \<open>wait_until()\<close>: the call up to its first sleep,
  the part after a wake-up, and the part after the deadline. When the predicate holds or the
  time is over the waiter takes \<open>waiting\<close> back and returns.
\<close>

definition wait_call :: "nat option \<Rightarrow> bool \<Rightarrow> 'a pool \<Rightarrow> wait_deadlock + 'a pool" where
  "wait_call caller has_deadline p =
     (if wait_deadlock_checks_enabled p \<and> in_pool caller p then Inl Wait_deadlock
      else Inr (if tasks_done p
        then p\<lparr>waiting := False, waiters := waiters p @ [Wait_returned True], timed := timed p @ [has_deadline]\<rparr>
        else p\<lparr>waiting := True, waiters := waiters p @ [Wait_sleeping], timed := timed p @ [has_deadline]\<rparr>))"

definition wait_wake :: "nat \<Rightarrow> 'a pool \<Rightarrow> 'a pool" where
  "wait_wake j p =
     (if tasks_done p then p\<lparr>waiting := False, waiters := (waiters p)[j := Wait_returned True]\<rparr>
      else p\<lparr>waiters := (waiters p)[j := Wait_sleeping]\<rparr>)"

definition wait_timeout :: "nat \<Rightarrow> 'a pool \<Rightarrow> 'a pool" where
  "wait_timeout j p = p\<lparr>waiting := False, waiters := (waiters p)[j := Wait_returned (tasks_done p)]\<rparr>"

text \<open>
  \<open>reset()\<close> pauses a pool that has pausing, waits, replaces the threads (\<open>create_threads\<close>), and
  sets \<open>paused\<close> to its old value, without a notification.
\<close>

definition reset_begin :: "'a pool \<Rightarrow> 'a pool" where
  "reset_begin p =
     (if pause_enabled p \<and> was_paused p = None then p\<lparr>was_paused := Some (paused p), paused := True\<rparr> else p)"

definition reset_end :: "'a pool \<Rightarrow> 'a pool" where
  "reset_end p =
     (case was_paused p of
        None \<Rightarrow> p
      | Some b \<Rightarrow> if pause_enabled p then p\<lparr>paused := b, was_paused := None\<rparr> else p)"

section \<open>Workers\<close>

definition notify_waiters :: "'a pool \<Rightarrow> 'a pool" where
  "notify_waiters p =
     p\<lparr>waiters := map (\<lambda>w. if w = Wait_sleeping then Wait_notified else w) (waiters p)\<rparr>"

text \<open>The tasks that \<open>top()\<close> of the priority queue may be: no other is above them.\<close>

definition candidates :: "'a pr_task list \<Rightarrow> nat list" where
  "candidates q = filter (\<lambda>k. list_all (\<lambda>t. \<not> pr_less (q ! k) t) q) [0..<length q]"

definition next_task :: "nat \<Rightarrow> 'a pool \<Rightarrow> nat" where
  "next_task c p =
     (if priority_enabled p
      then let ks = candidates (queue p) in ks ! (c mod length ks)
      else 0)"

definition pop_task :: "nat \<Rightarrow> nat \<Rightarrow> 'a pool \<Rightarrow> 'a pool" where
  "pop_task c i p =
     (let k = next_task c p; t = task (queue p ! k)
      in p\<lparr>queue := take k (queue p) @ drop (Suc k) (queue p), threads := (threads p)[i := Busy t],
           started := started p @ [t], tasks_running := tasks_running p + 1\<rparr>)"

text \<open>Inside \<open>task_available_cv.wait\<close>, with the mutex held.\<close>

definition worker_check :: "nat \<Rightarrow> nat \<Rightarrow> 'a pool \<Rightarrow> 'a pool" where
  "worker_check c i p =
     (if i \<in> set (stop_requested p) then p\<lparr>threads := (threads p)[i := Stopped]\<rparr>
      else if task_available p then pop_task c i p
      else p\<lparr>threads := (threads p)[i := Sleeping]\<rparr>)"

text \<open>
  The head of the loop, after the initialisation or a task: one task fewer is running, the
  waiters are told when that was the last one, and the worker looks for the next.
\<close>

definition worker_loop :: "nat \<Rightarrow> nat \<Rightarrow> 'a pool \<Rightarrow> 'a pool" where
  "worker_loop c i p =
     (let p = p\<lparr>tasks_running := tasks_running p - 1\<rparr>;
          p = (if waiting p \<and> tasks_done p then notify_waiters p else p)
      in worker_check c i p)"

definition worker :: "nat \<Rightarrow> nat \<Rightarrow> 'a pool \<Rightarrow> 'a pool" where
  "worker c i p =
     (if i < length (threads p) then
        (case threads p ! i of
           Starting \<Rightarrow> worker_loop c i p
         | Busy t \<Rightarrow> worker_loop c i p
         | Notified \<Rightarrow> worker_check c i p
         | Sleeping \<Rightarrow> p
         | Stopped \<Rightarrow> p)
      else p)"

section \<open>Notifications\<close>

definition wake_worker :: "nat \<Rightarrow> 'a pool \<Rightarrow> 'a pool" where
  "wake_worker i p =
     (if i < length (threads p) \<and> threads p ! i = Sleeping
      then p\<lparr>threads := (threads p)[i := Notified]\<rparr> else p)"

text \<open>
  A pending \<open>notify_one\<close> takes effect: it wakes the sleeper \<open>i\<close>; it may be spent on no one only
  when no one sleeps.
\<close>

definition notify_one :: "nat \<Rightarrow> 'a pool \<Rightarrow> 'a pool" where
  "notify_one i p =
     (if notifies p = 0 then p
      else if i < length (threads p) \<and> threads p ! i = Sleeping
      then (wake_worker i p)\<lparr>notifies := notifies p - 1\<rparr>
      else if Sleeping \<in> set (threads p) then p
      else p\<lparr>notifies := notifies p - 1\<rparr>)"

definition notify_all :: "'a pool \<Rightarrow> 'a pool" where
  "notify_all p =
     (if notify_alls p = 0 then p
      else p\<lparr>threads := map (\<lambda>w. if w = Sleeping then Notified else w) (threads p),
             notify_alls := notify_alls p - 1\<rparr>)"

text \<open>The destructor of a \<open>jthread\<close> requests a stop, which also wakes the thread.\<close>

definition request_stop :: "nat \<Rightarrow> 'a pool \<Rightarrow> 'a pool" where
  "request_stop i p = wake_worker i (p\<lparr>stop_requested := i # stop_requested p\<rparr>)"

text \<open>
  The end of the pool in builds without \<open>jthread\<close>: \<open>workers_running = false\<close> is a request to
  stop for every worker, and the predicate of the workers includes it as the token does.
\<close>

definition destroy_threads :: "'a pool \<Rightarrow> 'a pool" where
  "destroy_threads p = p\<lparr>stop_requested := [0..<length (threads p)], notify_alls := notify_alls p + 1\<rparr>"

section \<open>Steps\<close>

text \<open>\<open>Worker c i\<close> is a step of worker \<open>i\<close>; \<open>c\<close> chooses among tasks of the highest priority.\<close>

datatype 'a pool_event =
    Detach 'a priority_t
  | Purge
  | Pause
  | Unpause
  | Wait_call "nat option" bool
  | Wait_wake nat
  | Wait_spurious nat
  | Wait_timeout nat
  | Worker nat nat
  | Spurious nat
  | Notify_one nat
  | Notify_all
  | Request_stop nat
  | Destroy_threads
  | Create u32 size_t
  | Reset_begin
  | Reset_end

fun pool_step :: "'a pool_event \<Rightarrow> 'a pool \<Rightarrow> 'a pool" where
  "pool_step (Detach t pri) p = detach_task t pri p"
| "pool_step Purge p = purge p"
| "pool_step Pause p = pause p"
| "pool_step Unpause p = unpause p"
| "pool_step (Wait_call caller has_deadline) p =
     (case wait_call caller has_deadline p of Inl e \<Rightarrow> p | Inr p' \<Rightarrow> p')"
| "pool_step (Wait_wake j) p =
     (if j < length (waiters p) \<and> waiters p ! j = Wait_notified then wait_wake j p else p)"
| "pool_step (Wait_spurious j) p =
     (if j < length (waiters p) \<and> waiters p ! j = Wait_sleeping
      then p\<lparr>waiters := (waiters p)[j := Wait_notified]\<rparr> else p)"
| "pool_step (Wait_timeout j) p =
     (if j < length (waiters p) \<and> \<not> is_returned (waiters p ! j) \<and> j < length (timed p) \<and> timed p ! j
      then wait_timeout j p else p)"
| "pool_step (Worker c i) p = worker c i p"
| "pool_step (Spurious i) p = wake_worker i p"
| "pool_step (Notify_one i) p = notify_one i p"
| "pool_step Notify_all p = notify_all p"
| "pool_step (Request_stop i) p = request_stop i p"
| "pool_step Destroy_threads p = destroy_threads p"
| "pool_step (Create hc n) p =
     (if \<forall>w \<in> set (threads p). w = Stopped then create_threads hc n p else p)"
| "pool_step Reset_begin p = reset_begin p"
| "pool_step Reset_end p = reset_end p"

definition run_pool :: "'a pool_event list \<Rightarrow> 'a pool \<Rightarrow> 'a pool" where
  "run_pool = fold pool_step"

end
