(* ===== verification/PoolInv.thy ===== *)
theory PoolInv
  imports Pool
begin

text \<open>
  Invariants of the thread pool that every step keeps: the counter of running tasks is exact,
  and no wake-up of a worker is lost as long as no \<open>reset()\<close> takes a pause back.
\<close>

section \<open>Options\<close>

lemmas tp_defs = tp_none_def tp_priority_def tp_pause_def tp_wait_deadlock_checks_def

lemma options [simp]:
  "\<not> option_enabled tp_none flag" "option_enabled tp_pause tp_pause" "option_enabled tp_priority tp_priority"
  "\<not> option_enabled tp_priority tp_pause" "\<not> option_enabled tp_pause tp_priority"
  "option_enabled tp_wait_deadlock_checks tp_wait_deadlock_checks"
  "\<not> option_enabled tp_wait_deadlock_checks tp_priority" "\<not> option_enabled tp_wait_deadlock_checks tp_pause"
  by (simp_all add: option_enabled_def tp_defs)

lemma thread_pool_fields [simp]:
  "priority_enabled (thread_pool OptFlags hc n) = option_enabled OptFlags tp_priority"
  "pause_enabled (thread_pool OptFlags hc n) = option_enabled OptFlags tp_pause"
  "wait_deadlock_checks_enabled (thread_pool OptFlags hc n) = option_enabled OptFlags tp_wait_deadlock_checks"
  "queue (thread_pool OptFlags hc n) = []" "started (thread_pool OptFlags hc n) = []"
  "waiters (thread_pool OptFlags hc n) = []" "stop_requested (thread_pool OptFlags hc n) = []"
  "was_paused (thread_pool OptFlags hc n) = None"
  "threads (thread_pool OptFlags hc n) = replicate (unat (determine_thread_count hc n)) Starting"
  "tasks_running (thread_pool OptFlags hc n) = determine_thread_count hc n"
  by (simp_all add: thread_pool_def create_threads_def Let_def)

section \<open>The next task\<close>

text \<open>Some queued task has no other above it, so the priority queue has a top.\<close>

lemma candidates_ne:
  assumes "q \<noteq> []"
  shows "candidates q \<noteq> []"
proof -
  define m where "m = Max (set (map (\<lambda>t. sint (priority t)) q))"
  have "m \<in> set (map (\<lambda>t. sint (priority t)) q)" unfolding m_def using assms by (intro Max_in) auto
  then obtain k where k: "k < length q" "sint (priority (q ! k)) = m"
    by (auto simp: in_set_conv_nth)
  have "\<not> pr_less (q ! k) t" if "t \<in> set q" for t
    using that k by (auto simp: pr_less_def m_def linorder_not_less)
  with k have "k \<in> set (candidates q)" by (auto simp: candidates_def list_all_iff)
  then show ?thesis by auto
qed

lemma next_task_candidate: "queue p \<noteq> [] \<Longrightarrow> priority_enabled p \<Longrightarrow> next_task c p \<in> set (candidates (queue p))"
  using candidates_ne [of "queue p"] by (simp add: next_task_def Let_def)

lemma next_task_less: "queue p \<noteq> [] \<Longrightarrow> next_task c p < length (queue p)"
  using next_task_candidate [of p c] by (cases "priority_enabled p") (auto simp: candidates_def next_task_def)

lemma next_task_fifo [simp]: "\<not> priority_enabled p \<Longrightarrow> next_task c p = 0"
  by (simp add: next_task_def)

lemma next_task_cong:
  "queue p = queue p' \<Longrightarrow> priority_enabled p = priority_enabled p' \<Longrightarrow> next_task c p = next_task c p'"
  by (simp add: next_task_def)

section \<open>The number of running tasks\<close>

abbreviation is_notified :: "'a worker \<Rightarrow> bool" where
  "is_notified w \<equiv> w = Notified"

text \<open>
  \<open>tasks_running\<close> counts the workers that execute a task (or have not begun yet), and only
  workers that were asked to stop have stopped.
\<close>

definition pool_ok :: "'a pool \<Rightarrow> bool" where
  "pool_ok p \<longleftrightarrow> tasks_running p = of_nat (number is_active (threads p)) \<and>
     length (threads p) < 2 ^ 64 \<and> (Stopped \<in> set (threads p) \<longrightarrow> stop_requested p \<noteq> [])"

lemma pool_ok_running:
  assumes "pool_ok p"
  shows "tasks_running p = 0 \<longleftrightarrow> number is_active (threads p) = 0"
proof -
  have "number is_active (threads p) < 2 ^ 64"
    using assms number_le [of is_active "threads p"] unfolding pool_ok_def by linarith
  then have "unat (tasks_running p) = number is_active (threads p)"
    using assms by (simp add: pool_ok_def unat_of_nat)
  then show ?thesis by (metis unat_eq_zero)
qed

lemma size_of_u32_zero: "(ucast hc :: size_t) = 0 \<longleftrightarrow> hc = 0"
  for hc :: u32
proof -
  have "uint (ucast hc :: size_t) = uint hc" by (simp add: uint_up_ucast is_up)
  then show ?thesis by (metis uint_0_iff)
qed

lemma determine_thread_count_pos: "determine_thread_count hc n \<noteq> 0"
  by (auto simp: determine_thread_count_def word_neq_0_conv [symmetric] size_of_u32_zero)

text \<open>How the steps of a worker change the counts.\<close>

text \<open>A worker takes the task \<open>t\<close> and leaves the tasks \<open>ts\<close> in the queue.\<close>

definition popped :: "nat \<Rightarrow> 'a pool \<Rightarrow> 'a \<Rightarrow> 'a pr_task list \<Rightarrow> bool" where
  "popped c p t ts \<longleftrightarrow> t = task (queue p ! next_task c p) \<and>
     ts = take (next_task c p) (queue p) @ drop (Suc (next_task c p)) (queue p)"

lemma worker_check_cases:
  assumes "i < length (threads p)"
  obtains (stop) "i \<in> set (stop_requested p)" "worker_check c i p = p\<lparr>threads := (threads p)[i := Stopped]\<rparr>"
  | (pop) t ts where "i \<notin> set (stop_requested p)" "task_available p"
      "popped c p t ts" "length (queue p) = Suc (length ts)"
      "worker_check c i p = p\<lparr>queue := ts, threads := (threads p)[i := Busy t], started := started p @ [t],
         tasks_running := tasks_running p + 1\<rparr>"
  | (sleep) "i \<notin> set (stop_requested p)" "\<not> task_available p"
      "worker_check c i p = p\<lparr>threads := (threads p)[i := Sleeping]\<rparr>"
proof (cases "i \<in> set (stop_requested p)")
  case True
  with that(1) show ?thesis by (simp add: worker_check_def)
next
  case False
  show ?thesis
  proof (cases "task_available p")
    case True
    then have "next_task c p < length (queue p)" by (intro next_task_less) (simp add: task_available_def)
    with False True that(2) show ?thesis by (simp add: worker_check_def pop_task_def popped_def Let_def)
  next
    case nt: False
    with False that(3) show ?thesis by (simp add: worker_check_def)
  qed
qed

lemma worker_check_ok:
  assumes "i < length (threads p)" and "length (threads p) < 2 ^ 64"
    and "tasks_running p = of_nat (number is_active (threads p) - (if is_active (threads p ! i) then 1 else 0))"
    and "Stopped \<in> set (threads p) \<longrightarrow> stop_requested p \<noteq> []"
  shows "pool_ok (worker_check c i p)"
proof -
  let ?w = "threads p ! i"
  have pos: "is_active ?w \<Longrightarrow> 0 < number is_active (threads p)"
    using assms(1) by (auto simp: number_pos)
  have u: "number is_active ((threads p)[i := w]) + (if is_active ?w then 1 else 0) =
      number is_active (threads p) + (if is_active w then 1 else 0)" for w
    using assms(1) by (rule number_update)
  have off: "\<not> is_active w \<Longrightarrow> number is_active ((threads p)[i := w]) =
      number is_active (threads p) - (if is_active ?w then 1 else 0)" for w
    using u [of w] by (auto split: if_splits)
  have on: "number is_active ((threads p)[i := Busy t]) =
      Suc (number is_active (threads p) - (if is_active ?w then 1 else 0))" for t
    using u [of "Busy t"] pos by (auto split: if_splits)
  from assms(1) show ?thesis
  proof (cases rule: worker_check_cases [where c = c])
    case stop
    then show ?thesis using assms off [of Stopped] by (auto simp: pool_ok_def)
  next
    case (pop t ts)
    then show ?thesis using assms on [of t] by (auto simp: pool_ok_def dest: set_updateD)
  next
    case sleep
    then show ?thesis using assms off [of Sleeping] by (auto simp: pool_ok_def dest: set_updateD)
  qed
qed

lemma notify_waiters_simps [simp]:
  "queue (notify_waiters p) = queue p" "tasks_running (notify_waiters p) = tasks_running p"
  "threads (notify_waiters p) = threads p" "stop_requested (notify_waiters p) = stop_requested p"
  "notifies (notify_waiters p) = notifies p" "notify_alls (notify_waiters p) = notify_alls p"
  "started (notify_waiters p) = started p" "waiting (notify_waiters p) = waiting p"
  "paused (notify_waiters p) = paused p" "pause_enabled (notify_waiters p) = pause_enabled p"
  "priority_enabled (notify_waiters p) = priority_enabled p"
  by (simp_all add: notify_waiters_def)

lemma suspended_simps [simp]:
  "is_suspended (notify_waiters p) = is_suspended p"
  "task_available (notify_waiters p) = task_available p"
  "tasks_done (notify_waiters p) = tasks_done p"
  "is_suspended (p\<lparr>tasks_running := n\<rparr>) = is_suspended p"
  "task_available (p\<lparr>tasks_running := n\<rparr>) = task_available p"
  by (simp_all add: is_suspended_def task_available_def tasks_done_def)

text \<open>The state in which a worker at the head of its loop looks for a task.\<close>

definition worker_back :: "'a pool \<Rightarrow> 'a pool" where
  "worker_back p = (let p = p\<lparr>tasks_running := tasks_running p - 1\<rparr>
     in if waiting p \<and> tasks_done p then notify_waiters p else p)"

lemma worker_loop_back: "worker_loop c i p = worker_check c i (worker_back p)"
  by (simp add: worker_loop_def worker_back_def Let_def)

lemma worker_back_simps [simp]:
  "queue (worker_back p) = queue p" "tasks_running (worker_back p) = tasks_running p - 1"
  "threads (worker_back p) = threads p" "stop_requested (worker_back p) = stop_requested p"
  "notifies (worker_back p) = notifies p" "notify_alls (worker_back p) = notify_alls p"
  "started (worker_back p) = started p" "waiting (worker_back p) = waiting p"
  "is_suspended (worker_back p) = is_suspended p" "task_available (worker_back p) = task_available p"
  "pause_enabled (worker_back p) = pause_enabled p"
  "priority_enabled (worker_back p) = priority_enabled p"
  by (simp_all add: worker_back_def Let_def)

lemma next_task_back [simp]: "next_task c (worker_back p) = next_task c p"
  by (rule next_task_cong) simp_all

lemma worker_loop_ok:
  assumes "pool_ok p" and "i < length (threads p)" and "is_active (threads p ! i)"
  shows "pool_ok (worker_loop c i p)"
proof -
  have "0 < number is_active (threads p)" using assms(2,3) by (auto simp: number_pos)
  then show ?thesis
    unfolding worker_loop_back
    using assms by (intro worker_check_ok) (simp_all add: pool_ok_def of_nat_diff)
qed

lemma worker_cases:
  obtains (idle) "worker c i p = p"
  | (loop) "i < length (threads p)" "is_active (threads p ! i)" "worker c i p = worker_loop c i p"
  | (check) "i < length (threads p)" "is_notified (threads p ! i)" "worker c i p = worker_check c i p"
proof (cases "i < length (threads p)")
  case True
  with that show ?thesis by (cases "threads p ! i") (simp_all add: worker_def)
qed (use that(1) in \<open>simp add: worker_def\<close>)

lemma worker_ok:
  assumes "pool_ok p"
  shows "pool_ok (worker c i p)"
proof (cases rule: worker_cases [of c i p])
  case check
  with assms show ?thesis by (simp add: worker_check_ok pool_ok_def [of p])
qed (use assms worker_loop_ok in auto)

lemma destroy_threads_simps [simp]:
  "queue (destroy_threads p) = queue p" "tasks_running (destroy_threads p) = tasks_running p"
  "threads (destroy_threads p) = threads p" "started (destroy_threads p) = started p"
  "notifies (destroy_threads p) = notifies p" "waiters (destroy_threads p) = waiters p"
  "timed (destroy_threads p) = timed p" "was_paused (destroy_threads p) = was_paused p"
  "waiting (destroy_threads p) = waiting p" "paused (destroy_threads p) = paused p"
  "pause_enabled (destroy_threads p) = pause_enabled p" "priority_enabled (destroy_threads p) = priority_enabled p"
  "is_suspended (destroy_threads p) = is_suspended p" "tasks_done (destroy_threads p) = tasks_done p"
  by (simp_all add: destroy_threads_def is_suspended_def tasks_done_def)

text \<open>Threads that only go from sleep to wake-up.\<close>

lemma wake_worker_simps [simp]:
  "queue (wake_worker i p) = queue p" "tasks_running (wake_worker i p) = tasks_running p"
  "stop_requested (wake_worker i p) = stop_requested p" "waiters (wake_worker i p) = waiters p"
  "notifies (wake_worker i p) = notifies p" "notify_alls (wake_worker i p) = notify_alls p"
  "started (wake_worker i p) = started p" "waiting (wake_worker i p) = waiting p"
  "is_suspended (wake_worker i p) = is_suspended p" "tasks_done (wake_worker i p) = tasks_done p"
  "pause_enabled (wake_worker i p) = pause_enabled p" "paused (wake_worker i p) = paused p"
  "length (threads (wake_worker i p)) = length (threads p)"
  by (simp_all add: wake_worker_def is_suspended_def tasks_done_def)

lemma wake_worker_threads:
  "number is_active (threads (wake_worker i p)) = number is_active (threads p)"
  "Stopped \<in> set (threads (wake_worker i p)) \<Longrightarrow> Stopped \<in> set (threads p)"
  "number is_notified (threads p) \<le> number is_notified (threads (wake_worker i p))"
  "Sleeping \<in> set (threads (wake_worker i p)) \<Longrightarrow> Sleeping \<in> set (threads p)"
proof -
  let ?s = "i < length (threads p) \<and> threads p ! i = Sleeping"
  show "number is_active (threads (wake_worker i p)) = number is_active (threads p)"
    by (simp add: wake_worker_def number_update_same)
  show "Stopped \<in> set (threads (wake_worker i p)) \<Longrightarrow> Stopped \<in> set (threads p)"
    "Sleeping \<in> set (threads (wake_worker i p)) \<Longrightarrow> Sleeping \<in> set (threads p)"
    by (auto simp: wake_worker_def dest: set_updateD split: if_splits)
  show "number is_notified (threads p) \<le> number is_notified (threads (wake_worker i p))"
    by (simp add: wake_worker_def number_update_add)
qed

lemma wake_worker_ok: "pool_ok p \<Longrightarrow> pool_ok (wake_worker i p)"
  using wake_worker_threads(2) [of i p] by (auto simp: pool_ok_def wake_worker_threads(1))

lemma number_map: "number P (map f xs) = number (P \<circ> f) xs"
  by (simp add: number_def filter_map comp_def)

lemma number_cong: "(\<And>x. x \<in> set xs \<Longrightarrow> P x = Q x) \<Longrightarrow> number P xs = number Q xs"
  by (simp add: number_def cong: filter_cong)

lemma notify_all_ok:
  assumes "pool_ok p"
  shows "pool_ok (notify_all p)"
proof -
  have "number is_active (map (\<lambda>w. if w = Sleeping then Notified else w) (threads p)) =
      number is_active (threads p)"
    unfolding number_map by (rule number_cong) auto
  with assms show ?thesis by (auto simp: notify_all_def pool_ok_def)
qed

lemma create_threads_ok: "pool_ok (create_threads hc n p)"
  using unsigned_less [of "determine_thread_count hc n", where 'a = nat]
  by (auto simp: create_threads_def pool_ok_def Let_def)

lemma notify_one_cases:
  obtains (none) "notify_one i p = p"
  | (wake) "notifies p \<noteq> 0" "i < length (threads p)" "threads p ! i = Sleeping"
      "notify_one i p = (wake_worker i p)\<lparr>notifies := notifies p - 1\<rparr>"
  | (lost) "notifies p \<noteq> 0" "Sleeping \<notin> set (threads p)" "notify_one i p = p\<lparr>notifies := notifies p - 1\<rparr>"
proof (cases "notifies p = 0")
  case False
  show ?thesis
  proof (cases "i < length (threads p) \<and> threads p ! i = Sleeping")
    case True
    with False wake show ?thesis by (simp add: notify_one_def)
  next
    case n: False
    show ?thesis
    proof (cases "Sleeping \<in> set (threads p)")
      case True
      with False n have "notify_one i p = p" unfolding notify_one_def by auto
      with none show ?thesis .
    next
      case ns: False
      with False n have "notify_one i p = p\<lparr>notifies := notifies p - 1\<rparr>"
        unfolding notify_one_def by auto
      with lost False ns show ?thesis by blast
    qed
  qed
qed (use none in \<open>simp add: notify_one_def\<close>)

lemma pool_ok_frame [simp]:
  "pool_ok (p\<lparr>queue := q\<rparr>) = pool_ok p" "pool_ok (p\<lparr>notifies := n\<rparr>) = pool_ok p"
  "pool_ok (p\<lparr>notify_alls := n\<rparr>) = pool_ok p" "pool_ok (p\<lparr>paused := b\<rparr>) = pool_ok p"
  "pool_ok (p\<lparr>waiting := b\<rparr>) = pool_ok p" "pool_ok (p\<lparr>waiters := ws\<rparr>) = pool_ok p"
  "pool_ok (p\<lparr>timed := bs\<rparr>) = pool_ok p" "pool_ok (p\<lparr>was_paused := r\<rparr>) = pool_ok p"
  by (simp_all add: pool_ok_def)

lemmas client_defs = detach_task_def purge_def pause_def unpause_def wait_call_def wait_wake_def
  wait_timeout_def reset_begin_def

lemma pool_step_ok:
  assumes "pool_ok p"
  shows "pool_ok (pool_step e p)"
proof (cases e)
  case (Notify_one i)
  show ?thesis
    using assms Notify_one
    by (cases rule: notify_one_cases [of i p]) (simp_all add: wake_worker_ok)
next
  case (Request_stop i)
  have "pool_ok (p\<lparr>stop_requested := i # stop_requested p\<rparr>)" using assms by (simp add: pool_ok_def)
  with Request_stop show ?thesis by (simp add: request_stop_def wake_worker_ok)
next
  case Reset_end
  with assms show ?thesis by (simp add: reset_end_def split: option.split)
next
  case Destroy_threads
  with assms show ?thesis by (auto simp: destroy_threads_def pool_ok_def)
qed (use assms in \<open>simp_all add: client_defs worker_ok wake_worker_ok notify_all_ok create_threads_ok\<close>)

section \<open>No lost wake-up of a worker\<close>

text \<open>
  As long as no worker is to stop and the pool is not suspended: if a worker sleeps, there are
  at least as many wake-ups under way (pending notifications, woken workers) as queued tasks.
\<close>

definition wakeups_ok :: "'a pool \<Rightarrow> bool" where
  "wakeups_ok p \<longleftrightarrow> (stop_requested p = [] \<longrightarrow> \<not> is_suspended p \<longrightarrow> notify_alls p = 0 \<longrightarrow>
     Sleeping \<in> set (threads p) \<longrightarrow> length (queue p) \<le> notifies p + number is_notified (threads p))"

lemma wakeups_okI:
  "(stop_requested p = [] \<Longrightarrow> \<not> is_suspended p \<Longrightarrow> notify_alls p = 0 \<Longrightarrow> Sleeping \<in> set (threads p) \<Longrightarrow>
      length (queue p) \<le> notifies p + number is_notified (threads p)) \<Longrightarrow> wakeups_ok p"
  by (simp add: wakeups_ok_def)

text \<open>
  A worker that looks for a task, having been woken or coming from a task: it either takes
  one, which pays for its own wake-up, or finds none.
\<close>

lemma worker_check_wakeups:
  assumes "i < length (threads p)"
    and "stop_requested p = [] \<Longrightarrow> \<not> is_suspended p \<Longrightarrow> notify_alls p = 0 \<Longrightarrow> Sleeping \<in> set (threads p) \<Longrightarrow>
      length (queue p) \<le> notifies p + number is_notified (threads p)"
    and "threads p ! i \<noteq> Sleeping"
  shows "wakeups_ok (worker_check c i p)"
  using assms(1)
proof (cases rule: worker_check_cases [where c = c])
  case stop
  then show ?thesis by (auto simp: wakeups_ok_def)
next
  case (pop t ts)
  have u: "number is_notified (threads p) \<le> number is_notified ((threads p)[i := Busy t]) + 1"
    using number_update [OF assms(1), of is_notified "Busy t"] by (simp split: if_splits)
  show ?thesis
  proof (rule wakeups_okI)
    assume a: "stop_requested (worker_check c i p) = []" "\<not> is_suspended (worker_check c i p)"
      "notify_alls (worker_check c i p) = 0" "Sleeping \<in> set (threads (worker_check c i p))"
    then have "length (queue p) \<le> notifies p + number is_notified (threads p)"
      using pop by (intro assms(2)) (auto simp: is_suspended_def dest: set_updateD)
    then show "length (queue (worker_check c i p)) \<le>
        notifies (worker_check c i p) + number is_notified (threads (worker_check c i p))"
      using pop u by simp
  qed
next
  case sleep
  then show ?thesis by (auto simp: wakeups_ok_def task_available_def is_suspended_def)
qed

lemma wake_worker_wakeups:
  assumes "wakeups_ok p"
  shows "wakeups_ok (wake_worker i p)"
proof (rule wakeups_okI)
  assume "stop_requested (wake_worker i p) = []" "\<not> is_suspended (wake_worker i p)"
    "notify_alls (wake_worker i p) = 0" "Sleeping \<in> set (threads (wake_worker i p))"
  then have "length (queue p) \<le> notifies p + number is_notified (threads p)"
    using assms wake_worker_threads(4) [of i p] by (simp add: wakeups_ok_def)
  then show "length (queue (wake_worker i p)) \<le>
      notifies (wake_worker i p) + number is_notified (threads (wake_worker i p))"
    using wake_worker_threads(3) [of p i] by simp
qed

lemma notify_one_wakeups:
  assumes "wakeups_ok p"
  shows "wakeups_ok (notify_one i p)"
proof (cases rule: notify_one_cases [of i p])
  case wake
  have "number is_notified (threads (wake_worker i p)) = Suc (number is_notified (threads p))"
    using wake by (simp add: wake_worker_def number_update_add)
  moreover have "Sleeping \<in> set (threads p)" using wake by (metis nth_mem)
  ultimately show ?thesis using assms wake by (auto simp: wakeups_ok_def is_suspended_def)
next
  case lost
  then show ?thesis by (simp add: wakeups_ok_def)
qed (use assms in simp)

text \<open>
  The end of a \<open>reset()\<close> may resume a pool with pausing without a notification; no other step
  does that.
\<close>

definition quiet :: "'a pool_event \<Rightarrow> 'a pool \<Rightarrow> bool" where
  "quiet e p \<longleftrightarrow> e = Reset_end \<longrightarrow> \<not> pause_enabled p"

lemma pool_step_wakeups:
  assumes "wakeups_ok p" and "quiet e p"
  shows "wakeups_ok (pool_step e p)"
proof (cases e)
  case (Worker c i)
  have "wakeups_ok (worker c i p)"
  proof (cases rule: worker_cases [of c i p])
    case loop
    then show ?thesis
      using assms by (simp add: worker_loop_back) (intro worker_check_wakeups; auto simp: wakeups_ok_def)
  next
    case check
    then show ?thesis
      using assms by simp (intro worker_check_wakeups; simp add: wakeups_ok_def)
  qed (use assms in simp)
  with Worker show ?thesis by simp
next
  case (Request_stop i)
  then show ?thesis by (simp add: request_stop_def wakeups_ok_def)
next
  case Notify_all
  have "Sleeping \<notin> set (map (\<lambda>w. if w = Sleeping then Notified else w) (threads p))" by auto
  with Notify_all assms show ?thesis by (simp add: notify_all_def wakeups_ok_def)
next
  case (Notify_one i)
  with assms show ?thesis by (simp add: notify_one_wakeups)
next
  case (Spurious i)
  with assms show ?thesis by (simp add: wake_worker_wakeups)
next
  case Reset_end
  with assms show ?thesis by (simp add: quiet_def reset_end_def split: option.split)
next
  case Destroy_threads
  then show ?thesis by (simp add: destroy_threads_def wakeups_ok_def)
qed (use assms in \<open>auto simp: client_defs create_threads_def Let_def wakeups_ok_def is_suspended_def\<close>)

end
