(* ===== verification/Blocks.thy ===== *)
theory Blocks
  imports IndexTypes PoolInv
begin

text \<open>
  Parallel loops of the thread pool (src/src/BS_thread_pool.hpp): the class \<open>BS::blocks\<close>, which
  splits an index range, and the members of \<open>BS::thread_pool\<close> that queue one task per block or
  per index, for every integer type of the indices. The block function, the loop function and
  the sequence function are the user's; a task is the call it makes of them.
\<close>

section \<open>BS::blocks\<close>

record blocks =
  block_size :: size_t
  first_index :: int
  index_after_last :: int
  num_blocks :: size_t
  remainder :: size_t

definition blocks_of :: "int_type \<Rightarrow> int \<Rightarrow> int \<Rightarrow> size_t \<Rightarrow> blocks result" where
  "blocks_of T first_ind ind_after_last n =
     (let b = \<lparr>block_size = 0, first_index = first_ind, index_after_last = ind_after_last,
               num_blocks = n, remainder = 0\<rparr>
      in if first_ind < ind_after_last then
           ebind (arith T (ind_after_last - first_ind)) (\<lambda>difference.
             let total_size = word_of_int difference;
                 nb = min n total_size
             in if nb = 0 then Inl Division_by_zero
                else let b = b\<lparr>num_blocks := nb, block_size := total_size div nb, remainder := total_size mod nb\<rparr>
                     in if block_size b = 0
                        then Inr (b\<lparr>block_size := 1, num_blocks := (if 1 < total_size then total_size else 1)\<rparr>)
                        else Inr b)
         else Inr (b\<lparr>num_blocks := 0\<rparr>))"

definition start :: "int_type \<Rightarrow> size_t \<Rightarrow> blocks \<Rightarrow> int result" where
  "start T block b =
     ebind (arith T (first_index b + cast T (uint (block * block_size b)))) (\<lambda>sum.
     ebind (arith T (sum + cast T (uint (if block < remainder b then block else remainder b)))) (\<lambda>sum.
       Inr (cast T sum)))"

definition end_of :: "int_type \<Rightarrow> size_t \<Rightarrow> blocks \<Rightarrow> int result" where
  "end_of T block b = (if block = num_blocks b - 1 then Inr (index_after_last b) else start T (block + 1) b)"

definition get_num_blocks :: "blocks \<Rightarrow> size_t" where
  "get_num_blocks b = num_blocks b"

section \<open>Queuing\<close>

text \<open>
  The tasks: one call of a block function on a range, a loop over a range, one call on an index.
\<close>

datatype job =
    Block_job int int
  | Loop_job int int
  | Index_job int

text \<open>
  \<open>for (T i = start; i < end; ++i)\<close>: the indices it visits. The increment stays within the type,
  as \<open>i\<close> is below a value of it.
\<close>

function indices :: "int \<Rightarrow> int \<Rightarrow> int list" where
  "indices i e = (if i < e then i # indices (i + 1) e else [])"
  by pat_completeness auto

termination indices
  by (relation "measure (\<lambda>(i, e). nat (e - i))") auto

declare indices.simps [simp del]

text \<open>The loop over the blocks, with what it does for a block from \<open>i\<close> to \<open>e\<close>.\<close>

definition block_numbers :: "blocks \<Rightarrow> size_t list" where
  "block_numbers b = map of_nat [0..<unat (get_num_blocks b)]"

definition each_block :: "int_type \<Rightarrow> (int \<Rightarrow> int \<Rightarrow> 's \<Rightarrow> 's) \<Rightarrow> blocks \<Rightarrow> 's \<Rightarrow> 's result" where
  "each_block T act b =
     efold (\<lambda>blk s. ebind (start T blk b) (\<lambda>i. ebind (end_of T blk b) (\<lambda>e. Inr (act i e s)))) (block_numbers b)"

text \<open>\<open>thread_count\<close> is the pool's number of threads; 0 blocks stand for it.\<close>

definition parallel ::
  "size_t \<Rightarrow> int_type \<Rightarrow> int_type \<Rightarrow> int \<Rightarrow> int \<Rightarrow> size_t \<Rightarrow> (int \<Rightarrow> int \<Rightarrow> 's \<Rightarrow> 's) \<Rightarrow> 's \<Rightarrow> 's result" where
  "parallel thread_count T1 T2 first_ind ind_after_last n act s =
     (let T = common_index_type T1 T2; first_ind = cast T first_ind; ind_after_last = cast T ind_after_last
      in if first_ind < ind_after_last then
           ebind (blocks_of T first_ind ind_after_last (if n \<noteq> 0 then n else thread_count)) (\<lambda>blks.
             each_block T act blks s)
         else Inr s)"

definition detach_blocks ::
  "int_type \<Rightarrow> int_type \<Rightarrow> int \<Rightarrow> int \<Rightarrow> size_t \<Rightarrow> priority_t \<Rightarrow> job pool \<Rightarrow> job pool result" where
  "detach_blocks T1 T2 first_ind ind_after_last n pri p =
     parallel (get_thread_count p) T1 T2 first_ind ind_after_last n
       (\<lambda>i e. detach_task (Block_job i e) pri) p"

definition detach_loop ::
  "int_type \<Rightarrow> int_type \<Rightarrow> int \<Rightarrow> int \<Rightarrow> size_t \<Rightarrow> priority_t \<Rightarrow> job pool \<Rightarrow> job pool result" where
  "detach_loop T1 T2 first_ind ind_after_last n pri p =
     parallel (get_thread_count p) T1 T2 first_ind ind_after_last n
       (\<lambda>i e. detach_task (Loop_job i e) pri) p"

definition detach_sequence ::
  "int_type \<Rightarrow> int_type \<Rightarrow> int \<Rightarrow> int \<Rightarrow> priority_t \<Rightarrow> job pool \<Rightarrow> job pool" where
  "detach_sequence T1 T2 first_ind ind_after_last pri p =
     (let T = common_index_type T1 T2
      in fold (\<lambda>i. detach_task (Index_job i) pri) (indices (cast T first_ind) (cast T ind_after_last)) p)"

text \<open>The indices a task calls the loop function on.\<close>

fun job_calls :: "job \<Rightarrow> int list" where
  "job_calls (Block_job s e) = indices s e"
| "job_calls (Loop_job s e) = indices s e"
| "job_calls (Index_job i) = [i]"

section \<open>Ranges\<close>

lemma indices_upto: "indices i e = [i..e - 1]"
proof (induction i e rule: indices.induct)
  case (1 i e)
  then show ?case by (subst indices.simps) (simp add: upto_rec1)
qed

lemma indices_range: "indices (a + int m) (a + int n) = map (\<lambda>k. a + int k) [m..<n]"
proof (induction n)
  case (Suc n)
  show ?case
  proof (cases "m \<le> n")
    case True
    then have "[a + int m..a + int n] = [a + int m..a + int n - 1] @ [a + int n]" by (simp add: upto_rec2)
    with Suc True show ?thesis by (simp add: indices_upto)
  qed (simp add: indices_upto)
qed (simp add: indices_upto)

lemma concat_ranges:
  "(\<And>k. k < n \<Longrightarrow> s k \<le> s (Suc k)) \<Longrightarrow> concat (map (\<lambda>k. [s k..<s (Suc k)]) [0..<n]) = [s 0..<s n]"
  for s :: "nat \<Rightarrow> nat"
proof (induction n)
  case (Suc n)
  have "s 0 \<le> s k" if "k \<le> n" for k
    using that
  proof (induction k)
    case (Suc k)
    then have "s 0 \<le> s k" "s k \<le> s (Suc k)" using Suc.prems \<open>\<And>k. k < Suc n \<Longrightarrow> s k \<le> s (Suc k)\<close> by simp_all
    then show ?case by linarith
  qed simp
  then have "s 0 \<le> s n" "s n \<le> s (Suc n)" using Suc.prems by auto
  with Suc show ?case using upt_add_eq_append [of "s 0" "s n" "s (Suc n) - s n"] by simp
qed simp

text \<open>The boundaries of the blocks in natural numbers.\<close>

definition boundary :: "nat \<Rightarrow> nat \<Rightarrow> nat \<Rightarrow> nat \<Rightarrow> nat" where
  "boundary first tot n k = first + k * (tot div n) + min k (tot mod n)"

lemma boundary_ends: "0 < n \<Longrightarrow> boundary first tot n 0 = first \<and> boundary first tot n n = first + tot"
  by (simp add: boundary_def min_absorb2 less_imp_le)

lemma boundary_Suc:
  "boundary first tot n (Suc k) = boundary first tot n k + tot div n + (if k < tot mod n then 1 else 0)"
  by (simp add: boundary_def)

lemma boundary_mono: "k \<le> m \<Longrightarrow> boundary first tot n k \<le> boundary first tot n m"
  by (simp add: boundary_def add_mono mult_le_mono1 min.coboundedI1)

section \<open>The split\<close>

text \<open>The difference of two values of an index type: exact unless a signed type overflows.\<close>

definition overflows :: "int_type \<Rightarrow> int \<Rightarrow> int \<Rightarrow> bool" where
  "overflows T fi la \<longleftrightarrow> is_signed (promote T) \<and> max_value (promote T) < la - fi"

lemma promote_cases:
  assumes "T \<in> set int_types"
  obtains (narrow) "promote T = int32_t" "size_of T \<le> 2" "- 32768 \<le> min_value T" "max_value T \<le> 65535"
  | (signed) "promote T = T" "is_signed T" "size_of T \<noteq> 0"
  | (unsigned) "promote T = T" "\<not> is_signed T" "size_of T \<noteq> 0"
proof (cases "size_of T < 4")
  case True
  with assms have "T \<in> {int8_t, int16_t, uint8_t, uint16_t}" by (auto simp: int_types_def)
  with that(1) show ?thesis by (auto simp: promote_def min_value_def max_value_def modulus_def)
next
  case False
  with that(2,3) show ?thesis by (auto simp: promote_def)
qed

lemma type_facts:
  assumes "T \<in> set int_types"
  shows "size_of T \<noteq> 0" "min_value T \<le> 0" "0 \<le> max_value T" "modulus T \<le> 2 ^ 64"
    "modulus T = max_value T - min_value T + 1"
proof -
  have "\<forall>T \<in> set int_types. size_of T \<noteq> 0 \<and> min_value T \<le> 0 \<and> 0 \<le> max_value T \<and> modulus T \<le> 2 ^ 64 \<and>
      modulus T = max_value T - min_value T + 1"
    by (simp add: type_table)
  with assms show "size_of T \<noteq> 0" "min_value T \<le> 0" "0 \<le> max_value T" "modulus T \<le> 2 ^ 64"
    "modulus T = max_value T - min_value T + 1" by blast+
qed

lemma arith_difference:
  assumes "T \<in> set int_types" and "in_type T fi" and "in_type T la" and "fi < la"
  shows "arith T (la - fi) = (if overflows T fi la then Inl Signed_overflow else Inr (la - fi))"
  using assms(1)
proof (cases rule: promote_cases)
  case narrow
  have "la - fi \<le> 98303" using narrow assms(2,3) by (simp add: in_type_def)
  with narrow assms(4) show ?thesis
    by (simp add: arith_exact overflows_def in_type_def min_value_def max_value_def modulus_def)
next
  case signed
  with assms(4) show ?thesis
    using type_facts(2) [OF assms(1)]
    by (auto simp: overflows_def arith_def in_type_def Let_def)
next
  case unsigned
  then have "min_value T = 0" by (simp add: min_value_def)
  then have "la - fi < modulus T"
    using assms(2,3) type_facts(5) [OF assms(1)] by (simp add: in_type_def)
  with unsigned assms(4) show ?thesis by (simp add: arith_unsigned overflows_def mod_pos_pos_trivial)
qed

lemma cast_mod_add: "(x + cast T y) mod modulus T = (x + y) mod modulus T"
proof -
  have "(x + cast T y) mod modulus T = (x + cast T y mod modulus T) mod modulus T" by (simp add: mod_simps)
  then show ?thesis by (simp add: cast_mod mod_simps)
qed

text \<open>The two sums of \<open>start()\<close> do not fault and give the exact result.\<close>

lemma sums:
  assumes "T \<in> set int_types" and "in_type T f" and "in_type T (f + a + c)" and "0 \<le> a" and "0 \<le> c"
    and "is_signed (promote T) \<longrightarrow> a + c \<le> max_value (promote T)"
  shows "\<exists>s r. arith T (f + cast T a) = Inr s \<and> arith T (s + cast T c) = Inr r \<and> cast T r = f + a + c"
proof -
  note nz = type_facts(1) [OF assms(1)]
  have ca: "in_type T (cast T x)" for x using nz by (rule cast_in_type)
  have "\<exists>s r. arith T (f + cast T a) = Inr s \<and> arith T (s + cast T c) = Inr r"
    using assms(1)
  proof (cases rule: promote_cases)
    case narrow
    have b: "- 32768 \<le> x \<and> x \<le> 65535" if "in_type T x" for x using that narrow by (auto simp: in_type_def)
    have "in_type int32_t (f + cast T a)" "in_type int32_t (f + cast T a + cast T c)"
      using b [OF assms(2)] b [OF ca [of a]] b [OF ca [of c]]
      by (simp_all add: in_type_def min_value_def max_value_def modulus_def)
    with narrow show ?thesis by (simp add: arith_exact)
  next
    case signed
    have "in_type T a" "in_type T c" "in_type T (f + a)"
      using assms(2-6) signed type_facts(2) [OF assms(1)] by (simp_all add: in_type_def)
    with signed assms(3) show ?thesis by (simp add: arith_exact cast_id)
  next
    case unsigned
    then show ?thesis by (simp add: arith_unsigned)
  qed
  then obtain s r where sr: "arith T (f + cast T a) = Inr s" "arith T (s + cast T c) = Inr r" by blast
  have "r mod modulus T = (s + c) mod modulus T" using arith_mod [OF sr(2)] by (simp add: cast_mod_add)
  also have "\<dots> = (s mod modulus T + c) mod modulus T" by (simp add: mod_simps)
  also have "s mod modulus T = (f + a) mod modulus T" using arith_mod [OF sr(1)] by (simp add: cast_mod_add)
  also have "((f + a) mod modulus T + c) mod modulus T = (f + a + c) mod modulus T" by (simp add: mod_simps)
  finally have "cast T r = f + a + c" by (intro cast_unique nz assms(3))
  with sr show ?thesis by blast
qed

lemma unat_of_difference: "0 \<le> d \<Longrightarrow> d < 2 ^ 64 \<Longrightarrow> unat (word_of_int d :: size_t) = nat d"
  by (simp add: unsigned_of_int take_bit_int_eq_self)

lemma difference_less:
  assumes "T \<in> set int_types" and "in_type T fi" and "in_type T la"
  shows "la - fi < 2 ^ 64"
  using assms(2,3) type_facts(4,5) [OF assms(1)] by (simp add: in_type_def)

lemma blocks_of_split:
  assumes "T \<in> set int_types" and "in_type T fi" and "in_type T la" and "fi < la" and "n \<noteq> 0"
    and "\<not> overflows T fi la"
  defines "tot \<equiv> nat (la - fi)"
  defines "nb \<equiv> min (unat n) tot"
  shows "\<exists>b. blocks_of T fi la n = Inr b \<and> first_index b = fi \<and> index_after_last b = la \<and>
    unat (num_blocks b) = nb \<and> 0 < nb \<and> unat (block_size b) = tot div nb \<and>
    unat (remainder b) = tot mod nb \<and> 0 < tot div nb"
proof -
  let ?t = "word_of_int (la - fi) :: size_t"
  let ?nb = "min n ?t"
  have t: "unat ?t = tot"
    unfolding tot_def using assms(4) difference_less [OF assms(1-3)] by (intro unat_of_difference) simp_all
  have pos: "0 < tot" using assms(4) by (simp add: tot_def)
  have n: "0 < unat n" using assms(5) by (metis unat_eq_zero gr0I)
  have nb: "unat ?nb = nb" unfolding nb_def t [symmetric] by (simp add: min_def word_le_nat_alt)
  have nb0: "0 < nb" using pos n by (simp add: nb_def)
  then have "?nb \<noteq> 0" using nb by (metis unat_0 less_irrefl)
  have q: "0 < tot div nb" using nb0 by (simp add: div_greater_zero_iff nb_def)
  have "unat (?t div ?nb) = tot div nb" "unat (?t mod ?nb) = tot mod nb"
    by (simp_all only: unat_div unat_mod t nb)
  moreover from this q have "?t div ?nb \<noteq> 0" by (metis unat_0 less_irrefl)
  ultimately show ?thesis
    using assms(4,6) \<open>?nb \<noteq> 0\<close> nb nb0 q arith_difference [OF assms(1-4)]
    by (simp add: blocks_of_def Let_def)
qed

lemma start_value:
  assumes "T \<in> set int_types" and "in_type T fi" and "in_type T la" and "fi < la" and "\<not> overflows T fi la"
    and "tot = nat (la - fi)" and "first_index b = fi" and "0 < nb" and "nb \<le> tot"
    and "unat (block_size b) = tot div nb" and "unat (remainder b) = tot mod nb" and "k \<le> nb"
  shows "start T (of_nat k) b = Inr (fi + int (boundary 0 tot nb k))"
proof -
  let ?k = "of_nat k :: size_t"
  let ?r = "if ?k < remainder b then ?k else remainder b"
  have tot64: "tot < 2 ^ 64" using difference_less [OF assms(1-3)] assms(4,6) by simp
  have kn: "k * (tot div nb) + min k (tot mod nb) \<le> tot"
    using boundary_mono [OF assms(12), of 0 tot nb] boundary_ends [OF assms(8), of 0 tot]
    by (simp add: boundary_def)
  have k64: "k < 2 ^ 64" using assms(9,12) tot64 by linarith
  have "k * (tot div nb) < 2 ^ 64" using kn tot64 by linarith
  then have mul: "unat (?k * block_size b) = k * (tot div nb)"
    using k64 assms(10) by (simp add: unat_word_ariths(2) unat_of_nat)
  have uk: "unat ?k = k" using k64 by (simp add: unat_of_nat)
  have r: "unat ?r = min k (tot mod nb)" using uk assms(11) by (simp add: word_less_nat_alt)
  let ?a = "int (k * (tot div nb))"
  let ?c = "int (min k (tot mod nb))"
  have ac: "?a + ?c \<le> la - fi" using kn assms(4,6) by linarith
  have nn: "0 \<le> ?a" "0 \<le> ?c" by (simp_all only: of_nat_0_le_iff)
  then have "in_type T (fi + ?a + ?c)" using ac assms(2,3) unfolding in_type_def by linarith
  moreover have "is_signed (promote T) \<longrightarrow> ?a + ?c \<le> max_value (promote T)"
    using ac assms(5) by (auto simp: overflows_def)
  ultimately obtain s t where "arith T (fi + cast T ?a) = Inr s" "arith T (s + cast T ?c) = Inr t"
    "cast T t = fi + ?a + ?c"
    using sums [OF assms(1,2), of ?a ?c] by auto
  moreover have "uint (?k * block_size b) = ?a" "uint ?r = ?c"
    unfolding mul [symmetric] r [symmetric] by simp_all
  ultimately show ?thesis by (simp add: start_def assms(7) boundary_def)
qed

text \<open>The split covers the range, block by block and without overlap.\<close>

lemma blocks_cover:
  assumes "T \<in> set int_types" and "in_type T fi" and "in_type T la" and "fi < la" and "n \<noteq> 0"
    and "\<not> overflows T fi la"
  obtains b nb where "blocks_of T fi la n = Inr b" and "unat (num_blocks b) = nb"
    and "nb = min (unat n) (nat (la - fi))" and "0 < nb"
    and "\<And>k. k < nb \<Longrightarrow> start T (of_nat k) b = Inr (fi + int (boundary 0 (nat (la - fi)) nb k))"
    and "\<And>k. k < nb \<Longrightarrow> end_of T (of_nat k) b = Inr (fi + int (boundary 0 (nat (la - fi)) nb (Suc k)))"
proof -
  define tot where "tot = nat (la - fi)"
  define nb where "nb = min (unat n) tot"
  obtain b where b: "blocks_of T fi la n = Inr b" "first_index b = fi" "index_after_last b = la"
    "unat (num_blocks b) = nb" "0 < nb" "unat (block_size b) = tot div nb" "unat (remainder b) = tot mod nb"
    using blocks_of_split [OF assms] unfolding tot_def nb_def by blast
  have s: "start T (of_nat k) b = Inr (fi + int (boundary 0 tot nb k))" if "k \<le> nb" for k
    using start_value [OF assms(1-4,6) tot_def b(2,5) _ b(6,7) that] by (simp add: nb_def)
  have n64: "nb < 2 ^ 64" using b(4) unsigned_less [of "num_blocks b", where 'a = nat] by simp
  have e: "end_of T (of_nat k) b = Inr (fi + int (boundary 0 tot nb (Suc k)))" if k: "k < nb" for k
  proof -
    have "(of_nat k = num_blocks b - 1) = (unat (of_nat k :: size_t) = unat (num_blocks b - 1))"
      by (rule word_unat_eq_iff)
    also have "unat (num_blocks b - 1) = nb - 1"
      using b(4,5) by (simp add: unat_sub word_le_nat_alt)
    finally have last: "(of_nat k = num_blocks b - 1) = (k = nb - 1)"
      using k n64 by (simp add: unat_of_nat)
    show ?thesis
    proof (cases "k = nb - 1")
      case True
      with last have "end_of T (of_nat k) b = Inr la" by (simp add: end_of_def b(3))
      moreover have "Suc k = nb" using True b(5) by simp
      ultimately show ?thesis
        using boundary_ends [OF b(5), of 0 tot] assms(4) by (simp add: tot_def)
    next
      case False
      then have "end_of T (of_nat k) b = start T (of_nat (Suc k)) b"
        using last by (simp add: end_of_def add.commute)
      with s [of "Suc k"] k show ?thesis by simp
    qed
  qed
  show ?thesis
    by (rule that [OF b(1,4)]) (use s e b(5) in \<open>simp_all add: tot_def nb_def\<close>)
qed

text \<open>The blocks as pairs of bounds, and the loop over them.\<close>

definition bounds :: "int \<Rightarrow> nat \<Rightarrow> nat \<Rightarrow> (int \<times> int) list" where
  "bounds fi tot nb = map (\<lambda>k. (fi + int (boundary 0 tot nb k), fi + int (boundary 0 tot nb (Suc k)))) [0..<nb]"

lemma bounds_cover:
  assumes "0 < nb"
  shows "concat (map (\<lambda>(i, e). indices i e) (bounds fi tot nb)) = indices fi (fi + int tot)"
proof -
  let ?b = "boundary 0 tot nb"
  have "concat (map (\<lambda>(i, e). indices i e) (bounds fi tot nb)) =
      map (\<lambda>k. fi + int k) (concat (map (\<lambda>k. [?b k..<?b (Suc k)]) [0..<nb]))"
    by (simp add: bounds_def indices_range map_concat comp_def)
  also have "concat (map (\<lambda>k. [?b k..<?b (Suc k)]) [0..<nb]) = [?b 0..<?b nb]"
    by (rule concat_ranges) (simp add: boundary_Suc)
  also have "\<dots> = [0..<tot]" using boundary_ends [OF assms, of 0 tot] by simp
  finally show ?thesis using indices_range [of fi 0 tot] by simp
qed

lemma each_block_fold:
  assumes "unat (num_blocks b) = nb"
    and "\<And>k. k < nb \<Longrightarrow> start T (of_nat k) b = Inr (fi + int (boundary 0 tot nb k))"
    and "\<And>k. k < nb \<Longrightarrow> end_of T (of_nat k) b = Inr (fi + int (boundary 0 tot nb (Suc k)))"
  shows "each_block T act b s = Inr (fold (\<lambda>(i, e). act i e) (bounds fi tot nb) s)"
proof -
  have "efold (\<lambda>blk s. ebind (start T blk b) (\<lambda>i. ebind (end_of T blk b) (\<lambda>e. Inr (act i e s))))
      (map of_nat ks) s =
      Inr (fold (\<lambda>(i, e). act i e)
        (map (\<lambda>k. (fi + int (boundary 0 tot nb k), fi + int (boundary 0 tot nb (Suc k)))) ks) s)"
    if "\<forall>k \<in> set ks. k < nb" for ks s
    using that by (induction ks arbitrary: s) (simp_all add: assms(2,3))
  from this [of "[0..<nb]" s] show ?thesis
    by (simp add: each_block_def block_numbers_def get_num_blocks_def assms(1) bounds_def)
qed

text \<open>What a parallel loop does: it folds over blocks that cover the range.\<close>

lemma parallel_fold:
  assumes "T1 \<in> set int_types" and "T2 \<in> set int_types" and "T = common_index_type T1 T2"
    and "f = cast T fi" and "l = cast T la" and "tc \<noteq> 0"
  shows "if f < l \<and> overflows T f l then parallel tc T1 T2 fi la n act s = Inl Signed_overflow
    else \<exists>bs. parallel tc T1 T2 fi la n act s = Inr (fold (\<lambda>(i, e). act i e) bs s) \<and>
      concat (map (\<lambda>(i, e). indices i e) bs) = indices f l"
proof (cases "f < l")
  case False
  then have "parallel tc T1 T2 fi la n act s = Inr (fold (\<lambda>(i, e). act i e) [] s)"
    unfolding parallel_def assms(3) [symmetric] assms(4,5) by (simp add: Let_def)
  moreover have "concat (map (\<lambda>(i, e). indices i e) []) = indices f l"
    using False by (subst indices.simps) simp
  ultimately have "\<exists>bs. parallel tc T1 T2 fi la n act s = Inr (fold (\<lambda>(i, e). act i e) bs s) \<and>
      concat (map (\<lambda>(i, e). indices i e) bs) = indices f l" by blast
  with False show ?thesis by simp
next
  case fl: True
  have T: "T \<in> set int_types" using common_index_type_table(1) assms(1-3) by blast
  have r: "in_type T f" "in_type T l"
    unfolding assms(4,5) using type_facts(1) [OF T] by (simp_all add: cast_in_type)
  let ?n = "if n \<noteq> 0 then n else tc"
  have p: "parallel tc T1 T2 fi la n act s = ebind (blocks_of T f l ?n) (\<lambda>blks. each_block T act blks s)"
    using fl unfolding parallel_def assms(3) [symmetric] by (simp add: assms(4,5) Let_def)
  have n0: "?n \<noteq> 0" using assms(6) by simp
  show ?thesis
  proof (cases "overflows T f l")
    case True
    then have "blocks_of T f l ?n = Inl Signed_overflow"
      using fl arith_difference [OF T r fl] by (simp add: blocks_of_def Let_def)
    with p fl True show ?thesis by simp
  next
    case False
    obtain b nb where b: "blocks_of T f l ?n = Inr b" "unat (num_blocks b) = nb" "0 < nb"
      and s: "\<And>k. k < nb \<Longrightarrow> start T (of_nat k) b = Inr (f + int (boundary 0 (nat (l - f)) nb k))"
      and e: "\<And>k. k < nb \<Longrightarrow> end_of T (of_nat k) b = Inr (f + int (boundary 0 (nat (l - f)) nb (Suc k)))"
      using blocks_cover [OF T r fl n0 False] by metis
    have "parallel tc T1 T2 fi la n act s = Inr (fold (\<lambda>(i, e). act i e) (bounds f (nat (l - f)) nb) s)"
      unfolding p b(1) using each_block_fold [OF b(2) s e] by simp
    with bounds_cover [OF b(3), of f "nat (l - f)"] fl False show ?thesis by auto
  qed
qed

lemma fold_detach:
  "map task (queue (fold (\<lambda>(i, e). detach_task (J i e) pri) bs p)) = map task (queue p) @ map (\<lambda>(i, e). J i e) bs"
  "map task (queue (fold (\<lambda>i. detach_task (K i) pri) xs p)) = map task (queue p) @ map K xs"
proof -
  show "map task (queue (fold (\<lambda>(i, e). detach_task (J i e) pri) bs p)) = map task (queue p) @ map (\<lambda>(i, e). J i e) bs"
    by (induction bs arbitrary: p) (auto simp: detach_task_def)
  show "map task (queue (fold (\<lambda>i. detach_task (K i) pri) xs p)) = map task (queue p) @ map K xs"
    by (induction xs arbitrary: p) (simp_all add: detach_task_def)
qed

lemma job_calls_bounds:
  "concat (map job_calls (map (\<lambda>(i, e). Block_job i e) bs)) = concat (map (\<lambda>(i, e). indices i e) bs)"
  "concat (map job_calls (map (\<lambda>(i, e). Loop_job i e) bs)) = concat (map (\<lambda>(i, e). indices i e) bs)"
  "concat (map job_calls (map Index_job xs)) = xs"
proof -
  show "concat (map job_calls (map (\<lambda>(i, e). Block_job i e) bs)) = concat (map (\<lambda>(i, e). indices i e) bs)"
    "concat (map job_calls (map (\<lambda>(i, e). Loop_job i e) bs)) = concat (map (\<lambda>(i, e). indices i e) bs)"
    by (induction bs) auto
  show "concat (map job_calls (map Index_job xs)) = xs" by (induction xs) simp_all
qed

lemma get_thread_count_pos:
  "threads p \<noteq> [] \<Longrightarrow> length (threads p) < 2 ^ 64 \<Longrightarrow> get_thread_count p \<noteq> 0"
  by (metis get_thread_count_def length_0_conv unat_0 unat_of_size)

section \<open>Properties\<close>

text \<open>
  C37: The split of a non-empty range \<open>[first, last)\<close> of any index type into at most
  \<open>n > 0\<close> blocks: when the length of the range overflows a signed type that is undefined behaviour;
  otherwise nothing overflows, there is no division by zero, and there are \<open>min n (last -
  first)\<close> blocks, none empty, which follow one another without gap or overlap and together
  are the range; their sizes differ by at most one, the longer ones first.
\<close>
theorem blocks_partition:
  assumes "T \<in> set int_types" and "in_type T fi" and "in_type T la" and "fi < la" and "n \<noteq> 0"
  shows "if overflows T fi la then blocks_of T fi la n = Inl Signed_overflow
    else \<exists>b bs. blocks_of T fi la n = Inr b \<and>
      unat (get_num_blocks b) = length bs \<and> length bs = min (unat n) (nat (la - fi)) \<and>
      concat (map (\<lambda>(i, e). indices i e) bs) = indices fi la \<and>
      (\<forall>k < length bs. start T (of_nat k) b = Inr (fst (bs ! k)) \<and> end_of T (of_nat k) b = Inr (snd (bs ! k)) \<and>
         fst (bs ! k) < snd (bs ! k) \<and>
         snd (bs ! k) - fst (bs ! k) =
           int (nat (la - fi) div length bs + (if k < nat (la - fi) mod length bs then 1 else 0)))"
proof (cases "overflows T fi la")
  case True
  then show ?thesis using arith_difference [OF assms(1-4)] assms(4) by (simp add: blocks_of_def Let_def)
next
  case False
  obtain b nb where b: "blocks_of T fi la n = Inr b" "unat (num_blocks b) = nb"
    "nb = min (unat n) (nat (la - fi))" "0 < nb"
    and s: "\<And>k. k < nb \<Longrightarrow> start T (of_nat k) b = Inr (fi + int (boundary 0 (nat (la - fi)) nb k))"
    and e: "\<And>k. k < nb \<Longrightarrow> end_of T (of_nat k) b = Inr (fi + int (boundary 0 (nat (la - fi)) nb (Suc k)))"
    using blocks_cover [OF assms False] by metis
  let ?bs = "bounds fi (nat (la - fi)) nb"
  have q: "0 < nat (la - fi) div nb" using b(3,4) by (simp add: div_greater_zero_iff)
  have n: "length ?bs = nb" by (simp add: bounds_def)
  have c: "concat (map (\<lambda>(i, e). indices i e) ?bs) = indices fi la"
    using bounds_cover [OF b(4), of fi "nat (la - fi)"] assms(4) by simp
  have z: "start T (of_nat k) b = Inr (fst (?bs ! k)) \<and> end_of T (of_nat k) b = Inr (snd (?bs ! k)) \<and>
         fst (?bs ! k) < snd (?bs ! k) \<and>
         snd (?bs ! k) - fst (?bs ! k) = int (nat (la - fi) div nb + (if k < nat (la - fi) mod nb then 1 else 0))"
    if "k < nb" for k
    using s [OF that] e [OF that] q that by (simp add: bounds_def boundary_Suc)
  have "unat (get_num_blocks b) = nb" using b(2) by (simp add: get_num_blocks_def)
  then show ?thesis
    unfolding if_not_P [OF False]
    by (intro exI [of _ b] exI [of _ ?bs] conjI allI impI) (simp_all only: n b(1) b(3) [symmetric] c z)
qed

theorem blocks_partition_witness:
  "\<exists>b bs. blocks_of int8_t (- 128) 127 3 = Inr b \<and> length bs = 3 \<and>
     concat (map (\<lambda>(i, e). indices i e) bs) = indices (- 128) 127 \<and>
     (\<forall>k < length bs. start int8_t (of_nat k) b = Inr (fst (bs ! k)))"
proof -
  have "int8_t \<in> set int_types" "in_type int8_t (- 128)" "in_type int8_t 127" "\<not> overflows int8_t (- 128) 127"
    by (simp_all add: int_types_iff in_type_def overflows_def promote_def min_value_def max_value_def modulus_def)
  with blocks_partition [of int8_t "- 128" 127 3] show ?thesis by auto
qed

text \<open>
  C38: The three ways to parallelise a loop queue, behind the tasks already there, tasks that
  together visit each index of the range exactly once, in order: for any two index types, any
  range (an empty one queues nothing) and any number of blocks, including 0, which stands
  for the number of threads of the pool. Excepted are ranges of a signed type whose length
  overflows it, on which the two loops over blocks are undefined.
\<close>
theorem loops_complete:
  fixes fi la :: int
  assumes "T1 \<in> set int_types" and "T2 \<in> set int_types"
    and "threads p \<noteq> []" and "length (threads p) < 2 ^ 64"
  defines "T \<equiv> common_index_type T1 T2"
  defines "f \<equiv> cast T fi" and "l \<equiv> cast T la"
  shows "(\<exists>js. map task (queue (detach_sequence T1 T2 fi la pri p)) = map task (queue p) @ js \<and>
      concat (map job_calls js) = indices f l) \<and>
    (if f < l \<and> overflows T f l then detach_blocks T1 T2 fi la n pri p = Inl Signed_overflow \<and>
        detach_loop T1 T2 fi la n pri p = Inl Signed_overflow
     else \<exists>pb pl jb jl. detach_blocks T1 T2 fi la n pri p = Inr pb \<and>
        map task (queue pb) = map task (queue p) @ jb \<and> concat (map job_calls jb) = indices f l \<and>
        detach_loop T1 T2 fi la n pri p = Inr pl \<and>
        map task (queue pl) = map task (queue p) @ jl \<and> concat (map job_calls jl) = indices f l)"
proof
  have "map task (queue (detach_sequence T1 T2 fi la pri p)) = map task (queue p) @ map Index_job (indices f l)"
    unfolding detach_sequence_def Let_def T_def f_def l_def by (rule fold_detach)
  with job_calls_bounds(3) show "\<exists>js. map task (queue (detach_sequence T1 T2 fi la pri p)) = map task (queue p) @ js \<and>
      concat (map job_calls js) = indices f l" by blast
  note par = parallel_fold [OF assms(1,2) T_def [THEN meta_eq_to_obj_eq] f_def [THEN meta_eq_to_obj_eq]
      l_def [THEN meta_eq_to_obj_eq] get_thread_count_pos [OF assms(3,4)], of n _ p]
  show "if f < l \<and> overflows T f l then detach_blocks T1 T2 fi la n pri p = Inl Signed_overflow \<and>
        detach_loop T1 T2 fi la n pri p = Inl Signed_overflow
     else \<exists>pb pl jb jl. detach_blocks T1 T2 fi la n pri p = Inr pb \<and>
        map task (queue pb) = map task (queue p) @ jb \<and> concat (map job_calls jb) = indices f l \<and>
        detach_loop T1 T2 fi la n pri p = Inr pl \<and>
        map task (queue pl) = map task (queue p) @ jl \<and> concat (map job_calls jl) = indices f l"
  proof (cases "f < l \<and> overflows T f l")
    case True
    with par [of "\<lambda>i e. detach_task (Block_job i e) pri"] par [of "\<lambda>i e. detach_task (Loop_job i e) pri"]
    show ?thesis by (simp add: detach_blocks_def detach_loop_def)
  next
    case False
    with par [of "\<lambda>i e. detach_task (Block_job i e) pri"] par [of "\<lambda>i e. detach_task (Loop_job i e) pri"]
    obtain bs bs' where b: "detach_blocks T1 T2 fi la n pri p = Inr (fold (\<lambda>(i, e). detach_task (Block_job i e) pri) bs p)"
      "concat (map (\<lambda>(i, e). indices i e) bs) = indices f l"
      and l: "detach_loop T1 T2 fi la n pri p = Inr (fold (\<lambda>(i, e). detach_task (Loop_job i e) pri) bs' p)"
      "concat (map (\<lambda>(i, e). indices i e) bs') = indices f l"
      unfolding detach_blocks_def detach_loop_def if_not_P [OF False] by blast
    have "concat (map job_calls (map (\<lambda>(i, e). Block_job i e) bs)) = indices f l"
      "concat (map job_calls (map (\<lambda>(i, e). Loop_job i e) bs')) = indices f l"
      unfolding job_calls_bounds b(2) l(2) by (rule refl)+
    then show ?thesis unfolding if_not_P [OF False] using b(1) l(1) fold_detach(1) by blast
  qed
qed

theorem loops_complete_witness:
  "\<exists>pl jl. detach_loop int32_t uint16_t (- 3) 13 0 0 (thread_pool tp_none 4 2) = Inr pl \<and> map task (queue pl) = jl \<and>
     concat (map job_calls jl) = indices (- 3) 13"
proof -
  let ?p = "thread_pool tp_none 4 2 :: job pool"
  have t: "int32_t \<in> set int_types" "uint16_t \<in> set int_types" by (simp_all add: int_types_iff)
  have p: "threads ?p \<noteq> []" "length (threads ?p) < 2 ^ 64" "queue ?p = []"
    by (simp_all add: thread_pool_def create_threads_def Let_def determine_thread_count_def)
  have c: "common_index_type int32_t uint16_t = int32_t" by (simp add: common_index_type_def Let_def)
  have i: "cast int32_t (- 3) = - 3" "cast int32_t 13 = 13" by (simp_all add: cast_def min_value_def modulus_def)
  have "\<not> overflows int32_t (- 3) 13" by (simp add: overflows_def promote_def max_value_def modulus_def)
  with loops_complete [OF t p(1,2), of "- 3" 13 0 0] p(3) show ?thesis by (auto simp only: c i if_False simp_thms list.map append_Nil)
qed

end
