(* ===== verification/PoolProps.thy ===== *)
theory PoolProps
  imports PoolInv WorkQueue
begin

text \<open>
  Properties of runs of the thread pool: the order of the tasks, progress, the guarantee of
  \<open>wait()\<close> and of its timed variants, the abstract work queue it implements, and the runs in
  which the code does not give what it promises.
\<close>

section \<open>Runs\<close>

inductive pool_steps :: "('a pool_event \<Rightarrow> 'a pool \<Rightarrow> bool) \<Rightarrow> 'a pool \<Rightarrow> 'a pool \<Rightarrow> bool"
  for allowed :: "'a pool_event \<Rightarrow> 'a pool \<Rightarrow> bool" where
  "allowed e p \<Longrightarrow> pool_steps allowed p (pool_step e p)"

inductive_simps pool_steps_iff: "pool_steps allowed p p'"

definition starts_pool :: "opt_t \<Rightarrow> u32 \<Rightarrow> size_t \<Rightarrow> 'a pool \<Rightarrow> bool" where
  "starts_pool OptFlags hc n p \<longleftrightarrow> p = thread_pool OptFlags hc n"

lemma thread_pool_ok: "pool_ok (thread_pool OptFlags hc n)"
  by (simp add: thread_pool_def create_threads_ok)

lemma thread_pool_wakeups: "wakeups_ok (thread_pool OptFlags hc n)"
  by (simp add: thread_pool_def create_threads_def Let_def wakeups_ok_def)

interpretation counting: inductive_invariant "starts_pool OptFlags hc n" "pool_steps allowed" pool_ok
  for OptFlags hc n allowed
  by unfold_locales (auto simp: starts_pool_def thread_pool_ok pool_steps_iff pool_step_ok)

interpretation awake: inductive_invariant "starts_pool OptFlags hc n" "pool_steps quiet"
  "\<lambda>p. pool_ok p \<and> wakeups_ok p" for OptFlags hc n
  by unfold_locales
    (auto simp: starts_pool_def thread_pool_ok thread_pool_wakeups pool_steps_iff pool_step_ok
      pool_step_wakeups)

lemma run_pool_reaches:
  "reaches init (pool_steps (\<lambda>e p. True)) p \<Longrightarrow> reaches init (pool_steps (\<lambda>e p. True)) (run_pool es p)"
  by (induction es arbitrary: p) (auto simp: run_pool_def intro: reaches_step pool_steps.intros)

lemma run_pool_ok: "pool_ok (run_pool es (thread_pool OptFlags hc n))"
proof -
  have "reaches (starts_pool OptFlags hc n) (pool_steps (\<lambda>e p. True)) (run_pool es (thread_pool OptFlags hc n))"
    by (rule run_pool_reaches [OF reaches_init]) (simp add: starts_pool_def)
  then show ?thesis by (rule counting.inv_reaches)
qed

section \<open>The options stay\<close>

lemma worker_check_options:
  assumes "i < length (threads p)"
  shows "priority_enabled (worker_check c i p) = priority_enabled p"
    "pause_enabled (worker_check c i p) = pause_enabled p"
    "waiters (worker_check c i p) = waiters p" "waiting (worker_check c i p) = waiting p"
    "length (threads (worker_check c i p)) = length (threads p)"
  using assms by (cases rule: worker_check_cases [where c = c]; simp)+

lemma worker_options [simp]:
  "priority_enabled (worker c i p) = priority_enabled p" "pause_enabled (worker c i p) = pause_enabled p"
  by (cases rule: worker_cases [of c i p]; simp add: worker_check_options worker_loop_back)+

lemma tasks_done_frame [simp]:
  "tasks_done (p\<lparr>notifies := n\<rparr>) = tasks_done p" "tasks_done (p\<lparr>waiters := ws\<rparr>) = tasks_done p"
  "tasks_done (p\<lparr>threads := ts\<rparr>) = tasks_done p" "tasks_done (p\<lparr>stop_requested := is\<rparr>) = tasks_done p"
  "tasks_done (p\<lparr>notify_alls := n\<rparr>) = tasks_done p" "tasks_done (p\<lparr>waiting := b\<rparr>) = tasks_done p"
  "tasks_done (p\<lparr>timed := bs\<rparr>) = tasks_done p" "tasks_done (p\<lparr>was_paused := r\<rparr>) = tasks_done p"
  by (simp_all add: tasks_done_def is_suspended_def)

lemma wake_worker_options [simp]: "priority_enabled (wake_worker i p) = priority_enabled p"
  by (simp add: wake_worker_def)

lemma notify_one_options [simp]:
  "priority_enabled (notify_one i p) = priority_enabled p" "pause_enabled (notify_one i p) = pause_enabled p"
  "started (notify_one i p) = started p" "queue (notify_one i p) = queue p"
  "waiters (notify_one i p) = waiters p" "waiting (notify_one i p) = waiting p"
  "tasks_done (notify_one i p) = tasks_done p" "length (threads (notify_one i p)) = length (threads p)"
  by (cases rule: notify_one_cases [of i p]; simp)+

lemma pool_step_options [simp]:
  "priority_enabled (pool_step e p) = priority_enabled p"
  by (cases e) (simp_all add: client_defs reset_end_def notify_all_def request_stop_def
      create_threads_def Let_def split: option.split)

lemma run_pool_options [simp]: "priority_enabled (run_pool es p) = priority_enabled p"
  by (induction es arbitrary: p) (simp_all add: run_pool_def)

section \<open>Order\<close>

definition detached :: "'a pool_event list \<Rightarrow> 'a list" where
  "detached es = concat (map (\<lambda>e. case e of Detach t pri \<Rightarrow> [t] | _ \<Rightarrow> []) es)"

lemma detached_simps [simp]:
  "detached [] = []" "detached (e # es) = (case e of Detach t pri \<Rightarrow> [t] | _ \<Rightarrow> []) @ detached es"
  by (simp_all add: detached_def)

definition tasks_of :: "'a pool \<Rightarrow> 'a list" where
  "tasks_of p = started p @ map task (queue p)"

text \<open>Taking a task moves it from the queue to the started ones; without priorities, the first.\<close>

lemma popped_mset: "popped c p t ts \<Longrightarrow> queue p \<noteq> [] \<Longrightarrow> mset (queue p) = add_mset (queue p ! next_task c p) (mset ts)"
proof -
  assume a: "popped c p t ts" "queue p \<noteq> []"
  let ?k = "next_task c p"
  have "queue p = take ?k (queue p) @ queue p ! ?k # drop (Suc ?k) (queue p)"
    using next_task_less [OF a(2)] by (rule id_take_nth_drop)
  then have "mset (queue p) = mset (take ?k (queue p) @ queue p ! ?k # drop (Suc ?k) (queue p))" by simp
  with a(1) show ?thesis by (simp add: popped_def)
qed

lemma popped_fifo:
  "popped c p t ts \<Longrightarrow> queue p \<noteq> [] \<Longrightarrow> \<not> priority_enabled p \<Longrightarrow> map task (queue p) = t # map task ts"
  by (cases "queue p") (auto simp: popped_def)

lemma worker_check_mset:
  assumes "i < length (threads p)"
  shows "mset (tasks_of (worker_check c i p)) = mset (tasks_of p)"
  using assms
proof (cases rule: worker_check_cases [where c = c])
  case (pop t ts)
  have "mset (map task (queue p)) = add_mset t (mset (map task ts))"
    using popped_mset [OF pop(3)] pop by (simp add: popped_def task_available_def)
  with pop(5) show ?thesis by (simp add: tasks_of_def)
qed (simp_all add: tasks_of_def)

lemma worker_check_fifo:
  assumes "i < length (threads p)" and "\<not> priority_enabled p"
  shows "tasks_of (worker_check c i p) = tasks_of p"
  using assms(1)
proof (cases rule: worker_check_cases [where c = c])
  case (pop t ts)
  have "map task (queue p) = t # map task ts"
    using popped_fifo [OF pop(3)] pop(2) assms(2) by (simp add: task_available_def)
  with pop(5) show ?thesis by (simp add: tasks_of_def)
qed (simp_all add: tasks_of_def)

lemma worker_tasks:
  "mset (tasks_of (worker c i p)) = mset (tasks_of p)"
  "\<not> priority_enabled p \<Longrightarrow> tasks_of (worker c i p) = tasks_of p"
proof -
  have b: "tasks_of (worker_back p) = tasks_of p" by (simp add: tasks_of_def)
  show "mset (tasks_of (worker c i p)) = mset (tasks_of p)"
    by (cases rule: worker_cases [of c i p])
      (simp_all add: worker_loop_back worker_check_mset b)
  show "tasks_of (worker c i p) = tasks_of p" if "\<not> priority_enabled p"
    using that
    by (cases rule: worker_cases [of c i p])
      (simp_all add: worker_loop_back worker_check_fifo b)
qed

lemma other_step_tasks:
  assumes "e \<noteq> Purge" and "\<And>c i. e \<noteq> Worker c i"
  shows "tasks_of (pool_step e p) = tasks_of p @ (case e of Detach t pri \<Rightarrow> [t] | _ \<Rightarrow> [])"
  using assms
  by (cases e) (auto simp: tasks_of_def client_defs reset_end_def notify_all_def request_stop_def
      create_threads_def Let_def split: option.split)

lemma pool_step_mset:
  assumes "e \<noteq> Purge"
  shows "mset (tasks_of (pool_step e p)) = mset (tasks_of p @ (case e of Detach t pri \<Rightarrow> [t] | _ \<Rightarrow> []))"
proof (cases "\<exists>c i. e = Worker c i")
  case True
  then show ?thesis by (auto simp: worker_tasks(1))
next
  case False
  with assms have "tasks_of (pool_step e p) = tasks_of p @ (case e of Detach t pri \<Rightarrow> [t] | _ \<Rightarrow> [])"
    by (intro other_step_tasks) auto
  then show ?thesis by simp
qed

lemma pool_step_fifo:
  assumes "e \<noteq> Purge" and "\<not> priority_enabled p"
  shows "tasks_of (pool_step e p) = tasks_of p @ (case e of Detach t pri \<Rightarrow> [t] | _ \<Rightarrow> [])"
proof (cases "\<exists>c i. e = Worker c i")
  case True
  with assms show ?thesis by (auto simp: worker_tasks(2))
next
  case False
  with assms show ?thesis by (intro other_step_tasks) auto
qed

lemma run_pool_mset:
  "Purge \<notin> set es \<Longrightarrow> mset (tasks_of (run_pool es p)) = mset (tasks_of p @ detached es)"
proof (induction es arbitrary: p)
  case (Cons e es)
  then show ?case
    using Cons.IH [of "pool_step e p"] pool_step_mset [of e p] by (auto simp: run_pool_def)
qed (simp add: run_pool_def)

lemma run_pool_fifo:
  "Purge \<notin> set es \<Longrightarrow> \<not> priority_enabled p \<Longrightarrow> tasks_of (run_pool es p) = tasks_of p @ detached es"
proof (induction es arbitrary: p)
  case (Cons e es)
  then show ?case
    using Cons.IH [of "pool_step e p"] pool_step_fifo [of e p] by (auto simp: run_pool_def)
qed (simp add: run_pool_def)


section \<open>Waiting\<close>

definition outstanding :: "'a pool \<Rightarrow> bool" where
  "outstanding p \<longleftrightarrow> (\<exists>w \<in> set (waiters p). \<not> is_returned w)"

text \<open>Runs with at most one thread in \<open>wait()\<close> at a time, in which nobody purges the queue.\<close>

definition lone_waiter :: "'a pool_event \<Rightarrow> 'a pool \<Rightarrow> bool" where
  "lone_waiter e p \<longleftrightarrow> (case e of Purge \<Rightarrow> False | Wait_call caller d \<Rightarrow> \<not> outstanding p | _ \<Rightarrow> True)"

abbreviation waits :: "waiter list \<Rightarrow> nat" where
  "waits ws \<equiv> number (\<lambda>w. \<not> is_returned w) ws"

definition waiters_ok :: "'a pool \<Rightarrow> bool" where
  "waiters_ok p \<longleftrightarrow> \<not> pause_enabled p \<and> waits (waiters p) \<le> 1 \<and>
     (outstanding p \<longrightarrow> waiting p) \<and> (Wait_sleeping \<in> set (waiters p) \<longrightarrow> \<not> tasks_done p)"

lemma outstanding_number: "outstanding p \<longleftrightarrow> 0 < waits (waiters p)"
  by (simp add: outstanding_def number_pos)

lemma outstandingI: "j < length (waiters p) \<Longrightarrow> \<not> is_returned (waiters p ! j) \<Longrightarrow> outstanding p"
  using nth_mem by (fastforce simp: outstanding_def)

lemma active_not_done:
  assumes "pool_ok p" and "w \<in> set (threads p)" and "is_active w"
  shows "\<not> tasks_done p"
proof -
  have "0 < number is_active (threads p)" using assms(2,3) by (auto simp: number_pos)
  with pool_ok_running [OF assms(1)] show ?thesis by (simp add: tasks_done_def)
qed

lemma worker_check_done:
  assumes "i < length (threads p)" and "pool_ok (worker_check c i p)" and "\<not> tasks_done p"
  shows "\<not> tasks_done (worker_check c i p)"
  using assms(1)
proof (cases rule: worker_check_cases [where c = c])
  case (pop t ts)
  with assms(1) have "Busy t \<in> set (threads (worker_check c i p))" by (simp add: set_update_memI)
  with assms(2) show ?thesis by (rule active_not_done) simp
qed (use assms(3) in \<open>simp_all add: tasks_done_def is_suspended_def\<close>)

lemma worker_check_waiters_ok:
  assumes "i < length (threads p)" and "pool_ok (worker_check c i p)" and "waiters_ok p"
  shows "waiters_ok (worker_check c i p)"
  using assms worker_check_done [OF assms(1,2)]
  by (auto simp: waiters_ok_def outstanding_def worker_check_options)

lemma worker_back_waiters_ok:
  assumes "waiters_ok p"
  shows "waiters_ok (worker_back p)"
proof -
  let ?p = "p\<lparr>tasks_running := tasks_running p - 1\<rparr>"
  show ?thesis
  proof (cases "waiting ?p \<and> tasks_done ?p")
    case True
    have b: "worker_back p = notify_waiters ?p" using True by (simp add: worker_back_def Let_def)
    have w: "waiters (worker_back p) = map (\<lambda>w. if w = Wait_sleeping then Wait_notified else w) (waiters p)"
      unfolding b by (simp add: notify_waiters_def)
    have n: "waits (waiters (worker_back p)) = waits (waiters p)"
      unfolding w number_map by (rule number_cong) auto
    moreover have "Wait_sleeping \<notin> set (waiters (worker_back p))" unfolding w by auto
    ultimately show ?thesis
      using assms by (simp add: waiters_ok_def outstanding_number)
  next
    case False
    have b: "worker_back p = ?p" using False by (auto simp: worker_back_def Let_def)
    have "Wait_sleeping \<in> set (waiters p) \<Longrightarrow> \<not> tasks_done ?p"
      using assms False by (fastforce simp: waiters_ok_def outstanding_def)
    then show ?thesis unfolding b using assms by (simp add: waiters_ok_def outstanding_def)
  qed
qed

lemma worker_waiters_ok:
  assumes "pool_ok p" and "waiters_ok p"
  shows "waiters_ok (worker c i p)"
proof (cases rule: worker_cases [of c i p])
  case loop
  have "pool_ok (worker_check c i (worker_back p))"
    using worker_loop_ok [OF assms(1) loop(1,2)] by (simp add: worker_loop_back)
  with loop show ?thesis
    using worker_back_waiters_ok [OF assms(2)] by (simp add: worker_loop_back worker_check_waiters_ok)
next
  case check
  have "pool_ok (worker_check c i p)" using worker_ok [OF assms(1), of c i] check by simp
  with check assms(2) show ?thesis by (simp add: worker_check_waiters_ok)
qed (use assms in simp)

text \<open>The only waiter returns, or goes back to sleep.\<close>

lemma lone_returns:
  assumes "waiters_ok p" and "j < length (waiters p)" and "\<not> is_returned (waiters p ! j)"
  shows "waiters_ok (p\<lparr>waiting := b, waiters := (waiters p)[j := Wait_returned status]\<rparr>)"
proof -
  have "waits (waiters p) = 1"
    using assms(1) outstandingI [OF assms(2,3)] by (simp add: waiters_ok_def outstanding_number)
  then have "waits ((waiters p)[j := Wait_returned status]) = 0"
    using assms(2,3) by (simp add: number_update_sub)
  with assms(1) show ?thesis
    by (auto simp: waiters_ok_def outstanding_number number_def filter_empty_conv)
qed

lemma wait_wake_waiters_ok:
  assumes "waiters_ok p" and "j < length (waiters p)" and "waiters p ! j = Wait_notified"
  shows "waiters_ok (wait_wake j p)"
proof -
  have o: "outstanding p" using assms(2,3) by (simp add: outstandingI)
  show ?thesis
  proof (cases "tasks_done p")
    case True
    with assms show ?thesis by (simp add: wait_wake_def lone_returns)
  next
    case False
    have "waits ((waiters p)[j := Wait_sleeping]) = waits (waiters p)"
      using assms(2,3) by (simp add: number_update_same)
    with False assms(1) o show ?thesis by (simp add: wait_wake_def waiters_ok_def outstanding_number)
  qed
qed

lemma wait_call_waiters_ok:
  assumes "waiters_ok p" and "\<not> outstanding p" and "wait_call caller d p = Inr p'"
  shows "waiters_ok p'"
proof -
  have z: "waits (waiters p) = 0" using assms(2) by (simp add: outstanding_number)
  have n: "Wait_sleeping \<notin> set (waiters p)" using assms(2) by (auto simp: outstanding_def)
  from assms z n show ?thesis
    by (auto simp: wait_call_def waiters_ok_def outstanding_number split: if_splits)
qed

lemma pool_step_waiters_ok:
  assumes "pool_ok p" and "waiters_ok p" and "lone_waiter e p"
  shows "waiters_ok (pool_step e p)"
proof (cases e)
  case (Detach t pri)
  then show ?thesis
    using assms by (auto simp: detach_task_def waiters_ok_def outstanding_def tasks_done_def is_suspended_def)
next
  case (Wait_call caller d)
  with assms show ?thesis
    by (cases "wait_call caller d p") (auto simp: lone_waiter_def dest: wait_call_waiters_ok)
next
  case (Wait_wake j)
  with assms show ?thesis by (simp add: wait_wake_waiters_ok)
next
  case (Wait_timeout j)
  with assms show ?thesis by (simp add: wait_timeout_def lone_returns)
next
  case (Wait_spurious j)
  show ?thesis
  proof (cases "j < length (waiters p) \<and> waiters p ! j = Wait_sleeping")
    case True
    then have "Wait_sleeping \<in> set (waiters p)" by (metis nth_mem)
    with True assms(2) Wait_spurious show ?thesis
      by (auto simp: waiters_ok_def outstanding_number number_update_same number_pos dest: set_updateD)
  next
    case False
    then have "pool_step (Wait_spurious j) p = p" by auto
    with assms Wait_spurious show ?thesis by simp
  qed
next
  case (Worker c i)
  with assms show ?thesis by (simp add: worker_waiters_ok)
next
  case (Create hc n)
  let ?p = "create_threads hc n p"
  have "unat (determine_thread_count hc n) \<noteq> 0" by (metis determine_thread_count_pos unat_eq_zero)
  then have "Starting \<in> set (threads ?p)" by (simp add: create_threads_def Let_def)
  then have "\<not> tasks_done ?p" by (rule active_not_done [OF create_threads_ok]) simp
  moreover have "waiters ?p = waiters p" "waiting ?p = waiting p" "pause_enabled ?p = pause_enabled p"
    by (simp_all add: create_threads_def Let_def)
  ultimately show ?thesis using assms Create by (simp add: waiters_ok_def outstanding_def)
qed (use assms in \<open>auto simp: lone_waiter_def pause_def unpause_def notify_all_def request_stop_def
      reset_begin_def reset_end_def waiters_ok_def outstanding_def split: option.split\<close>)

definition starts_unpausable :: "opt_t \<Rightarrow> u32 \<Rightarrow> size_t \<Rightarrow> 'a pool \<Rightarrow> bool" where
  "starts_unpausable OptFlags hc n p \<longleftrightarrow> \<not> option_enabled OptFlags tp_pause \<and> p = thread_pool OptFlags hc n"

interpretation waiting: inductive_invariant "starts_unpausable OptFlags hc n" "pool_steps lone_waiter"
  "\<lambda>p. pool_ok p \<and> waiters_ok p" for OptFlags hc n
  by unfold_locales
    (auto simp: starts_unpausable_def thread_pool_ok waiters_ok_def [of "thread_pool _ _ _"] outstanding_def
      pool_steps_iff pool_step_ok pool_step_waiters_ok)

section \<open>Progress\<close>

text \<open>A worker that is awake takes the next task; a sleeping one has a wake-up under way.\<close>

lemma worker_check_takes:
  assumes "i < length (threads p)" and "stop_requested p = []" and "task_available p"
  shows "started (worker_check c i p) = started p @ [task (queue p ! next_task c p)] \<and>
    queue (worker_check c i p) = take (next_task c p) (queue p) @ drop (Suc (next_task c p)) (queue p)"
  using assms(1)
  by (cases rule: worker_check_cases [where c = c]) (use assms in \<open>simp_all add: popped_def\<close>)

lemma worker_takes:
  assumes "i < length (threads p)" and "stop_requested p = []" and "task_available p"
    and "threads p ! i \<noteq> Sleeping" and "threads p ! i \<noteq> Stopped"
  shows "started (worker c i p) = started p @ [task (queue p ! next_task c p)]"
  using assms worker_check_takes [of i p c] worker_check_takes [of i "worker_back p" c]
  by (cases "threads p ! i") (simp_all add: worker_def worker_loop_back)

lemma progress:
  assumes "pool_ok p" and "wakeups_ok p" and "threads p \<noteq> []" and "stop_requested p = []"
    and "task_available p"
  shows "\<exists>es. set es \<subseteq> {Notify_one 0, Notify_all} \<union> range (Worker c) \<and> length es \<le> 2 \<and>
    started (run_pool es p) = started p @ [task (queue p ! next_task c p)]"
proof (cases "\<exists>i < length (threads p). threads p ! i \<noteq> Sleeping")
  case True
  then obtain i where i: "i < length (threads p)" "threads p ! i \<noteq> Sleeping" by blast
  have "threads p ! i \<noteq> Stopped" using assms(1,4) i(1) nth_mem by (fastforce simp: pool_ok_def)
  with worker_takes [OF i(1) assms(4,5) i(2)] show ?thesis
    by (intro exI [of _ "[Worker c i]"]) (simp add: run_pool_def)
next
  case False
  then have s: "\<And>i. i < length (threads p) \<Longrightarrow> threads p ! i = Sleeping" by blast
  have len: "0 < length (threads p)" using assms(3) by simp
  obtain e where e: "e \<in> {Notify_one 0, Notify_all}" "threads (pool_step e p) ! 0 = Notified"
    "length (threads (pool_step e p)) = length (threads p)" "stop_requested (pool_step e p) = []"
    "task_available (pool_step e p)" "queue (pool_step e p) = queue p" "started (pool_step e p) = started p"
  proof (cases "notify_alls p = 0")
    case True
    have "Sleeping \<in> set (threads p)" using s [OF len] len by (metis nth_mem)
    moreover have "number is_notified (threads p) = 0"
      using s by (auto simp: number_def filter_empty_conv in_set_conv_nth)
    ultimately have "notifies p \<noteq> 0"
      using assms(2,4,5) True by (cases "queue p") (auto simp: wakeups_ok_def task_available_def)
    with s [OF len] len assms(4,5) show ?thesis
      by (intro that [of "Notify_one 0"])
        (simp_all add: notify_one_def wake_worker_def task_available_def is_suspended_def)
  next
    case False
    with s [OF len] len assms(4,5) show ?thesis
      by (intro that [of Notify_all]) (simp_all add: notify_all_def task_available_def is_suspended_def)
  qed
  have "next_task c (pool_step e p) = next_task c p" using e(6) by (intro next_task_cong) simp_all
  then have "started (worker c 0 (pool_step e p)) = started p @ [task (queue p ! next_task c p)]"
    using worker_takes [of 0 "pool_step e p" c] e len by simp
  with e(1) show ?thesis
    by (intro exI [of _ "[e, Worker c 0]"]) (auto simp: run_pool_def)
qed

section \<open>The pool as a work queue\<close>

text \<open>The tasks in execution.\<close>

fun task_of :: "'a worker \<Rightarrow> 'a list" where
  "task_of (Busy t) = [t]"
| "task_of Starting = []"
| "task_of Sleeping = []"
| "task_of Notified = []"
| "task_of Stopped = []"

definition executing :: "'a worker list \<Rightarrow> 'a multiset" where
  "executing ws = mset (concat (map task_of ws))"

lemma executing_update:
  assumes "i < length ws"
  shows "executing (ws[i := w]) + mset (task_of (ws ! i)) = executing ws + mset (task_of w)"
proof -
  have "ws = take i ws @ ws ! i # drop (Suc i) ws" using assms by (rule id_take_nth_drop)
  then have "executing ws = executing (take i ws @ ws ! i # drop (Suc i) ws)" by simp
  with assms show ?thesis by (simp add: executing_def upd_conv_take_nth_drop)
qed

lemma executing_idle:
  assumes "task_of (ws ! i) = []" and "task_of w = []"
  shows "executing (ws[i := w]) = executing ws"
  using executing_update [of i ws w] assms by (cases "i < length ws") (simp_all add: list_update_beyond not_less)

lemma executing_map:
  "(\<And>w. task_of (f w) = task_of w) \<Longrightarrow> executing (map f ws) = executing ws"
  by (simp add: executing_def comp_def)

lemma executing_inactive: "\<forall>w \<in> set ws. \<not> is_active w \<Longrightarrow> executing ws = {#}"
proof (induction ws)
  case (Cons w ws)
  then show ?case by (cases w) (simp_all add: executing_def)
qed (simp add: executing_def)

lemma executing_starting [simp]: "executing (replicate k Starting) = {#}"
  by (induction k) (simp_all add: executing_def)

definition pool_work :: "'a pool \<Rightarrow> 'a work" where
  "pool_work p = (map task (queue p), executing (threads p))"

lemma wake_worker_executing [simp]: "executing (threads (wake_worker i p)) = executing (threads p)"
  by (simp add: wake_worker_def executing_idle)

lemma notify_one_executing [simp]: "executing (threads (notify_one i p)) = executing (threads p)"
  by (cases rule: notify_one_cases [of i p]) simp_all

text \<open>What an event commands the queue to do; everything else the workers do by themselves.\<close>

definition event_commands :: "'a pool_event \<Rightarrow> 'a work_label list" where
  "event_commands e = (case e of Detach t pri \<Rightarrow> [Enqueue t] | Purge \<Rightarrow> [Clear] | _ \<Rightarrow> [])"

text \<open>A worker that looks for a task, having finished \<open>ts0\<close>, takes the oldest task or none.\<close>

lemma finish_all: "work_run (map Finish ts) (q, mset ts + r) (q, r)"
  by (induction ts) (auto simp: work_run_simps intro: stop)

lemma commands_finish [simp]: "commands (map Finish ts) = []"
  by (induction ts) simp_all

lemma worker_check_work:
  assumes "i < length (threads p)" and "\<not> priority_enabled p"
  shows "\<exists>ls. work_run ls (pool_work p) (pool_work (worker_check c i p)) \<and> commands ls = []"
proof -
  let ?ts = "task_of (threads p ! i)"
  define r where "r = executing (threads p) - mset ?ts"
  have "executing (threads p) = executing ((threads p)[i := Stopped]) + mset ?ts"
    using executing_update [OF assms(1), of Stopped] by simp
  then have r: "executing (threads p) = mset ?ts + r" by (simp add: r_def)
  have u: "executing ((threads p)[i := w]) = r + mset (task_of w)" for w
    using executing_update [OF assms(1), of w] r by simp
  have f: "work_run (map Finish ?ts) (pool_work p) (map task (queue p), r)"
    unfolding pool_work_def r by (rule finish_all)
  show ?thesis
    using assms(1)
  proof (cases rule: worker_check_cases [where c = c])
    case (pop t ts)
    have "map task (queue p) = t # map task ts"
      using popped_fifo [OF pop(3)] pop(2) assms(2) by (simp add: task_available_def)
    then have "work_run [Take t] (map task (queue p), r) (pool_work (worker_check c i p))"
      using u [of "Busy t"] pop by (simp add: work_run_simps pool_work_def)
    with f have "work_run (map Finish ?ts @ [Take t]) (pool_work p) (pool_work (worker_check c i p))"
      by (rule work_run_append)
    then show ?thesis by (intro exI [of _ "map Finish ?ts @ [Take t]"]) simp
  next
    case stop
    then show ?thesis using f u [of Stopped] by (intro exI [of _ "map Finish ?ts"]) (simp add: pool_work_def)
  next
    case sleep
    then show ?thesis using f u [of Sleeping] by (intro exI [of _ "map Finish ?ts"]) (simp add: pool_work_def)
  qed
qed

lemma worker_work:
  assumes "\<not> priority_enabled p"
  shows "\<exists>ls. work_run ls (pool_work p) (pool_work (worker c i p)) \<and> commands ls = []"
proof (cases rule: worker_cases [of c i p])
  case idle
  then show ?thesis by (auto intro!: exI [of _ "[]"] stop)
next
  case loop
  have "pool_work (worker_back p) = pool_work p" by (simp add: pool_work_def)
  with loop worker_check_work [of i "worker_back p" c] assms show ?thesis by (simp add: worker_loop_back)
next
  case check
  with worker_check_work assms show ?thesis by simp
qed

lemma other_step_work:
  assumes "\<And>c i. e \<noteq> Worker c i" and "\<And>t pri. e \<noteq> Detach t pri" and "e \<noteq> Purge"
  shows "pool_work (pool_step e p) = pool_work p"
proof (cases e)
  case (Create hc n)
  have "executing (threads p) = {#}" if "\<forall>w \<in> set (threads p). w = Stopped"
    by (rule executing_inactive) (use that in auto)
  with Create show ?thesis by (simp add: pool_work_def create_threads_def Let_def)
next
  case Notify_all
  have "executing (map (\<lambda>w. if w = Sleeping then Notified else w) (threads p)) = executing (threads p)"
    by (rule executing_map) simp
  with Notify_all show ?thesis by (simp add: pool_work_def notify_all_def)
qed (use assms in \<open>auto simp: pool_work_def client_defs wait_call_def reset_end_def request_stop_def split: option.split\<close>)

lemma pool_step_work:
  assumes "\<not> priority_enabled p"
  shows "\<exists>ls. work_run ls (pool_work p) (pool_work (pool_step e p)) \<and> commands ls = event_commands e"
proof -
  consider c i where "e = Worker c i" | t pri where "e = Detach t pri" | "e = Purge"
    | "\<And>c i. e \<noteq> Worker c i" "\<And>t pri. e \<noteq> Detach t pri" "e \<noteq> Purge" by blast
  then show ?thesis
  proof cases
    case 1
    with worker_work [OF assms] show ?thesis by (simp add: event_commands_def)
  next
    case 2
    then show ?thesis
      by (intro exI [of _ "event_commands e"])
        (simp add: event_commands_def pool_work_def detach_task_def work_run_simps)
  next
    case 3
    then show ?thesis
      by (intro exI [of _ "event_commands e"])
        (simp add: event_commands_def pool_work_def purge_def work_run_simps)
  next
    case 4
    from 4(2,3) have "event_commands e = []" by (cases e) (auto simp: event_commands_def)
    with other_step_work [OF 4] show ?thesis by (auto intro!: exI [of _ "[]"] stop)
  qed
qed

definition pool_does :: "'a pool_event \<Rightarrow> 'a pool \<Rightarrow> 'a pool \<Rightarrow> bool" where
  "pool_does e p p' \<longleftrightarrow> p' = pool_step e p"

interpretation pool_queue: work_queue pool_does "\<lambda>p. \<not> priority_enabled p" pool_work
  "\<lambda>e cs. cs = event_commands e"
  by unfold_locales (auto simp: pool_does_def pool_step_work)

lemma run_of_pool: "run_of pool_does es p (run_pool es p)"
proof (induction es arbitrary: p)
  case (Cons e es)
  have "pool_does e p (pool_step e p)" by (simp add: pool_does_def)
  from this Cons [of "pool_step e p"] show ?case by (simp add: run_pool_def run_cons)
qed (simp add: run_pool_def run_nil)

section \<open>Waiting inside a task\<close>

text \<open>A worker that does not come back to its loop stays busy, and the pool is not done.\<close>

lemma stays_busy:
  assumes "i < length (threads p)" and "threads p ! i = Busy t" and "\<And>c. e \<noteq> Worker c i"
  shows "i < length (threads (pool_step e p)) \<and> threads (pool_step e p) ! i = Busy t"
proof (cases e)
  case (Worker c k)
  then have "k \<noteq> i" using assms(3) by blast
  moreover have "threads (worker_check c k q) ! i = threads q ! i \<and>
      length (threads (worker_check c k q)) = length (threads q)" if "k < length (threads q)" for q :: "'a pool"
    using that \<open>k \<noteq> i\<close> by (cases rule: worker_check_cases [where c = c]) simp_all
  ultimately have "threads (worker c k p) ! i = threads p ! i \<and> length (threads (worker c k p)) = length (threads p)"
    by (cases rule: worker_cases [of c k p]) (simp_all add: worker_loop_back)
  with Worker assms show ?thesis by simp
next
  case (Create hc n)
  have "\<not> (\<forall>w \<in> set (threads p). w = Stopped)" using assms(1,2) nth_mem by fastforce
  then have "pool_step (Create hc n) p = p" unfolding pool_step.simps by (rule if_not_P)
  with Create assms show ?thesis by simp
next
  case (Notify_one k)
  with assms show ?thesis
    by (cases rule: notify_one_cases [of k p]) (auto simp: wake_worker_def nth_list_update)
qed (use assms in \<open>auto simp: client_defs wait_call_def reset_end_def notify_all_def request_stop_def
      wake_worker_def nth_list_update split: option.split\<close>)

definition stuck :: "nat \<Rightarrow> 'a pool \<Rightarrow> bool" where
  "stuck j p \<longleftrightarrow> length (timed p) = length (waiters p) \<and> j < length (waiters p) \<and>
     \<not> is_returned (waiters p ! j) \<and> \<not> timed p ! j"

lemma worker_waiters:
  "timed (worker c i p) = timed p"
  "waiters (worker c i p) = waiters p \<or>
     waiters (worker c i p) = map (\<lambda>w. if w = Wait_sleeping then Wait_notified else w) (waiters p)"
proof -
  have c: "timed (worker_check c i q) = timed q" "waiters (worker_check c i q) = waiters q"
    if "i < length (threads q)" for q :: "'a pool"
    using that by (cases rule: worker_check_cases [where c = c]; simp)+
  have b: "timed (worker_back p) = timed p"
    "waiters (worker_back p) = waiters p \<or>
     waiters (worker_back p) = map (\<lambda>w. if w = Wait_sleeping then Wait_notified else w) (waiters p)"
    by (simp_all add: worker_back_def notify_waiters_def Let_def)
  show "timed (worker c i p) = timed p"
    by (cases rule: worker_cases [of c i p]) (simp_all add: worker_loop_back b c)
  show "waiters (worker c i p) = waiters p \<or>
     waiters (worker c i p) = map (\<lambda>w. if w = Wait_sleeping then Wait_notified else w) (waiters p)"
    using b(2) by (cases rule: worker_cases [of c i p]) (simp_all add: worker_loop_back c)
qed

lemma notify_one_timed [simp]: "timed (notify_one i p) = timed p"
  by (cases rule: notify_one_cases [of i p]) (simp_all add: wake_worker_def)

lemma stays_stuck:
  assumes "stuck j p" and "\<not> tasks_done p"
  shows "stuck j (pool_step e p)"
proof (cases e)
  case (Worker c i)
  with assms(1) worker_waiters [of c i p] show ?thesis by (auto simp: stuck_def split: if_splits)
next
  case (Wait_call caller d)
  with assms show ?thesis by (auto simp: wait_call_def stuck_def nth_append)
qed (use assms in \<open>auto simp: stuck_def client_defs reset_end_def notify_all_def request_stop_def
      wake_worker_def create_threads_def Let_def nth_list_update split: option.split\<close>)

lemma stuck_run:
  assumes "pool_ok p" and "i < length (threads p)" and "threads p ! i = Busy t" and "stuck j p"
    and "\<And>c. Worker c i \<notin> set es"
  shows "stuck j (run_pool es p)"
  using assms
proof (induction es arbitrary: p)
  case (Cons e es)
  have "Busy t \<in> set (threads p)" using Cons.prems(2,3) by (metis nth_mem)
  then have "\<not> tasks_done p" by (rule active_not_done [OF Cons.prems(1)]) simp
  moreover have "\<And>c. e \<noteq> Worker c i" using Cons.prems(5) by auto
  ultimately show ?case
    using Cons.IH [of "pool_step e p"] Cons.prems stays_busy [of i p t e]
    by (simp add: run_pool_def pool_step_ok stays_stuck)
qed (simp add: run_pool_def)

text \<open>Every wait that has ever been started has an entry in both lists.\<close>

lemma timed_length: "length (timed p) = length (waiters p) \<Longrightarrow> length (timed (run_pool es p)) = length (waiters (run_pool es p))"
proof (induction es arbitrary: p)
  case (Cons e es)
  have "length (timed (pool_step e p)) = length (waiters (pool_step e p))"
  proof (cases e)
    case (Worker c i)
    with Cons.prems worker_waiters [of c i p] show ?thesis by auto
  qed (use Cons.prems in \<open>auto simp: client_defs wait_call_def reset_end_def notify_all_def request_stop_def
      wake_worker_def create_threads_def Let_def split: option.split\<close>)
  with Cons.IH show ?case by (simp add: run_pool_def)
qed (simp add: run_pool_def)

section \<open>Properties\<close>

text \<open>
  The counters of the pool are exact: in every reachable state \<open>get_tasks_running\<close> is the
  number of workers that execute a task (or their initialisation), without wrap-around, and
  \<open>get_tasks_total\<close> adds the queued ones.
\<close>
theorem pool_counters:
  assumes "reaches (starts_pool OptFlags hc n) (pool_steps allowed) p"
  shows "unat (get_tasks_running p) = number is_active (threads p) \<and>
    get_tasks_total p = get_tasks_running p + get_tasks_queued p \<and>
    length (threads p) < 2 ^ 64"
proof -
  have ok: "pool_ok p" using assms by (rule counting.inv_reaches)
  then have "number is_active (threads p) < 2 ^ 64"
    using number_le [of is_active "threads p"] unfolding pool_ok_def by linarith
  with ok show ?thesis
    by (simp add: get_tasks_running_def get_tasks_total_def get_tasks_queued_def pool_ok_def unat_of_nat)
qed

text \<open>
  Without priorities tasks are started in the order in which they were detached, each
  exactly once: at any point of any interleaving without a purge, the tasks started so far
  followed by those still queued are the detached tasks in order.
\<close>
theorem pool_fifo:
  assumes "Purge \<notin> set es" and "\<not> option_enabled OptFlags tp_priority"
  shows "started (run_pool es (thread_pool OptFlags hc n)) @
    map task (queue (run_pool es (thread_pool OptFlags hc n))) = detached es"
  using run_pool_fifo [OF assms(1), of "thread_pool OptFlags hc n"] assms(2)
  by (simp add: tasks_of_def)

theorem pool_fifo_witness:
  "started (run_pool [Worker 0 0, Detach (5 :: nat) 0, Worker 0 1, Detach 6 9, Notify_one 0, Worker 0 0] (thread_pool tp_none 4 2)) @
     map task (queue (run_pool [Worker 0 0, Detach 5 0, Worker 0 1, Detach 6 9, Notify_one 0, Worker 0 0] (thread_pool tp_none 4 2))) = [5, 6]"
  using pool_fifo [of "[Worker 0 0, Detach (5 :: nat) 0, Worker 0 1, Detach 6 9, Notify_one 0, Worker 0 0]" tp_none 4 2]
  by simp

text \<open>
  With priorities a worker that takes a task takes one of the highest priority among the
  queued ones, and only that one leaves the queue; over a whole run without a purge every
  detached task is either started, once, or still queued.
\<close>
theorem pool_priority:
  assumes "option_enabled OptFlags tp_priority" and "Purge \<notin> set es"
    and "p = run_pool es (thread_pool OptFlags hc n)" and "started (worker c i p) = started p @ [t]"
  shows "(\<exists>pri. Pr_task t pri \<in> set (queue p) \<and> (\<forall>u \<in> set (queue p). sint (priority u) \<le> sint pri) \<and>
      mset (queue p) = add_mset (Pr_task t pri) (mset (queue (worker c i p)))) \<and>
    mset (started p) + mset (map task (queue p)) = mset (detached es)"
proof -
  have "mset (tasks_of p) = mset (detached es)"
    using run_pool_mset [OF assms(2), of "thread_pool OptFlags hc n"] assms(3) by (simp add: tasks_of_def)
  moreover have "\<exists>pri. Pr_task t pri \<in> set (queue p) \<and> (\<forall>u \<in> set (queue p). sint (priority u) \<le> sint pri) \<and>
      mset (queue p) = add_mset (Pr_task t pri) (mset (queue (worker c i p)))"
  proof -
    obtain q where q: "queue q = queue p" "priority_enabled q" "started q = started p" "i < length (threads q)"
      "worker c i p = worker_check c i q"
    proof (cases rule: worker_cases [of c i p])
      case idle
      with assms(4) show ?thesis by simp
    next
      case loop
      with assms(1,3) show ?thesis by (intro that [of "worker_back p"]) (simp_all add: worker_loop_back)
    next
      case check
      with assms(1,3) show ?thesis by (intro that [of p]) simp_all
    qed
    from q(4) show ?thesis
    proof (cases rule: worker_check_cases [where c = c])
      case (pop t' ts)
      let ?k = "next_task c q"
      have ne: "queue q \<noteq> []" using pop(2) by (simp add: task_available_def)
      have t: "t = task (queue q ! ?k)" using pop assms(4) q by (simp add: popped_def)
      have k: "?k \<in> set (candidates (queue q))" using ne q(2) by (rule next_task_candidate)
      then have max: "\<forall>u \<in> set (queue q). sint (priority u) \<le> sint (priority (queue q ! ?k))"
        by (auto simp: candidates_def list_all_iff pr_less_def linorder_not_less)
      have e: "Pr_task t (priority (queue q ! ?k)) = queue q ! ?k" by (simp add: t)
      have w: "queue (worker c i p) = ts" unfolding q(5) pop(5) by simp
      have "queue q ! ?k \<in> set (queue q)" using next_task_less [OF ne] by simp
      with max popped_mset [OF pop(3) ne] show ?thesis
        by (intro exI [of _ "priority (queue q ! ?k)"]) (simp add: e w q(1) [symmetric])
    next
      case stop
      with q assms(4) show ?thesis by simp
    next
      case sleep
      with q assms(4) show ?thesis by simp
    qed
  qed
  ultimately show ?thesis by (simp add: tasks_of_def)
qed

theorem pool_priority_witness:
  "let p = run_pool [Detach (5 :: nat) 1, Detach 6 100, Detach 7 (- 1)] (thread_pool tp_priority 4 2) in
     started (worker 0 0 p) = [6] \<and> (\<forall>u \<in> set (queue p). sint (priority u) \<le> 100) \<and>
     mset (started p) + mset (map task (queue p)) = {#5, 6, 7#}"
proof -
  let ?es = "[Detach (5 :: nat) 1, Detach 6 100, Detach 7 (- 1)]"
  let ?p = "run_pool ?es (thread_pool tp_priority 4 2)"
  have s: "started (worker 0 0 ?p) = started ?p @ [6]" "started ?p = []" by code_simp+
  have "option_enabled tp_priority tp_priority" "Purge \<notin> set ?es" by simp_all
  from pool_priority [OF this refl s(1)] obtain pri where
    "Pr_task 6 pri \<in> set (queue ?p)" "\<forall>u \<in> set (queue ?p). sint (priority u) \<le> sint pri"
    "mset (started ?p) + mset (map task (queue ?p)) = mset (detached ?es)" by blast
  moreover have "queue ?p = [Pr_task 5 1, Pr_task 6 100, Pr_task 7 (- 1)]" by code_simp
  ultimately show ?thesis using s by (auto simp: Let_def)
qed

text \<open>
  C23: The pool without priorities implements the abstract work queue of theory WorkQueue,
  whatever the interleaving: every run is a run of a FIFO of waiting tasks and a multiset of
  running ones in which the clients' commands are exactly the detached tasks and the purges,
  in their order, and the rest are workers that take the oldest task and finish.
\<close>
theorem pool_implements_queue:
  assumes "\<not> option_enabled OptFlags tp_priority"
  shows "\<exists>ls. work_run ls ([], {#}) (pool_work (run_pool es (thread_pool OptFlags hc n))) \<and>
    commands ls = concat (map event_commands es)"
proof -
  let ?p = "thread_pool OptFlags hc n"
  obtain ls css where r: "work_run ls (pool_work ?p) (pool_work (run_pool es ?p))"
    "list_all2 (\<lambda>e cs. cs = event_commands e) es css" "commands ls = concat css"
    using pool_queue.run_simulates [OF run_of_pool [of es ?p]] assms by auto
  have "css = map event_commands es" using r(2) by (auto simp: list_all2_conv_all_nth intro: nth_equalityI)
  moreover have "pool_work ?p = ([], {#})" by (simp add: pool_work_def)
  ultimately show ?thesis using r(1,3) by metis
qed

theorem pool_implements_queue_witness:
  "\<exists>ls. work_run ls ([], {#}) (pool_work (run_pool [Detach (5 :: nat) 0, Worker 0 0, Detach 6 0, Purge] (thread_pool tp_pause 4 2))) \<and>
     commands ls = [Enqueue 5, Enqueue 6, Clear]"
  using pool_implements_queue [of tp_pause "[Detach (5 :: nat) 0, Worker 0 0, Detach 6 0, Purge]" 4 2]
  by (simp add: event_commands_def)


lemma run_pool_quiet:
  "reaches init (pool_steps quiet) p \<Longrightarrow> Reset_end \<notin> set es \<Longrightarrow> reaches init (pool_steps quiet) (run_pool es p)"
proof (induction es arbitrary: p)
  case (Cons e es)
  have "quiet e p" using Cons.prems(2) by (auto simp: quiet_def)
  then have "reaches init (pool_steps quiet) (pool_step e p)"
    using Cons.prems(1) by (blast intro: reaches_step pool_steps.intros)
  with Cons show ?case by (simp add: run_pool_def)
qed (simp add: run_pool_def)


text \<open>
  C27: \<open>wait()\<close> keeps its promise to a thread that waits alone on a pool without pausing, if
  nobody purges the queue: the call returns at once exactly when no task runs and none is
  queued, and goes to sleep otherwise; after a wake-up it returns exactly when that is so; and
  while it sleeps there is a running or a queued task, so its wake-up is not lost.
  \<open>wait_for()\<close> and \<open>wait_until()\<close> whose time is over return whether that is so.
\<close>
theorem wait_guarantee:
  assumes "reaches (starts_unpausable OptFlags hc n) (pool_steps lone_waiter) p"
  defines "idle \<equiv> (\<forall>w \<in> set (threads p). \<not> is_active w) \<and> queue p = []"
  shows "(\<forall>caller d p'. wait_call caller d p = Inr p' \<longrightarrow>
       waiters p' = waiters p @ [if idle then Wait_returned True else Wait_sleeping]) \<and>
    (Wait_sleeping \<in> set (waiters p) \<longrightarrow> \<not> idle) \<and>
    (\<forall>j. j < length (waiters p) \<longrightarrow> waiters p ! j = Wait_notified \<longrightarrow>
       (is_returned (waiters (pool_step (Wait_wake j) p) ! j) \<longleftrightarrow> idle)) \<and>
    (\<forall>j. j < length (waiters p) \<longrightarrow> \<not> is_returned (waiters p ! j) \<longrightarrow> j < length (timed p) \<longrightarrow> timed p ! j \<longrightarrow>
       waiters (pool_step (Wait_timeout j) p) ! j = Wait_returned idle)"
proof -
  have ok: "pool_ok p" and w: "waiters_ok p" using waiting.inv_reaches [OF assms(1)] by simp_all
  have "tasks_done p \<longleftrightarrow> idle"
    using pool_ok_running [OF ok] number_pos [of is_active "threads p"] w
    by (auto simp: tasks_done_def is_suspended_def waiters_ok_def idle_def)
  with w show ?thesis by (auto simp: waiters_ok_def wait_wake_def wait_timeout_def wait_call_def split: if_splits)
qed

theorem wait_guarantee_witness:
  "let p = pool_step (Wait_call None False) (thread_pool tp_none 4 2 :: nat pool)
   in Wait_sleeping \<in> set (waiters p) \<and> ((\<exists>w \<in> set (threads p). is_active w) \<or> queue p \<noteq> [])"
proof -
  let ?p = "pool_step (Wait_call None False) (thread_pool tp_none 4 2 :: nat pool)"
  have i: "reaches (starts_unpausable tp_none 4 2) (pool_steps lone_waiter) (thread_pool tp_none 4 2 :: nat pool)"
    by (rule reaches_init) (simp add: starts_unpausable_def)
  have "lone_waiter (Wait_call None False) (thread_pool tp_none 4 2 :: nat pool)"
    by (simp add: lone_waiter_def outstanding_def)
  with i have "reaches (starts_unpausable tp_none 4 2) (pool_steps lone_waiter) ?p"
    by (blast intro: reaches_step pool_steps.intros)
  moreover have "Wait_sleeping \<in> set (waiters ?p)" by code_simp
  ultimately show ?thesis using wait_guarantee by (auto simp: Let_def)
qed

text \<open>
  A task that waits for its own pool: with the deadlock checks the call throws
  \<open>wait_deadlock\<close> and changes nothing; without them the call never returns, whatever the
  rest of the program does, since the worker that executes the task counts as running and
  does not come back to its loop.
\<close>
theorem wait_in_task:
  assumes "p = run_pool es (thread_pool OptFlags hc n)" and "i < length (threads p)" and "threads p ! i = Busy t"
  shows "if wait_deadlock_checks_enabled p then wait_call (Some i) False p = Inl Wait_deadlock
    else \<exists>p'. wait_call (Some i) False p = Inr p' \<and>
      (\<forall>es'. (\<forall>c. Worker c i \<notin> set es') \<longrightarrow> \<not> is_returned (waiters (run_pool es' p') ! length (waiters p)))"
proof (cases "wait_deadlock_checks_enabled p")
  case True
  with assms(2,3) show ?thesis by (simp add: wait_call_def in_pool_def)
next
  case False
  have ok: "pool_ok p" using assms(1) by (simp add: run_pool_ok)
  have "Busy t \<in> set (threads p)" using assms(2,3) by (metis nth_mem)
  then have "\<not> tasks_done p" by (rule active_not_done [OF ok]) simp
  with False obtain p' where p': "wait_call (Some i) False p = Inr p'"
    "p' = p\<lparr>waiting := True, waiters := waiters p @ [Wait_sleeping], timed := timed p @ [False]\<rparr>"
    by (simp add: wait_call_def)
  have "length (timed p) = length (waiters p)"
    unfolding assms(1) by (rule timed_length) (simp add: thread_pool_def create_threads_def Let_def)
  then have st: "stuck (length (waiters p)) p'" by (simp add: stuck_def p'(2) nth_append)
  have "pool_ok p'" "i < length (threads p')" "threads p' ! i = Busy t" using ok assms(2,3) by (simp_all add: p'(2))
  from stuck_run [OF this st] have "\<forall>es'. (\<forall>c. Worker c i \<notin> set es') \<longrightarrow> stuck (length (waiters p)) (run_pool es' p')"
    by blast
  with False p'(1) show ?thesis by (auto simp: stuck_def)
qed

theorem wait_in_task_witness:
  "let p = run_pool [Detach (5 :: nat) 0, Worker 0 0] (thread_pool tp_wait_deadlock_checks 4 2)
   in wait_call (Some 0) False p = Inl Wait_deadlock"
proof -
  let ?p = "run_pool [Detach (5 :: nat) 0, Worker 0 0] (thread_pool tp_wait_deadlock_checks 4 2)"
  have "0 < length (threads ?p) \<and> threads ?p ! 0 = Busy 5 \<and> wait_deadlock_checks_enabled ?p" by code_simp
  with wait_in_task [OF refl, of 0 "[Detach (5 :: nat) 0, Worker 0 0]" tp_wait_deadlock_checks 4 2 5] show ?thesis
    by (simp add: Let_def)
qed

text \<open>An idle pool with a thread in \<open>wait()\<close> and nothing under way that could wake it.\<close>

definition stranded :: "'a pool \<Rightarrow> bool" where
  "stranded p \<longleftrightarrow> tasks_done p \<and> list_all (\<lambda>w. case w of Sleeping \<Rightarrow> True | _ \<Rightarrow> False) (threads p) \<and>
     notifies p = 0 \<and> notify_alls p = 0 \<and> stop_requested p = [] \<and> Wait_sleeping \<in> set (waiters p)"

text \<open>
  Without those provisos \<open>wait()\<close> can sleep for ever on an idle pool: when another thread
  purges the queue, or pauses the pool, between the call and the wake-up of the worker, and
  when two threads wait, a task arrives between their wake-ups and the first resets
  \<open>waiting\<close> for the second. In the three runs the predicate of \<open>wait\<close> holds, every worker
  sleeps, no notification is pending, and a waiter is asleep.
\<close>
theorem wait_stranded:
  "stranded (run_pool [Worker 0 0, Detach (1 :: nat) 0, Wait_call None False, Purge, Notify_one 0, Worker 0 0]
     (thread_pool tp_none 4 1)) \<and>
   stranded (run_pool [Worker 0 0, Detach (1 :: nat) 0, Wait_call None False, Pause, Notify_one 0, Worker 0 0]
     (thread_pool tp_pause 4 1)) \<and>
   stranded (run_pool [Worker 0 0, Detach (1 :: nat) 0, Wait_call None False, Wait_call None False, Notify_one 0, Worker 0 0, Worker 0 0,
     Wait_wake 0, Detach 2 0, Wait_wake 1, Notify_one 0, Worker 0 0, Worker 0 0] (thread_pool tp_none 4 1))"
  by code_simp

text \<open>
  \<open>reset()\<close> on a pool with pausing loses a wake-up: it pauses the pool, replaces the
  workers, and takes the pause back without a notification. A task that is detached in the
  meantime (the notification reaches a new worker, which finds the pool paused) stays in
  the queue: the pool is not paused, both workers sleep, nothing is under way.
\<close>
theorem reset_strands:
  "let p = run_pool [Worker 0 0, Reset_begin, Wait_call None False, Request_stop 0, Worker 0 0, Create 4 2,
       Worker 0 0, Worker 0 1, Detach (5 :: nat) 0, Notify_one 0, Worker 0 0, Reset_end] (thread_pool tp_pause 4 1)
   in task_available p \<and> queue p = [Pr_task 5 0] \<and> threads p = [Sleeping, Sleeping] \<and> stop_requested p = [] \<and>
     notifies p = 0 \<and> notify_alls p = 0"
  by code_simp

end
