(* ===== verification/Futures.thy ===== *)
theory Futures
  imports Blocks PoolProps
begin

text \<open>
  Tasks with a future (src/src/BS_thread_pool.hpp): \<open>submit_task\<close> and the loops that submit one
  task per block or index, and the class \<open>BS::multi_future\<close>. A task keeps the promise of its
  future; executing it stores the result or the exception there, destroying it unexecuted
  stores \<open>std::future_errc::broken_promise\<close>. What the user's functions return or throw is a
  parameter \<open>run\<close>.
\<close>

section \<open>Tasks with a promise\<close>

datatype 'f packaged = Packaged (promise: "nat option") (call: 'f)

datatype 'e future_exn = Thrown 'e | Broken_promise

text \<open>
  The pool with the shared states of the futures that have been handed out, by number;
  \<open>calls\<close> records what each of them stands for.
\<close>

record ('f, 'e, 'v) executor =
  the_pool :: "'f packaged pool"
  states :: "('e future_exn + 'v) option list"
  calls :: "'f list"

definition submit_task :: "'f \<Rightarrow> priority_t \<Rightarrow> ('f, 'e, 'v) executor \<Rightarrow> nat \<times> ('f, 'e, 'v) executor" where
  "submit_task f pri x =
     (let future = length (states x)
      in (future, x\<lparr>the_pool := detach_task (Packaged (Some future) f) pri (the_pool x),
                    states := states x @ [None], calls := calls x @ [f]\<rparr>))"

text \<open>The body of the task: \<open>set_value\<close>, or \<open>set_exception\<close> for anything that is thrown.\<close>

definition outcome :: "('f \<Rightarrow> 'e + 'v) \<Rightarrow> 'f \<Rightarrow> 'e future_exn + 'v" where
  "outcome run f = (case run f of Inl e \<Rightarrow> Inl (Thrown e) | Inr v \<Rightarrow> Inr v)"

definition set_promise ::
  "'e future_exn + 'v \<Rightarrow> 'f packaged \<Rightarrow> ('e future_exn + 'v) option list \<Rightarrow> ('e future_exn + 'v) option list" where
  "set_promise r t sts = (case promise t of None \<Rightarrow> sts | Some future \<Rightarrow> sts[future := Some r])"

text \<open>
  The steps: of a client that submits a task or detaches one, and of the pool. A worker that
  comes back to its loop has executed its task; a purge destroys the queued tasks.
\<close>

datatype 'f exec_event =
    Submit 'f priority_t
  | Detach_call 'f priority_t
  | In_pool "'f packaged pool_event"

definition pool_effect ::
  "('f \<Rightarrow> 'e + 'v) \<Rightarrow> 'f packaged pool_event \<Rightarrow> 'f packaged pool \<Rightarrow>
   ('e future_exn + 'v) option list \<Rightarrow> ('e future_exn + 'v) option list" where
  "pool_effect run e p sts =
     (case e of
        Purge \<Rightarrow> fold (set_promise (Inl Broken_promise)) (map task (queue p)) sts
      | Worker c i \<Rightarrow>
          if i < length (threads p)
          then (case threads p ! i of Busy t \<Rightarrow> set_promise (outcome run (call t)) t sts | _ \<Rightarrow> sts)
          else sts
      | _ \<Rightarrow> sts)"

fun exec_step :: "('f \<Rightarrow> 'e + 'v) \<Rightarrow> 'f exec_event \<Rightarrow> ('f, 'e, 'v) executor \<Rightarrow> ('f, 'e, 'v) executor" where
  "exec_step run (Submit f pri) x = snd (submit_task f pri x)"
| "exec_step run (Detach_call f pri) x = x\<lparr>the_pool := detach_task (Packaged None f) pri (the_pool x)\<rparr>"
| "exec_step run (In_pool e) x =
     (case e of
        Detach t pri \<Rightarrow> x
      | _ \<Rightarrow> x\<lparr>the_pool := pool_step e (the_pool x), states := pool_effect run e (the_pool x) (states x)\<rparr>)"

definition run_exec :: "('f \<Rightarrow> 'e + 'v) \<Rightarrow> 'f exec_event list \<Rightarrow> ('f, 'e, 'v) executor \<Rightarrow> ('f, 'e, 'v) executor" where
  "run_exec run = fold (exec_step run)"

definition executor_on :: "'f packaged pool \<Rightarrow> ('f, 'e, 'v) executor" where
  "executor_on p = \<lparr>the_pool = p, states = [], calls = []\<rparr>"

section \<open>BS::multi_future\<close>

text \<open>A future is the number of its shared state, or invalid after its result has been taken.\<close>

type_synonym future = "nat option"

datatype ('e, 'v) get_result = Would_block | No_state | Throws "'e future_exn" | Returns 'v

definition future_get :: "('e future_exn + 'v) option list \<Rightarrow> future \<Rightarrow> ('e, 'v) get_result" where
  "future_get sts f =
     (case f of
        None \<Rightarrow> No_state
      | Some i \<Rightarrow> (case sts ! i of None \<Rightarrow> Would_block | Some (Inl e) \<Rightarrow> Throws e | Some (Inr v) \<Rightarrow> Returns v))"

fun multi_get :: "('e future_exn + 'v) option list \<Rightarrow> future list \<Rightarrow> ('e, 'v list) get_result" where
  "multi_get sts [] = Returns []"
| "multi_get sts (f # fs) =
     (case future_get sts f of
        Would_block \<Rightarrow> Would_block
      | No_state \<Rightarrow> No_state
      | Throws e \<Rightarrow> Throws e
      | Returns v \<Rightarrow>
          (case multi_get sts fs of
             Would_block \<Rightarrow> Would_block
           | No_state \<Rightarrow> No_state
           | Throws e \<Rightarrow> Throws e
           | Returns vs \<Rightarrow> Returns (v # vs)))"

text \<open>The futures after \<open>get()\<close>: those whose result has been taken are invalid.\<close>

fun after_get :: "('e future_exn + 'v) option list \<Rightarrow> future list \<Rightarrow> future list" where
  "after_get sts [] = []"
| "after_get sts (f # fs) =
     (case future_get sts f of
        Returns v \<Rightarrow> None # after_get sts fs
      | Throws e \<Rightarrow> None # fs
      | _ \<Rightarrow> f # fs)"

definition is_ready :: "('e future_exn + 'v) option list \<Rightarrow> future \<Rightarrow> bool" where
  "is_ready sts f = (case f of None \<Rightarrow> False | Some i \<Rightarrow> (case sts ! i of None \<Rightarrow> False | Some r \<Rightarrow> True))"

definition ready_count :: "('e future_exn + 'v) option list \<Rightarrow> future list \<Rightarrow> size_t" where
  "ready_count sts fs = fold (\<lambda>f count. if is_ready sts f then count + 1 else count) fs 0"

definition mf_valid :: "future list \<Rightarrow> bool" where
  "mf_valid fs = fold (\<lambda>f is_valid. is_valid \<and> f \<noteq> None) fs True"

text \<open>\<open>wait()\<close> returns in states in which every future is ready.\<close>

definition mf_wait :: "('e future_exn + 'v) option list \<Rightarrow> future list \<Rightarrow> bool" where
  "mf_wait sts fs \<longleftrightarrow> list_all (is_ready sts) fs"

text \<open>
  The timed waits decide by the clock alone: \<open>nows\<close> are its readings after the wait on each
  future.
\<close>

fun mf_wait_for :: "int \<Rightarrow> int \<Rightarrow> int list \<Rightarrow> bool" where
  "mf_wait_for duration start_time [] = True"
| "mf_wait_for duration start_time (now # nows) =
     (if duration < now - start_time then False else mf_wait_for duration start_time nows)"

fun mf_wait_until :: "int \<Rightarrow> int list \<Rightarrow> bool" where
  "mf_wait_until timeout_time [] = True"
| "mf_wait_until timeout_time (now # nows) =
     (if timeout_time < now then False else mf_wait_until timeout_time nows)"

section \<open>Submitting loops\<close>

text \<open>\<open>future.push_back(submit_task(...))\<close>.\<close>

definition push_task ::
  "'f \<Rightarrow> priority_t \<Rightarrow> future list \<times> ('f, 'e, 'v) executor \<Rightarrow> future list \<times> ('f, 'e, 'v) executor" where
  "push_task f pri fx =
     (case fx of (fs, x) \<Rightarrow> case submit_task f pri x of (i, x) \<Rightarrow> (fs @ [Some i], x))"

definition submit_blocks ::
  "int_type \<Rightarrow> int_type \<Rightarrow> int \<Rightarrow> int \<Rightarrow> size_t \<Rightarrow> priority_t \<Rightarrow> (job, 'e, 'v) executor \<Rightarrow>
   (future list \<times> (job, 'e, 'v) executor) result" where
  "submit_blocks T1 T2 first_ind ind_after_last n pri x =
     parallel (get_thread_count (the_pool x)) T1 T2 first_ind ind_after_last n
       (\<lambda>i e. push_task (Block_job i e) pri) ([], x)"

definition submit_loop ::
  "int_type \<Rightarrow> int_type \<Rightarrow> int \<Rightarrow> int \<Rightarrow> size_t \<Rightarrow> priority_t \<Rightarrow> (job, 'e, 'v) executor \<Rightarrow>
   (future list \<times> (job, 'e, 'v) executor) result" where
  "submit_loop T1 T2 first_ind ind_after_last n pri x =
     parallel (get_thread_count (the_pool x)) T1 T2 first_ind ind_after_last n
       (\<lambda>i e. push_task (Loop_job i e) pri) ([], x)"

definition submit_sequence ::
  "int_type \<Rightarrow> int_type \<Rightarrow> int \<Rightarrow> int \<Rightarrow> priority_t \<Rightarrow> (job, 'e, 'v) executor \<Rightarrow>
   future list \<times> (job, 'e, 'v) executor" where
  "submit_sequence T1 T2 first_ind ind_after_last pri x =
     (let T = common_index_type T1 T2
      in fold (\<lambda>i. push_task (Index_job i) pri) (indices (cast T first_ind) (cast T ind_after_last)) ([], x))"

section \<open>The pending tasks\<close>

definition pending :: "'a pool \<Rightarrow> 'a multiset" where
  "pending p = mset (map task (queue p)) + executing (threads p)"

lemma pending_detach: "pending (detach_task t pri p) = add_mset t (pending p)"
  by (simp add: pending_def detach_task_def)

lemma pending_purge: "pending (purge p) = executing (threads p)"
  by (simp add: pending_def purge_def)

lemma pending_other:
  assumes "\<And>c i. e \<noteq> Worker c i" and "\<And>t pri. e \<noteq> Detach t pri" and "e \<noteq> Purge"
  shows "pending (pool_step e p) = pending p"
  using other_step_work [OF assms, of p] by (simp add: pending_def pool_work_def)

lemma worker_check_pending:
  assumes "i < length (threads p)"
  shows "pending (worker_check c i p) + mset (task_of (threads p ! i)) = pending p"
proof -
  have u: "executing ((threads p)[i := w]) + mset (task_of (threads p ! i)) = executing (threads p) + mset (task_of w)" for w
    using assms by (rule executing_update)
  show ?thesis
    using assms
  proof (cases rule: worker_check_cases [where c = c])
    case (pop t ts)
    have "mset (map task (queue p)) = add_mset t (mset (map task ts))"
      using popped_mset [OF pop(3)] pop by (simp add: popped_def task_available_def)
    with pop(5) u [of "Busy t"] show ?thesis by (simp add: pending_def ac_simps)
  qed (use u [of Stopped] u [of Sleeping] in \<open>simp_all add: pending_def ac_simps\<close>)
qed

definition finishes :: "nat \<Rightarrow> 'a pool \<Rightarrow> 'a list" where
  "finishes i p = (if i < length (threads p) then task_of (threads p ! i) else [])"

lemma worker_pending: "pending (worker c i p) + mset (finishes i p) = pending p"
proof (cases "i < length (threads p)")
  case True
  have b: "pending (worker_back p) = pending p" by (simp add: pending_def)
  have "pending (worker_loop c i p) + mset (task_of (threads p ! i)) = pending p"
    using worker_check_pending [of i "worker_back p" c] True b by (simp add: worker_loop_back)
  with worker_check_pending [OF True, of c] True show ?thesis
    by (cases "threads p ! i") (simp_all add: worker_def finishes_def)
next
  case False
  then show ?thesis by (simp add: worker_def finishes_def)
qed

section \<open>The invariant of the futures\<close>

text \<open>
  A future that is not ready has exactly one task that will set it, queued or in execution; a
  ready one has none, and holds what its call gives, or \<open>Broken_promise\<close> after a purge.
\<close>

definition holding :: "nat \<Rightarrow> 'f packaged multiset \<Rightarrow> nat" where
  "holding n M = size (filter_mset (\<lambda>t. promise t = Some n) M)"

lemma holding_simps [simp]:
  "holding n {#} = 0" "holding n (add_mset t M) = (if promise t = Some n then 1 else 0) + holding n M"
  "holding n (M + N) = holding n M + holding n N"
  by (simp_all add: holding_def)

lemma holding_pos: "0 < holding n M \<longleftrightarrow> (\<exists>t \<in># M. promise t = Some n)"
  by (induction M) (auto simp: holding_def)

definition tasks_match :: "('f, 'e, 'v) executor \<Rightarrow> bool" where
  "tasks_match x \<longleftrightarrow> (\<forall>t \<in># pending (the_pool x). \<forall>i. promise t = Some i \<longrightarrow>
     i < length (states x) \<and> call t = calls x ! i)"

definition one_setter :: "('f, 'e, 'v) executor \<Rightarrow> bool" where
  "one_setter x \<longleftrightarrow> (\<forall>i < length (states x). holding i (pending (the_pool x)) = (if states x ! i = None then 1 else 0))"

definition results_ok :: "('f \<Rightarrow> 'e + 'v) \<Rightarrow> bool \<Rightarrow> ('f, 'e, 'v) executor \<Rightarrow> bool" where
  "results_ok run purged x \<longleftrightarrow> (\<forall>i r. i < length (states x) \<longrightarrow> states x ! i = Some r \<longrightarrow>
     r = outcome run (calls x ! i) \<or> purged \<and> r = Inl Broken_promise)"

definition exec_ok :: "('f \<Rightarrow> 'e + 'v) \<Rightarrow> bool \<Rightarrow> ('f, 'e, 'v) executor \<Rightarrow> bool" where
  "exec_ok run purged x \<longleftrightarrow> length (calls x) = length (states x) \<and> tasks_match x \<and> one_setter x \<and>
     results_ok run purged x"

lemmas exec_defs = exec_ok_def tasks_match_def one_setter_def results_ok_def

lemma submit_ok:
  assumes "exec_ok run b x"
  shows "exec_ok run b (snd (submit_task f pri x))"
proof -
  let ?n = "length (states x)"
  let ?t = "Packaged (Some ?n) f"
  define y where "y = snd (submit_task f pri x)"
  have y: "pending (the_pool y) = add_mset ?t (pending (the_pool x))" "states y = states x @ [None]"
    "calls y = calls x @ [f]"
    by (simp_all add: y_def submit_task_def Let_def pending_detach)
  have m: "tasks_match x" and l: "length (calls x) = ?n" and o: "one_setter x" and r: "results_ok run b x"
    using assms by (simp_all add: exec_ok_def)
  have h: "holding ?n (pending (the_pool x)) = 0"
    using m holding_pos [of ?n "pending (the_pool x)"] by (auto simp: tasks_match_def)
  have "tasks_match y" using m l by (auto simp: tasks_match_def y nth_append)
  moreover have "one_setter y" using o h by (auto simp: one_setter_def y nth_append less_Suc_eq)
  moreover have "results_ok run b y" using r l by (auto simp: results_ok_def y nth_append less_Suc_eq)
  ultimately show ?thesis using l y by (simp add: exec_ok_def y_def)
qed

lemma detach_call_ok: "exec_ok run b x \<Longrightarrow> exec_ok run b (x\<lparr>the_pool := detach_task (Packaged None f) pri (the_pool x)\<rparr>)"
  by (simp add: exec_defs pending_detach)

lemma same_pending_ok:
  "exec_ok run b x \<Longrightarrow> pending p = pending (the_pool x) \<Longrightarrow> exec_ok run b (x\<lparr>the_pool := p\<rparr>)"
  by (simp add: exec_defs)

text \<open>A task leaves and its promise is set.\<close>

lemma set_promise_nth:
  "i < length sts \<Longrightarrow> set_promise r t sts ! i = (if promise t = Some i then Some r else sts ! i)"
  by (auto simp: set_promise_def split: option.split)

lemma set_promise_length [simp]: "length (set_promise r t sts) = length sts"
  by (simp add: set_promise_def split: option.split)

lemma settle_ok:
  assumes "exec_ok run b x" and "pending p + {#t#} = pending (the_pool x)"
    and "r = outcome run (call t) \<or> b \<and> r = Inl Broken_promise"
  shows "exec_ok run b (x\<lparr>the_pool := p, states := set_promise r t (states x)\<rparr>)"
proof -
  define y where "y = x\<lparr>the_pool := p, states := set_promise r t (states x)\<rparr>"
  have m: "tasks_match x" and l: "length (calls x) = length (states x)" and o: "one_setter x"
    and res: "results_ok run b x"
    using assms(1) by (simp_all add: exec_ok_def)
  have px: "pending (the_pool x) = add_mset t (pending p)" using assms(2) by simp
  have t: "promise t = Some i \<Longrightarrow> i < length (states x) \<and> call t = calls x ! i" for i
    using m px by (simp add: tasks_match_def)
  have "tasks_match y" using m px by (auto simp: tasks_match_def y_def)
  moreover have "one_setter y"
    unfolding one_setter_def
  proof (intro allI impI)
    fix i
    assume i: "i < length (states y)"
    then have "holding i (pending (the_pool x)) = (if states x ! i = None then 1 else 0)"
      using o by (simp add: one_setter_def y_def)
    with i show "holding i (pending (the_pool y)) = (if states y ! i = None then 1 else 0)"
      by (auto simp: y_def px set_promise_nth split: if_splits)
  qed
  moreover have "results_ok run b y"
    using res t assms(3) by (auto simp: results_ok_def y_def set_promise_nth)
  ultimately show ?thesis using l by (simp add: exec_ok_def y_def)
qed

text \<open>A purge settles the queued tasks one after the other.\<close>

lemma purge_all_ok:
  fixes run :: "'f \<Rightarrow> 'e + 'v" and x :: "('f, 'e, 'v) executor"
  assumes "exec_ok run True x"
  shows "exec_ok run True (x\<lparr>the_pool := purge (the_pool x),
    states := fold (set_promise (Inl Broken_promise)) (map task (queue (the_pool x))) (states x)\<rparr>)"
proof -
  have "exec_ok run True (x\<lparr>the_pool := purge p,
      states := fold (set_promise (Inl Broken_promise)) (map task q) (states x)\<rparr>)"
    if "exec_ok run True x" "the_pool x = p\<lparr>queue := q\<rparr>" for x :: "('f, 'e, 'v) executor" and p q
    using that
  proof (induction q arbitrary: x)
    case Nil
    then have "pending (purge p) = pending (the_pool x)" by (simp add: pending_def purge_def)
    with Nil.prems(1) show ?case by (simp add: same_pending_ok)
  next
    case (Cons u q)
    let ?p = "p\<lparr>queue := q\<rparr>"
    let ?y = "x\<lparr>the_pool := ?p, states := set_promise (Inl Broken_promise) (task u) (states x)\<rparr>"
    have "pending ?p + {#task u#} = pending (the_pool x)" by (simp add: pending_def Cons.prems(2))
    then have "exec_ok run True ?y" using Cons.prems(1) by (intro settle_ok) simp_all
    from Cons.IH [OF this] show ?case by simp
  qed
  from this [OF assms, where p = "the_pool x" and q = "queue (the_pool x)"] show ?thesis by simp
qed

lemma worker_effect:
  "pool_effect run (Worker c i) p sts = fold (\<lambda>t. set_promise (outcome run (call t)) t) (finishes i p) sts"
  by (simp add: pool_effect_def finishes_def split: worker.split)

lemma finishes_cases: obtains "finishes i p = []" | t where "finishes i p = [t]"
  by (cases "i < length (threads p)"; cases "threads p ! i") (simp_all add: finishes_def)

definition is_purge :: "'f exec_event \<Rightarrow> bool" where
  "is_purge e \<longleftrightarrow> (case e of In_pool e' \<Rightarrow> (case e' of Purge \<Rightarrow> True | _ \<Rightarrow> False) | _ \<Rightarrow> False)"

lemma exec_ok_weaken: "exec_ok run b x \<Longrightarrow> exec_ok run (b \<or> c) x"
  by (auto simp: exec_ok_def results_ok_def)

lemma exec_step_ok:
  assumes "exec_ok run b x"
  shows "exec_ok run (b \<or> is_purge e) (exec_step run e x)"
proof (cases e)
  case (Submit f pri)
  with assms show ?thesis by (simp add: submit_ok is_purge_def)
next
  case (Detach_call f pri)
  with assms show ?thesis by (simp add: detach_call_ok is_purge_def)
next
  case (In_pool e')
  consider c i where "e' = Worker c i" | t pri where "e' = Detach t pri" | "e' = Purge"
    | "\<And>c i. e' \<noteq> Worker c i" "\<And>t pri. e' \<noteq> Detach t pri" "e' \<noteq> Purge" by blast
  then show ?thesis
  proof cases
    case (1 c i)
    note w = worker_pending [of c i "the_pool x"]
    have "exec_ok run b (exec_step run e x)"
    proof (cases rule: finishes_cases [of i "the_pool x"])
      case 1
      with w assms show ?thesis by (simp add: In_pool \<open>e' = Worker c i\<close> worker_effect same_pending_ok)
    next
      case (2 t)
      with w assms settle_ok [OF assms, of "worker c i (the_pool x)" t "outcome run (call t)"] show ?thesis
        by (simp add: In_pool \<open>e' = Worker c i\<close> worker_effect)
    qed
    then show ?thesis by (rule exec_ok_weaken)
  next
    case 2
    with assms In_pool show ?thesis by (simp add: is_purge_def)
  next
    case 3
    have "exec_ok run True x" using exec_ok_weaken [OF assms, of True] by simp
    from purge_all_ok [OF this] show ?thesis by (simp add: In_pool 3 is_purge_def pool_effect_def)
  next
    case 4
    then have "exec_step run e x = x\<lparr>the_pool := pool_step e' (the_pool x)\<rparr>" "\<not> is_purge e"
      by (cases e'; simp add: In_pool pool_effect_def is_purge_def)+
    with assms pending_other [OF 4, of "the_pool x"] show ?thesis by (simp add: same_pending_ok)
  qed
qed

lemma run_exec_ok: "exec_ok run b x \<Longrightarrow> exec_ok run (b \<or> list_ex is_purge es) (run_exec run es x)"
proof (induction es arbitrary: b x)
  case (Cons e es)
  from Cons.IH [OF exec_step_ok [OF Cons.prems, of e]] show ?case by (simp add: run_exec_def ac_simps)
qed (simp add: run_exec_def)

text \<open>The pool of an executor is a pool with threads, and calls are only added.\<close>

definition pool_alive :: "'a pool \<Rightarrow> bool" where
  "pool_alive p \<longleftrightarrow> pool_ok p \<and> threads p \<noteq> []"

lemma worker_check_length: "i < length (threads p) \<Longrightarrow> length (threads (worker_check c i p)) = length (threads p)"
  by (rule worker_check_options)

lemma worker_length [simp]: "length (threads (worker c i p)) = length (threads p)"
  by (cases rule: worker_cases [of c i p]) (simp_all add: worker_loop_back worker_check_length)

lemma pool_step_length:
  assumes "threads p \<noteq> []"
  shows "threads (pool_step e p) \<noteq> []"
proof -
  have "unat (determine_thread_count hc n) \<noteq> 0" for hc n by (metis determine_thread_count_pos unat_eq_zero)
  then have "threads (create_threads hc n p) \<noteq> []" for hc n by (simp add: create_threads_def Let_def)
  with assms have "length (threads (pool_step e p)) \<noteq> 0"
    by (cases e) (simp_all add: client_defs wait_call_def reset_end_def notify_all_def request_stop_def
        split: option.split)
  then show ?thesis by simp
qed

lemma exec_pool_step: "\<exists>e'. the_pool (exec_step run e x) = pool_step e' (the_pool x) \<or> the_pool (exec_step run e x) = the_pool x"
proof (cases e)
  case (Submit f pri)
  then have "the_pool (exec_step run e x) = pool_step (Detach (Packaged (Some (length (states x))) f) pri) (the_pool x)"
    by (simp add: submit_task_def Let_def)
  then show ?thesis by blast
next
  case (Detach_call f pri)
  then have "the_pool (exec_step run e x) = pool_step (Detach (Packaged None f) pri) (the_pool x)" by simp
  then show ?thesis by blast
next
  case (In_pool e')
  then have "the_pool (exec_step run e x) = pool_step e' (the_pool x) \<or> the_pool (exec_step run e x) = the_pool x"
    by (cases e') simp_all
  then show ?thesis by blast
qed

lemma exec_step_alive: "pool_alive (the_pool x) \<Longrightarrow> pool_alive (the_pool (exec_step run e x))"
  using exec_pool_step [of run e x] by (auto simp: pool_alive_def pool_step_ok pool_step_length)

lemma run_exec_alive: "pool_alive (the_pool x) \<Longrightarrow> pool_alive (the_pool (run_exec run es x))"
  by (induction es arbitrary: x) (simp_all add: run_exec_def exec_step_alive)

lemma exec_step_calls: "\<exists>fs. calls (exec_step run e x) = calls x @ fs"
proof (cases e)
  case (In_pool e')
  then show ?thesis by (cases e') simp_all
qed (simp_all add: submit_task_def Let_def)

lemma run_exec_calls: "\<exists>fs. calls (run_exec run es x) = calls x @ fs"
proof (induction es arbitrary: x)
  case (Cons e es)
  from Cons [of "exec_step run e x"] exec_step_calls [of run e x] show ?case
    by (auto simp: run_exec_def)
qed (simp add: run_exec_def)

lemma executor_on_ok: "exec_ok run False (executor_on (thread_pool OptFlags hc n))"
  by (simp add: exec_defs executor_on_def pending_def)

lemma thread_pool_alive: "pool_alive (thread_pool OptFlags hc n)"
proof -
  have "unat (determine_thread_count hc n) \<noteq> 0" by (metis determine_thread_count_pos unat_eq_zero)
  then show ?thesis by (simp add: pool_alive_def thread_pool_ok)
qed

section \<open>Results\<close>

text \<open>The reference: the calls in order, up to the first that throws.\<close>

fun sequential :: "('f \<Rightarrow> 'e + 'v) \<Rightarrow> 'f list \<Rightarrow> ('e, 'v list) get_result" where
  "sequential run [] = Returns []"
| "sequential run (f # fs) =
     (case run f of
        Inl e \<Rightarrow> Throws (Thrown e)
      | Inr v \<Rightarrow>
          (case sequential run fs of
             Would_block \<Rightarrow> Would_block
           | No_state \<Rightarrow> No_state
           | Throws e \<Rightarrow> Throws e
           | Returns vs \<Rightarrow> Returns (v # vs)))"

lemma upt_length_Cons: "[n..<n + length (f # fs)] = n # [Suc n..<Suc n + length fs]"
  by (subst upt_conv_Cons) simp_all

lemma multi_get_sequential:
  assumes "\<And>k. k < length fs \<Longrightarrow> sts ! (n + k) = Some (outcome run (fs ! k))"
  shows "multi_get sts (map Some [n..<n + length fs]) = sequential run fs"
  using assms
proof (induction fs arbitrary: n)
  case (Cons f fs)
  have "sts ! n = Some (outcome run f)" using Cons.prems [of 0] by simp
  then have g: "future_get sts (Some n) = (case run f of Inl e \<Rightarrow> Throws (Thrown e) | Inr v \<Rightarrow> Returns v)"
    by (simp add: future_get_def outcome_def split: sum.split)
  have "multi_get sts (map Some [Suc n..<Suc n + length fs]) = sequential run fs"
    using Cons.prems [of "Suc _"] by (intro Cons.IH) simp
  with g show ?case unfolding upt_length_Cons by (simp del: upt_Suc split: sum.split)
qed simp

definition idle :: "'a pool \<Rightarrow> bool" where
  "idle p \<longleftrightarrow> queue p = [] \<and> (\<forall>w \<in> set (threads p). \<not> is_active w)"

lemma idle_pending: "idle p \<Longrightarrow> pending p = {#}"
  by (simp add: idle_def pending_def executing_inactive)

text \<open>Once the pool is idle, the futures of some calls give what the calls give in order.\<close>

lemma get_when_idle:
  assumes "exec_ok run False x" and "calls x = cs @ fs @ cs'" and "idle (the_pool x)"
  shows "multi_get (states x) (map Some [length cs..<length cs + length fs]) = sequential run fs"
proof (rule multi_get_sequential)
  fix k
  assume k: "k < length fs"
  then have len: "length cs + k < length (states x)" using assms(1,2) by (simp add: exec_ok_def)
  then have "states x ! (length cs + k) \<noteq> None"
    using assms(1) idle_pending [OF assms(3)] by (auto simp: exec_ok_def one_setter_def split: if_splits)
  then obtain r where r: "states x ! (length cs + k) = Some r" by auto
  with len assms(1) have "r = outcome run (calls x ! (length cs + k))"
    by (auto simp: exec_ok_def results_ok_def)
  also have "calls x ! (length cs + k) = fs ! k" using k assms(2) by (simp add: nth_append)
  finally show "states x ! (length cs + k) = Some (outcome run (fs ! k))" using r by simp
qed

text \<open>Submitting calls one after the other.\<close>

lemma push_tasks:
  assumes "length (calls x) = length (states x)"
  shows "fold (\<lambda>f. push_task f pri) fs (gs, x) =
    (gs @ map Some [length (calls x)..<length (calls x) + length fs], snd (fold (\<lambda>f. push_task f pri) fs (gs, x))) \<and>
    calls (snd (fold (\<lambda>f. push_task f pri) fs (gs, x))) = calls x @ fs"
  using assms
proof (induction fs arbitrary: gs x)
  case (Cons f fs)
  define y where "y = snd (submit_task f pri x)"
  have y: "push_task f pri (gs, x) = (gs @ [Some (length (calls x))], y)" "calls y = calls x @ [f]"
    "length (calls y) = length (states y)"
    using Cons.prems by (simp_all add: push_task_def submit_task_def y_def Let_def)
  from Cons.IH [OF y(3), of "gs @ [Some (length (calls x))]"] show ?case
    unfolding upt_length_Cons by (simp add: y(1,2) del: upt_Suc)
qed simp

lemma push_tasks_ok:
  assumes "exec_ok run b x" and "pool_alive (the_pool x)"
  shows "exec_ok run b (snd (fold (\<lambda>f. push_task f pri) fs (gs, x))) \<and>
    pool_alive (the_pool (snd (fold (\<lambda>f. push_task f pri) fs (gs, x))))"
  using assms
proof (induction fs arbitrary: gs x)
  case (Cons f fs)
  have "exec_ok run b (snd (submit_task f pri x))" using Cons.prems(1) by (rule submit_ok)
  moreover have "pool_alive (the_pool (snd (submit_task f pri x)))"
    using exec_step_alive [OF Cons.prems(2), of run "Submit f pri"] by simp
  moreover have "push_task f pri (gs, x) = (gs @ [Some (length (states x))], snd (submit_task f pri x))"
    by (simp add: push_task_def submit_task_def Let_def)
  ultimately show ?case using Cons.IH by simp
qed simp

lemma fold_pairs: "fold (\<lambda>(i, e). push_task (J i e) pri) bs = fold (\<lambda>f. push_task f pri) (map (\<lambda>(i, e). J i e) bs)"
  by (simp add: fold_map comp_def case_prod_unfold)

text \<open>Submitted calls, then any run without a purge to an idle pool.\<close>

lemma submitted_get:
  assumes "exec_ok run False x" and "pool_alive (the_pool x)"
    and "(fs, x1) = fold (\<lambda>f. push_task f pri) js ([], x)"
    and "\<not> list_ex is_purge es" and "idle (the_pool (run_exec run es x1))"
  shows "length fs = length js \<and> multi_get (states (run_exec run es x1)) fs = sequential run js"
proof -
  have l: "length (calls x) = length (states x)" using assms(1) by (simp add: exec_ok_def)
  have f: "fs = map Some [length (calls x)..<length (calls x) + length js]" "calls x1 = calls x @ js"
    using push_tasks [OF l, of pri js "[]"] unfolding assms(3) [symmetric] by simp_all
  have "exec_ok run False x1"
    using push_tasks_ok [OF assms(1,2), of pri js "[]"] unfolding assms(3) [symmetric] by simp
  then have "exec_ok run False (run_exec run es x1)"
    using run_exec_ok [of run False x1 es] assms(4) by simp
  moreover obtain cs where "calls (run_exec run es x1) = calls x @ js @ cs"
    using run_exec_calls [of run es x1] f(2) by auto
  ultimately have "multi_get (states (run_exec run es x1)) fs = sequential run js"
    unfolding f(1) using assms(5) by (intro get_when_idle)
  with f(1) show ?thesis by simp
qed

lemma reachable_executor:
  assumes "x = run_exec run es (executor_on (thread_pool OptFlags hc n))" and "\<not> list_ex is_purge es"
  shows "exec_ok run False x" and "pool_alive (the_pool x)" and "get_thread_count (the_pool x) \<noteq> 0"
proof -
  show "exec_ok run False x"
    using run_exec_ok [OF executor_on_ok, where run = run and es = es] assms by simp
  show a: "pool_alive (the_pool x)"
    unfolding assms(1) by (rule run_exec_alive) (simp add: executor_on_def thread_pool_alive)
  then show "get_thread_count (the_pool x) \<noteq> 0"
    by (intro get_thread_count_pos) (simp_all add: pool_alive_def pool_ok_def)
qed

section \<open>Waiting for many futures\<close>

lemma mf_valid_iff: "mf_valid fs \<longleftrightarrow> None \<notin> set fs"
proof -
  have "fold (\<lambda>f is_valid. is_valid \<and> f \<noteq> None) fs b \<longleftrightarrow> b \<and> None \<notin> set fs" for b
  proof (induction fs arbitrary: b)
    case (Cons f fs)
    then show ?case by (cases f) simp_all
  qed simp
  then show ?thesis by (simp add: mf_valid_def)
qed

lemma ready_count_number: "ready_count sts fs = of_nat (number (is_ready sts) fs)"
proof -
  have "fold (\<lambda>f count. if is_ready sts f then count + 1 else count) fs c = c + of_nat (number (is_ready sts) fs)"
    for c :: size_t
    by (induction fs arbitrary: c) (simp_all add: ac_simps)
  then show ?thesis by (simp add: ready_count_def)
qed

text \<open>After \<open>wait()\<close>, \<open>get()\<close> does not block; if it returns, no future is valid any more.\<close>

lemma wait_then_get: "mf_wait sts fs \<Longrightarrow> multi_get sts fs \<noteq> Would_block \<and> multi_get sts fs \<noteq> No_state"
proof (induction fs)
  case (Cons f fs)
  then obtain r where "future_get sts f = (case r of Inl e \<Rightarrow> Throws e | Inr v \<Rightarrow> Returns v)"
    by (auto simp: mf_wait_def is_ready_def future_get_def split: option.splits sum.splits)
  with Cons show ?case by (cases r) (simp_all add: mf_wait_def split: get_result.split)
qed simp

lemma get_invalidates: "multi_get sts fs = Returns vs \<Longrightarrow> after_get sts fs = replicate (length vs) None \<and> length vs = length fs"
  by (induction fs arbitrary: vs) (auto split: get_result.splits)

text \<open>
  The timed waits compare the clock with the deadline after every future: \<open>true\<close> means that it
  was never beyond the deadline. A wait that ends exactly at the deadline counts as in time
  even if its future is not ready.
\<close>

lemma mf_wait_for_iff: "mf_wait_for duration start_time nows \<longleftrightarrow> (\<forall>now \<in> set nows. now - start_time \<le> duration)"
  by (induction nows) auto

lemma mf_wait_until_for: "mf_wait_until (start_time + duration) nows = mf_wait_for duration start_time nows"
  by (induction nows) auto

section \<open>The loop as a whole\<close>

text \<open>
  Calls of a loop task run the user's function on the indices of the block and stop at the
  first exception; \<open>loop_over\<close> is the same loop over a whole range.
\<close>

definition loop_over :: "(int \<Rightarrow> 'e + unit) \<Rightarrow> int \<Rightarrow> int \<Rightarrow> 'e + unit" where
  "loop_over f i e = efold (\<lambda>k u. f k) (indices i e) ()"

fun run_job :: "(int \<Rightarrow> int \<Rightarrow> 'e + unit) \<Rightarrow> (int \<Rightarrow> 'e + unit) \<Rightarrow> job \<Rightarrow> 'e + unit" where
  "run_job block f (Block_job i e) = block i e"
| "run_job block f (Loop_job i e) = loop_over f i e"
| "run_job block f (Index_job i) = f i"

lemma sequential_loops:
  "sequential (run_job block f) (map (\<lambda>(i, e). Loop_job i e) bs) =
     (case efold (\<lambda>k u. f k) (concat (map (\<lambda>(i, e). indices i e) bs)) () of
        Inl e \<Rightarrow> Throws (Thrown e)
      | Inr u \<Rightarrow> Returns (replicate (length bs) ()))"
proof (induction bs)
  case (Cons b bs)
  obtain i e where b: "b = (i, e)" by (cases b)
  show ?case
  proof (cases "loop_over f i e")
    case (Inl x)
    then show ?thesis by (simp add: b efold_append loop_over_def)
  next
    case (Inr u)
    with Cons show ?thesis by (simp add: b efold_append loop_over_def split: sum.split)
  qed
qed simp

section \<open>Properties\<close>

text \<open>
  C26: The futures of the pool are sound whatever the interleaving of clients and workers: a
  future is not ready exactly as long as its task is queued or in execution, and a ready one
  holds the value or the exception of the call it was submitted for, or \<open>broken_promise\<close> if
  the queue has been purged.
\<close>
theorem futures_sound:
  assumes "x = run_exec run es (executor_on (thread_pool OptFlags hc n))" and "i < length (states x)"
  shows "(states x ! i = None \<longleftrightarrow> (\<exists>t \<in># pending (the_pool x). promise t = Some i)) \<and>
    (\<forall>r. states x ! i = Some r \<longrightarrow> r = outcome run (calls x ! i) \<or> r = Inl Broken_promise \<and> list_ex is_purge es)"
proof -
  have ok: "exec_ok run (list_ex is_purge es) x"
    using run_exec_ok [OF executor_on_ok, where run = run and es = es] assms(1) by simp
  have "holding i (pending (the_pool x)) = (if states x ! i = None then 1 else 0)"
    using ok assms(2) by (simp add: exec_ok_def one_setter_def)
  then have "states x ! i = None \<longleftrightarrow> (\<exists>t \<in># pending (the_pool x). promise t = Some i)"
    using holding_pos [of i "pending (the_pool x)"] by (simp split: if_splits)
  with ok assms(2) show ?thesis by (auto simp: exec_ok_def results_ok_def)
qed

theorem futures_sound_witness:
  "let x = run_exec (\<lambda>i. if i = 7 then Inl ''seven'' else Inr (i * i))
       [Submit (5 :: nat) 0, Submit 7 0, Submit 9 0, In_pool (Worker 0 0), In_pool (Worker 0 0), In_pool Purge]
       (executor_on (thread_pool tp_none 4 1))
   in states x ! 0 = Some (Inr 25) \<and> states x ! 1 = None \<and> states x ! 2 = Some (Inl Broken_promise)"
proof -
  let ?es = "[Submit (5 :: nat) 0, Submit 7 0, Submit 9 0, In_pool (Worker 0 0), In_pool (Worker 0 0), In_pool Purge]"
  let ?run = "\<lambda>i. if i = 7 then Inl ''seven'' else Inr (i * i)"
  let ?x = "run_exec ?run ?es (executor_on (thread_pool tp_none 4 1))"
  have s: "length (states ?x) = 3" "states ?x ! 0 \<noteq> None" "states ?x ! 1 = None" "calls ?x ! 0 = 5"
    "states ?x ! 0 \<noteq> Some (Inl Broken_promise)" "states ?x ! 2 = Some (Inl Broken_promise)"
    by code_simp+
  with futures_sound [of ?x ?run ?es tp_none 4 1 0] show ?thesis by (auto simp: outcome_def Let_def)
qed

text \<open>
  \<open>submit_sequence\<close> and \<open>submit_blocks\<close> are equivalent to calling the function in order:
  submitted at any time, for any index types and any priority, with any interleaving
  afterwards: once the pool is idle, \<open>get()\<close> returns the results in the order of the indices
  or blocks, or throws the first exception in that order. The calls are those on the indices
  of the range, respectively on blocks that partition it.
\<close>
theorem submit_sequential:
  assumes "T1 \<in> set int_types" and "T2 \<in> set int_types" and "T = common_index_type T1 T2"
    and "x = run_exec run es (executor_on (thread_pool OptFlags hc n))" and "\<not> list_ex is_purge es"
    and "\<not> list_ex is_purge es'"
  shows "(\<forall>fs x1. submit_sequence T1 T2 fi la pri x = (fs, x1) \<longrightarrow> idle (the_pool (run_exec run es' x1)) \<longrightarrow>
      multi_get (states (run_exec run es' x1)) fs =
        sequential run (map Index_job (indices (cast T fi) (cast T la)))) \<and>
    (\<forall>fs x1. submit_blocks T1 T2 fi la nb pri x = Inr (fs, x1) \<longrightarrow> idle (the_pool (run_exec run es' x1)) \<longrightarrow>
      (\<exists>bs. concat (map (\<lambda>(i, e). indices i e) bs) = indices (cast T fi) (cast T la) \<and>
        multi_get (states (run_exec run es' x1)) fs = sequential run (map (\<lambda>(i, e). Block_job i e) bs)))"
proof (intro conjI allI impI)
  note x = reachable_executor [OF assms(4,5)]
  fix fs x1
  assume i: "idle (the_pool (run_exec run es' x1))"
  {
    assume "submit_sequence T1 T2 fi la pri x = (fs, x1)"
    then have "(fs, x1) = fold (\<lambda>f. push_task f pri) (map Index_job (indices (cast T fi) (cast T la))) ([], x)"
      by (simp add: submit_sequence_def Let_def assms(3) fold_map comp_def)
    from submitted_get [OF x(1,2) this assms(6) i]
    show "multi_get (states (run_exec run es' x1)) fs =
        sequential run (map Index_job (indices (cast T fi) (cast T la)))" by blast
  next
    assume s: "submit_blocks T1 T2 fi la nb pri x = Inr (fs, x1)"
    note par = parallel_fold [OF assms(1-3) refl refl x(3), of fi la nb "\<lambda>i e. push_task (Block_job i e) pri" "([], x)"]
    obtain bs where bs: "(fs, x1) = fold (\<lambda>(i, e). push_task (Block_job i e) pri) bs ([], x)"
      "concat (map (\<lambda>(i, e). indices i e) bs) = indices (cast T fi) (cast T la)"
      using par s unfolding submit_blocks_def by (auto split: if_splits)
    from submitted_get [OF x(1,2) bs(1) [unfolded fold_pairs] assms(6) i] bs(2)
    show "\<exists>bs. concat (map (\<lambda>(i, e). indices i e) bs) = indices (cast T fi) (cast T la) \<and>
        multi_get (states (run_exec run es' x1)) fs = sequential run (map (\<lambda>(i, e). Block_job i e) bs)" by blast
  }
qed

text \<open>A run on two workers that executes three submitted tasks.\<close>

definition three_steps :: "'f exec_event list" where
  "three_steps = map (\<lambda>i. In_pool (Worker 0 i)) [1, 0, 0, 1, 0]"

lemma three_steps_quiet: "\<not> list_ex is_purge three_steps"
  by (simp add: three_steps_def is_purge_def)

theorem submit_sequential_witness:
  "let run = (\<lambda>j. case j of Index_job i \<Rightarrow> if i = 7 then Inl ''seven'' else Inr (i * i) | _ \<Rightarrow> Inr 0);
       sx = submit_sequence int32_t int32_t 4 7 0 (executor_on (thread_pool tp_none 4 2));
       y = run_exec run three_steps (snd sx)
   in idle (the_pool y) \<and> multi_get (states y) (fst sx) = Returns [16, 25, 36]"
proof -
  let ?run = "\<lambda>j. case j of Index_job i \<Rightarrow> if i = 7 then Inl ''seven'' else Inr (i * i) | _ \<Rightarrow> Inr (0 :: int)"
  let ?x = "executor_on (thread_pool tp_none 4 2) :: (job, string, int) executor"
  let ?sx = "submit_sequence int32_t int32_t 4 7 0 ?x"
  have t: "int32_t \<in> set int_types" by (simp add: int_types_iff)
  have x: "?x = run_exec ?run [] (executor_on (thread_pool tp_none 4 2))" by (simp add: run_exec_def)
  have i: "idle (the_pool (run_exec ?run three_steps (snd ?sx)))" by code_simp
  have "multi_get (states (run_exec ?run three_steps (snd ?sx))) (fst ?sx) =
      sequential ?run (map Index_job (indices (cast (common_index_type int32_t int32_t) 4) (cast (common_index_type int32_t int32_t) 7)))"
    using submit_sequential [OF t t refl x _ three_steps_quiet, of 4 7 0] i by simp
  also have "\<dots> = Returns [16, 25, 36]" by code_simp
  finally show ?thesis using i by (simp add: Let_def)
qed

text \<open>
  C25: \<open>submit_loop\<close> is equivalent to the loop it parallelises: it faults only when the length
  of the range overflows a signed index type; otherwise, submitted at any time and with any
  interleaving afterwards, once the pool is idle \<open>get()\<close> returns if the sequential loop over
  the whole range runs to its end, and throws the exception that stops the sequential loop
  if it does not.
\<close>
theorem submit_loop_equiv:
  assumes "T1 \<in> set int_types" and "T2 \<in> set int_types" and "T = common_index_type T1 T2"
    and "x = run_exec (run_job block f) es (executor_on (thread_pool OptFlags hc n))" and "\<not> list_ex is_purge es"
    and "\<not> list_ex is_purge es'" and "\<not> (cast T fi < cast T la \<and> overflows T (cast T fi) (cast T la))"
  shows "\<exists>fs x1. submit_loop T1 T2 fi la nb pri x = Inr (fs, x1) \<and>
    (idle (the_pool (run_exec (run_job block f) es' x1)) \<longrightarrow>
      multi_get (states (run_exec (run_job block f) es' x1)) fs =
        (case loop_over f (cast T fi) (cast T la) of
           Inl e \<Rightarrow> Throws (Thrown e)
         | Inr u \<Rightarrow> Returns (replicate (length fs) ())))"
proof -
  note x = reachable_executor [OF assms(4,5)]
  note par = parallel_fold [OF assms(1-3) refl refl x(3), of fi la nb "\<lambda>i e. push_task (Loop_job i e) pri" "([], x)"]
  obtain bs where bs: "submit_loop T1 T2 fi la nb pri x = Inr (fold (\<lambda>(i, e). push_task (Loop_job i e) pri) bs ([], x))"
    "concat (map (\<lambda>(i, e). indices i e) bs) = indices (cast T fi) (cast T la)"
    using par assms(7) unfolding submit_loop_def by auto
  obtain fs x1 where f: "(fs, x1) = fold (\<lambda>f. push_task f pri) (map (\<lambda>(i, e). Loop_job i e) bs) ([], x)"
    by (metis surj_pair)
  show ?thesis
  proof (intro exI conjI impI)
    show "submit_loop T1 T2 fi la nb pri x = Inr (fs, x1)" unfolding bs(1) fold_pairs f ..
    assume i: "idle (the_pool (run_exec (run_job block f) es' x1))"
    from submitted_get [OF x(1,2) f assms(6) i]
    show "multi_get (states (run_exec (run_job block f) es' x1)) fs =
        (case loop_over f (cast T fi) (cast T la) of
           Inl e \<Rightarrow> Throws (Thrown e)
         | Inr u \<Rightarrow> Returns (replicate (length fs) ()))"
      unfolding sequential_loops bs(2) loop_over_def by (simp split: sum.split)
  qed
qed

theorem submit_loop_equiv_witness:
  "let f = (\<lambda>i. if i = 5 then Inl ''five'' else Inr ()); run = run_job (\<lambda>i e. Inr ()) f
   in \<exists>fs x1. submit_loop int32_t int32_t 4 7 3 0 (executor_on (thread_pool tp_none 4 2)) = Inr (fs, x1) \<and>
     multi_get (states (run_exec run three_steps x1)) fs = Throws (Thrown ''five'')"
proof -
  let ?f = "\<lambda>i. if i = (5 :: int) then Inl ''five'' else Inr ()"
  let ?run = "run_job (\<lambda>i e. Inr ()) ?f"
  let ?x = "executor_on (thread_pool tp_none 4 2) :: (job, string, unit) executor"
  have t: "int32_t \<in> set int_types" by (simp add: int_types_iff)
  have c: "common_index_type int32_t int32_t = int32_t" by (simp add: common_index_type_def)
  have x: "?x = run_exec ?run [] (executor_on (thread_pool tp_none 4 2))" by (simp add: run_exec_def)
  have o: "\<not> (cast int32_t 4 < cast int32_t 7 \<and> overflows int32_t (cast int32_t 4) (cast int32_t 7))"
    by code_simp
  obtain fs x1 where s: "submit_loop int32_t int32_t 4 7 3 0 ?x = Inr (fs, x1)"
    and g: "idle (the_pool (run_exec ?run three_steps x1)) \<longrightarrow>
      multi_get (states (run_exec ?run three_steps x1)) fs =
        (case loop_over ?f (cast int32_t 4) (cast int32_t 7) of
           Inl e \<Rightarrow> Throws (Thrown e)
         | Inr u \<Rightarrow> Returns (replicate (length fs) ()))"
    using submit_loop_equiv [OF t t c [symmetric] x _ three_steps_quiet o, of 3 0] by auto
  have "idle (the_pool (run_exec ?run three_steps (snd (projr (submit_loop int32_t int32_t 4 7 3 0 ?x)))))"
    by code_simp
  then have "idle (the_pool (run_exec ?run three_steps x1))" unfolding s by simp
  moreover have "loop_over ?f (cast int32_t 4) (cast int32_t 7) = Inl ''five''" by code_simp
  ultimately show ?thesis using s g by (auto simp: Let_def)
qed

end
