(* ===== verification/PoolStop.thy ===== *)
theory PoolStop
  imports PoolInv
begin

text \<open>
  The end of a pool: once its workers are told to stop, by the destructors of the \<open>jthread\<close>s or by
  \<open>destroy_threads\<close>, the joins return.
\<close>

section \<open>No lost request\<close>

text \<open>A worker that has been told to stop does not sleep unless a wake-up is under way.\<close>

definition stops_ok :: "'a pool \<Rightarrow> bool" where
  "stops_ok p \<longleftrightarrow> (\<forall>i \<in> set (stop_requested p). i < length (threads p) \<longrightarrow> threads p ! i = Sleeping \<longrightarrow>
     notify_alls p \<noteq> 0)"

text \<open>How a step changes one worker that has been told to stop.\<close>

definition told_to_stop :: "nat \<Rightarrow> 'a pool \<Rightarrow> bool" where
  "told_to_stop i p \<longleftrightarrow> i \<in> set (stop_requested p) \<and> i < length (threads p)"

definition is_create :: "'a pool_event \<Rightarrow> bool" where
  "is_create e = (case e of Create hc n \<Rightarrow> True | _ \<Rightarrow> False)"

lemma worker_check_threads:
  assumes "i < length (threads p)"
  shows "\<exists>w. threads (worker_check c i p) = (threads p)[i := w] \<and> (i \<in> set (stop_requested p) \<longrightarrow> w = Stopped) \<and>
    stop_requested (worker_check c i p) = stop_requested p \<and> notify_alls (worker_check c i p) = notify_alls p"
  using assms by (cases rule: worker_check_cases [where c = c]) auto

lemma worker_threads:
  "worker c i p = p \<or> (\<exists>w. i < length (threads p) \<and> threads p ! i \<notin> {Sleeping, Stopped} \<and>
     threads (worker c i p) = (threads p)[i := w] \<and>
     (i \<in> set (stop_requested p) \<longrightarrow> w = Stopped) \<and> stop_requested (worker c i p) = stop_requested p \<and>
     notify_alls (worker c i p) = notify_alls p)"
proof (cases rule: worker_cases [of c i p])
  case loop
  with worker_check_threads [of i "worker_back p" c] show ?thesis by (auto simp: worker_loop_back)
next
  case check
  with worker_check_threads [of i p c] show ?thesis by auto
qed simp

text \<open>The threads after any other step: sleeping workers may have been woken.\<close>

definition woken :: "'a worker \<Rightarrow> 'a worker \<Rightarrow> bool" where
  "woken w w' \<longleftrightarrow> w' = w \<or> w = Sleeping \<and> w' = Notified"

definition wakes :: "'a pool \<Rightarrow> 'a pool \<Rightarrow> bool" where
  "wakes p p' \<longleftrightarrow> list_all2 woken (threads p) (threads p')"

lemma wakes_same: "threads p' = threads p \<Longrightarrow> wakes p p'"
  by (simp add: wakes_def woken_def list.rel_refl)

lemma wakes_worker: "wakes p (wake_worker i p)"
  by (auto simp: wakes_def wake_worker_def woken_def list_all2_conv_all_nth nth_list_update)

lemma wakes_all: "wakes p (notify_all p)"
  by (auto simp: wakes_def notify_all_def woken_def list_all2_conv_all_nth)

lemma other_step_wakes:
  assumes "\<And>c i. e \<noteq> Worker c i" and "\<not> is_create e"
  shows "wakes p (pool_step e p)"
proof (cases e)
  case (Notify_one i)
  show ?thesis
    unfolding Notify_one using wakes_worker [of p i]
    by (cases rule: notify_one_cases [of i p]) (simp_all add: wakes_def woken_def list.rel_refl)
next
  case (Request_stop i)
  with wakes_worker [of "p\<lparr>stop_requested := i # stop_requested p\<rparr>" i] show ?thesis
    by (simp add: request_stop_def wakes_def)
next
  case Reset_end
  then show ?thesis by (simp add: reset_end_def wakes_same split: option.split)
qed (use assms in \<open>auto simp: client_defs wakes_same wakes_worker wakes_all destroy_threads_def is_create_def\<close>)

text \<open>A worker that has stopped stays so, and one that is to stop and is awake stays awake.\<close>

lemma step_told:
  assumes "told_to_stop i p" and "\<not> is_create e"
  shows "told_to_stop i (pool_step e p)"
proof -
  have l: "length (threads (pool_step e p)) = length (threads p)"
  proof (cases "\<exists>c j. e = Worker c j")
    case True
    then obtain c j where "e = Worker c j" by blast
    with worker_threads [of c j p] show ?thesis by auto
  next
    case False
    with other_step_wakes [of e p] assms(2) show ?thesis by (auto simp: wakes_def dest: list_all2_lengthD)
  qed
  have "i \<in> set (stop_requested (pool_step e p))"
  proof (cases e)
    case (Worker c j)
    with assms(1) worker_threads [of c j p] show ?thesis by (auto simp: told_to_stop_def)
  next
    case (Notify_one j)
    show ?thesis
      unfolding Notify_one using assms(1)
      by (cases rule: notify_one_cases [of j p]) (simp_all add: told_to_stop_def)
  next
    case Reset_end
    with assms(1) show ?thesis by (simp add: reset_end_def told_to_stop_def split: option.split)
  qed (use assms in \<open>auto simp: client_defs told_to_stop_def destroy_threads_def request_stop_def notify_all_def
      is_create_def\<close>)
  with l assms(1) show ?thesis by (simp add: told_to_stop_def)
qed

lemma step_awake:
  assumes "told_to_stop i p" and "\<not> is_create e" and "threads p ! i \<noteq> Sleeping"
  shows "threads (pool_step e p) ! i \<noteq> Sleeping \<and> (threads p ! i = Stopped \<longrightarrow> threads (pool_step e p) ! i = Stopped)"
proof (cases "\<exists>c j. e = Worker c j")
  case True
  then obtain c j where "e = Worker c j" by blast
  with worker_threads [of c j p] assms show ?thesis
    by (cases "j = i") (auto simp: told_to_stop_def)
next
  case False
  then have "wakes p (pool_step e p)" using assms(2) by (intro other_step_wakes) auto
  with assms(1,3) show ?thesis
    by (auto simp: wakes_def list_all2_conv_all_nth told_to_stop_def woken_def)
qed

lemma wakes_sleeping: "wakes p p' \<Longrightarrow> i < length (threads p') \<Longrightarrow> threads p' ! i = Sleeping \<Longrightarrow> threads p ! i = Sleeping"
  by (fastforce simp: wakes_def woken_def list_all2_conv_all_nth)

lemma stops_ok_wakes:
  assumes "stops_ok p" and "wakes p p'" and "stop_requested p' = stop_requested p" and "notify_alls p \<le> notify_alls p'"
  shows "stops_ok p'"
proof -
  have "length (threads p') = length (threads p)" using assms(2) by (simp add: wakes_def list_all2_lengthD)
  with assms wakes_sleeping [OF assms(2)] show ?thesis by (fastforce simp: stops_ok_def)
qed

lemma stops_ok_step:
  assumes "stops_ok p"
  shows "stops_ok (pool_step e p)"
proof (cases e)
  case (Worker c i)
  with worker_threads [of c i p] assms show ?thesis by (auto simp: stops_ok_def nth_list_update split: if_splits)
next
  case (Notify_one i)
  show ?thesis
    unfolding Notify_one using assms other_step_wakes [of "Notify_one i" p]
    by (intro stops_ok_wakes [OF assms])
      (cases rule: notify_one_cases [of i p]; simp add: is_create_def)+
next
  case Notify_all
  with assms show ?thesis by (auto simp: stops_ok_def notify_all_def split: if_splits)
next
  case (Request_stop i)
  with assms show ?thesis by (auto simp: stops_ok_def request_stop_def wake_worker_def nth_list_update)
next
  case Reset_end
  with assms show ?thesis by (auto simp: reset_end_def stops_ok_def split: option.split)
next
  case (Spurious i)
  with assms show ?thesis by (auto simp: stops_ok_def wake_worker_def nth_list_update)
next
  case (Create hc n)
  with assms show ?thesis by (simp add: stops_ok_def create_threads_def Let_def)
qed (use assms in \<open>auto simp: client_defs stops_ok_def destroy_threads_def\<close>)

lemma run_pool_stops: "stops_ok p \<Longrightarrow> stops_ok (run_pool es p)"
  by (induction es arbitrary: p) (simp_all add: run_pool_def stops_ok_step)

lemma thread_pool_stops: "stops_ok (thread_pool OptFlags hc n)"
  by (simp add: stops_ok_def thread_pool_def create_threads_def Let_def)

section \<open>The joins return\<close>

lemma run_told: "told_to_stop i p \<Longrightarrow> \<not> list_ex is_create es \<Longrightarrow> told_to_stop i (run_pool es p)"
  by (induction es arbitrary: p) (simp_all add: run_pool_def step_told)

lemma run_awake:
  "told_to_stop i p \<Longrightarrow> \<not> list_ex is_create es \<Longrightarrow> threads p ! i \<noteq> Sleeping \<Longrightarrow>
     threads (run_pool es p) ! i \<noteq> Sleeping \<and> (threads p ! i = Stopped \<longrightarrow> threads (run_pool es p) ! i = Stopped)"
proof (induction es arbitrary: p)
  case (Cons e es)
  then have c: "\<not> is_create e" "\<not> list_ex is_create es" by simp_all
  note s = step_awake [OF Cons.prems(1) c(1) Cons.prems(3)]
  from Cons.IH [OF step_told [OF Cons.prems(1) c(1)] c(2)] s show ?case by (auto simp: run_pool_def)
qed (simp add: run_pool_def)

lemma run_pool_append: "run_pool (es @ es') p = run_pool es' (run_pool es p)"
  by (simp add: run_pool_def)

lemma worker_stops:
  assumes "told_to_stop i p" and "threads p ! i \<noteq> Sleeping"
  shows "threads (pool_step (Worker c i) p) ! i = Stopped"
proof -
  have "i < length (threads p)" "i \<in> set (stop_requested p)" using assms(1) by (simp_all add: told_to_stop_def)
  with assms(2) show ?thesis
    by (cases "threads p ! i") (simp_all add: worker_def worker_loop_back worker_check_def)
qed

lemma told_wakes:
  assumes "stops_ok p" and "told_to_stop i p"
  shows "threads (notify_all p) ! i \<noteq> Sleeping"
  using assms by (auto simp: stops_ok_def told_to_stop_def notify_all_def)

text \<open>
  C28: The joins of the destructor (and of \<open>reset()\<close> and \<open>destroy_threads()\<close>) return: in every
  reachable state of a pool, a worker that has been told to stop, whatever it is doing and
  whatever else happens, has left its loop as soon as a pending notification has taken effect
  and the worker has come back to its loop, and it stays so until new threads are created. No
  request to stop is lost between the check and the sleep of a worker.
\<close>
theorem joins_return:
  assumes "p = run_pool es (thread_pool OptFlags hc n)" and "i \<in> set (stop_requested p)" and "i < length (threads p)"
    and "\<not> list_ex is_create (es1 @ es2 @ es3)"
  shows "threads (run_pool (es1 @ Notify_all # es2 @ Worker c i # es3) p) ! i = Stopped"
proof -
  have c: "\<not> list_ex is_create es1" "\<not> list_ex is_create es2" "\<not> list_ex is_create es3" using assms(4) by simp_all
  let ?p1 = "run_pool es1 p"
  let ?p2 = "run_pool es2 (notify_all ?p1)"
  have t1: "told_to_stop i ?p1" using assms(2,3) by (intro run_told c) (simp add: told_to_stop_def)
  have "stops_ok ?p1" unfolding assms(1) by (intro run_pool_stops thread_pool_stops)
  then have a: "threads (notify_all ?p1) ! i \<noteq> Sleeping" using t1 by (rule told_wakes)
  have "told_to_stop i (notify_all ?p1)" using step_told [OF t1, of Notify_all] by (simp add: is_create_def)
  with a c(2) have t2: "told_to_stop i ?p2" "threads ?p2 ! i \<noteq> Sleeping"
    using run_told run_awake by blast+
  have "threads (pool_step (Worker c i) ?p2) ! i = Stopped" using t2 by (rule worker_stops)
  moreover have "told_to_stop i (pool_step (Worker c i) ?p2)" using t2(1) by (rule step_told) (simp add: is_create_def)
  ultimately have "threads (run_pool es3 (pool_step (Worker c i) ?p2)) ! i = Stopped"
    using run_awake [OF _ c(3)] by fastforce
  then show ?thesis by (simp add: run_pool_def)
qed

theorem joins_return_witness:
  "threads (run_pool [Detach (5 :: nat) 0, Notify_all, Worker 0 1]
     (run_pool [Worker 0 0, Worker 0 1, Destroy_threads] (thread_pool tp_none 4 2))) ! 1 = Stopped"
proof -
  let ?p = "run_pool [Worker 0 0, Worker 0 1, Destroy_threads] (thread_pool tp_none 4 2) :: nat pool"
  have "1 \<in> set (stop_requested ?p) \<and> 1 < length (threads ?p) \<and> threads ?p ! 1 = Sleeping" by code_simp
  with joins_return [OF refl, of 1 "[Worker 0 0, Worker 0 1, Destroy_threads]" tp_none 4 2 "[Detach (5 :: nat) 0]" "[]" "[]" 0]
  show ?thesis by (simp add: is_create_def)
qed

end
