(* ===== verification/Semaphore.thy ===== *)
theory Semaphore
  imports Prelude
begin

text \<open>
  The polyfill of \<open>std::counting_semaphore\<close> in the thread pool library
  (src/src/BS_thread_pool.hpp), used where the standard library has none. As in theory Pool,
  a critical section of the mutex is one function, a wait on the condition variable is
  explicit, and a notification that is sent after the mutex has been released takes effect
  in a step of its own.
\<close>

section \<open>State\<close>

text \<open>
  A thread in \<open>acquire\<close>, \<open>try_acquire_for\<close> or \<open>try_acquire_until\<close>: asleep, woken, or returned,
  with whether it has decremented the counter.
\<close>

datatype acquirer = Acq_sleeping | Acq_notified | Acq_returned bool

record semaphore =
  counter :: int
  acquirers :: "acquirer list"
  deadlines :: "bool list"
  cv_notify_alls :: nat

text \<open>The counter is a \<open>std::ptrdiff_t\<close>, a signed integer of 64 bits.\<close>

definition ptrdiff_max :: int where "ptrdiff_max = 2 ^ 63 - 1"
definition ptrdiff_min :: int where "ptrdiff_min = - (2 ^ 63)"

definition counting_semaphore :: "int \<Rightarrow> semaphore" where
  "counting_semaphore desired = \<lparr>counter = desired, acquirers = [], deadlines = [], cv_notify_alls = 0\<rparr>"

text \<open>\<open>max()\<close> of \<open>counting_semaphore<LeastMaxValue>\<close>, and of a \<open>binary_semaphore\<close>.\<close>

definition semaphore_max :: "int \<Rightarrow> int" where "semaphore_max LeastMaxValue = LeastMaxValue"
definition binary_max :: int where "binary_max = semaphore_max 1"

section \<open>Operations\<close>

text \<open>The arithmetic on the counter.\<close>

definition add_counter :: "int \<Rightarrow> semaphore \<Rightarrow> semaphore result" where
  "add_counter update s =
     (if ptrdiff_min \<le> counter s + update \<and> counter s + update \<le> ptrdiff_max
      then Inr (s\<lparr>counter := counter s + update\<rparr>) else Inl Signed_overflow)"

text \<open>The call of \<open>acquire\<close>, or with a deadline of the timed variants, up to its first sleep.\<close>

definition acquire :: "bool \<Rightarrow> semaphore \<Rightarrow> semaphore result" where
  "acquire has_deadline s =
     (if 0 < counter s then
        ebind (add_counter (- 1) s) (\<lambda>s.
          Inr (s\<lparr>acquirers := acquirers s @ [Acq_returned True], deadlines := deadlines s @ [has_deadline]\<rparr>))
      else Inr (s\<lparr>acquirers := acquirers s @ [Acq_sleeping], deadlines := deadlines s @ [has_deadline]\<rparr>))"

definition acquire_wake :: "nat \<Rightarrow> semaphore \<Rightarrow> semaphore result" where
  "acquire_wake j s =
     (if 0 < counter s then
        ebind (add_counter (- 1) s) (\<lambda>s. Inr (s\<lparr>acquirers := (acquirers s)[j := Acq_returned True]\<rparr>))
      else Inr (s\<lparr>acquirers := (acquirers s)[j := Acq_sleeping]\<rparr>))"

text \<open>The deadline has passed: the timed variants look at the counter once more.\<close>

definition acquire_timeout :: "nat \<Rightarrow> semaphore \<Rightarrow> semaphore result" where
  "acquire_timeout j s =
     (if 0 < counter s then
        ebind (add_counter (- 1) s) (\<lambda>s. Inr (s\<lparr>acquirers := (acquirers s)[j := Acq_returned True]\<rparr>))
      else Inr (s\<lparr>acquirers := (acquirers s)[j := Acq_returned False]\<rparr>))"

definition try_acquire :: "semaphore \<Rightarrow> (bool \<times> semaphore) result" where
  "try_acquire s =
     (if 0 < counter s then ebind (add_counter (- 1) s) (\<lambda>s. Inr (True, s)) else Inr (False, s))"

definition release :: "int \<Rightarrow> semaphore \<Rightarrow> semaphore result" where
  "release update s =
     ebind (add_counter update s) (\<lambda>s. Inr (s\<lparr>cv_notify_alls := cv_notify_alls s + 1\<rparr>))"

definition cv_notify_all :: "semaphore \<Rightarrow> semaphore" where
  "cv_notify_all s =
     (if cv_notify_alls s = 0 then s
      else s\<lparr>acquirers := map (\<lambda>a. if a = Acq_sleeping then Acq_notified else a) (acquirers s),
             cv_notify_alls := cv_notify_alls s - 1\<rparr>)"

section \<open>Steps\<close>

text \<open>A successful \<open>try_acquire\<close> is recorded like the other acquisitions.\<close>

datatype sem_event =
    Acquire bool
  | Acquire_wake nat
  | Acquire_spurious nat
  | Acquire_timeout nat
  | Try_acquire
  | Release int
  | Cv_notify_all

fun sem_step :: "sem_event \<Rightarrow> semaphore \<Rightarrow> semaphore result" where
  "sem_step (Acquire d) s = acquire d s"
| "sem_step (Acquire_wake j) s =
     (if j < length (acquirers s) \<and> acquirers s ! j = Acq_notified then acquire_wake j s else Inr s)"
| "sem_step (Acquire_spurious j) s =
     (if j < length (acquirers s) \<and> acquirers s ! j = Acq_sleeping
      then Inr (s\<lparr>acquirers := (acquirers s)[j := Acq_notified]\<rparr>) else Inr s)"
| "sem_step (Acquire_timeout j) s =
     (if j < length (acquirers s) \<and> acquirers s ! j \<in> {Acq_sleeping, Acq_notified} \<and>
         j < length (deadlines s) \<and> deadlines s ! j
      then acquire_timeout j s else Inr s)"
| "sem_step Try_acquire s =
     ebind (try_acquire s) (\<lambda>(b, s).
       Inr (s\<lparr>acquirers := acquirers s @ [Acq_returned b], deadlines := deadlines s @ [False]\<rparr>))"
| "sem_step (Release update) s = release update s"
| "sem_step Cv_notify_all s = Inr (cv_notify_all s)"

definition run_sem :: "sem_event list \<Rightarrow> semaphore \<Rightarrow> semaphore result" where
  "run_sem = efold sem_step"

section \<open>Counting\<close>

abbreviation acquired :: "acquirer list \<Rightarrow> nat" where
  "acquired as \<equiv> number (\<lambda>a. a = Acq_returned True) as"

definition released :: "sem_event list \<Rightarrow> int" where
  "released es = sum_list (map (\<lambda>e. case e of Release n \<Rightarrow> n | _ \<Rightarrow> 0) es)"

lemma released_simps [simp]:
  "released [] = 0" "released (e # es) = (case e of Release n \<Rightarrow> n | _ \<Rightarrow> 0) + released es"
  by (simp_all add: released_def)

definition permits :: "semaphore \<Rightarrow> int" where
  "permits s = counter s + int (acquired (acquirers s))"

lemma add_counter_Inr: "add_counter n s = Inr s' \<longleftrightarrow>
    s' = s\<lparr>counter := counter s + n\<rparr> \<and> ptrdiff_min \<le> counter s + n \<and> counter s + n \<le> ptrdiff_max"
  by (auto simp: add_counter_def)

lemma acquired_set:
  assumes "j < length as" and "as ! j \<noteq> Acq_returned True"
  shows "acquired (as[j := a]) = acquired as + (if a = Acq_returned True then 1 else 0)"
  using number_update [OF assms(1), of "\<lambda>a. a = Acq_returned True" a] assms(2) by simp

lemma acquired_notified: "acquired (map (\<lambda>a. if a = Acq_sleeping then Acq_notified else a) as) = acquired as"
  by (induction as) simp_all

text \<open>A permit is in the counter or with a thread that has returned; only \<open>release\<close> adds some.\<close>

lemma sem_step_permits:
  assumes "sem_step e s = Inr s'"
  shows "permits s' = permits s + released [e]"
  using assms
  by (cases e)
    (auto simp: permits_def acquire_def acquire_wake_def acquire_timeout_def try_acquire_def release_def
      cv_notify_all_def ebind_eq_Inr add_counter_Inr acquired_set acquired_notified split: if_splits)

lemma sem_step_nonneg:
  assumes "sem_step e s = Inr s'" and "0 \<le> counter s" and "0 \<le> released [e]"
  shows "0 \<le> counter s'"
  using assms
  by (cases e)
    (auto simp: acquire_def acquire_wake_def acquire_timeout_def try_acquire_def release_def
      cv_notify_all_def ebind_eq_Inr add_counter_Inr split: if_splits)

section \<open>No lost wake-up\<close>

definition sem_ok :: "semaphore \<Rightarrow> bool" where
  "sem_ok s \<longleftrightarrow> (Acq_sleeping \<in> set (acquirers s) \<and> cv_notify_alls s = 0 \<longrightarrow> counter s \<le> 0)"

lemma sem_step_ok:
  assumes "sem_step e s = Inr s'" and "sem_ok s"
  shows "sem_ok s'"
proof -
  have sub: "Acq_sleeping \<in> set (as[j := a]) \<Longrightarrow> a \<noteq> Acq_sleeping \<Longrightarrow> Acq_sleeping \<in> set as" for as j a
    using set_update_subset_insert [of as j a] by auto
  show ?thesis
    using assms
    by (cases e)
      (auto simp: sem_ok_def acquire_def acquire_wake_def acquire_timeout_def try_acquire_def release_def
        cv_notify_all_def ebind_eq_Inr add_counter_Inr dest: sub split: if_splits)
qed

inductive sem_steps :: "semaphore \<Rightarrow> semaphore \<Rightarrow> bool" where
  "sem_step e s = Inr s' \<Longrightarrow> sem_steps s s'"

inductive_cases sem_stepsE: "sem_steps s s'"

interpretation semaphore_awake: inductive_invariant "\<lambda>s. s = counting_semaphore d" sem_steps sem_ok for d
  by unfold_locales (auto simp: counting_semaphore_def sem_ok_def elim!: sem_stepsE dest: sem_step_ok)

lemma run_sem_reaches:
  assumes "run_sem es s = Inr s'" and "reaches init sem_steps s"
  shows "reaches init sem_steps s'"
  using assms(1) unfolding run_sem_def
  by (rule efold_invariant) (use assms(2) in \<open>auto intro: reaches_step sem_steps.intros\<close>)

section \<open>Properties\<close>

text \<open>
  C40: The counter of the semaphore is exact, whatever the interleaving of acquisitions (also
  those with a deadline), releases and wake-ups: the initial value plus what was released,
  less one for every acquisition that has returned with success. If nothing negative is
  released it never becomes negative, so no more threads have acquired than there were
  permits. And no wake-up is lost: a thread sleeps in \<open>acquire\<close> with no notification under
  way only while there is no permit.
\<close>
theorem semaphore_correct:
  assumes "run_sem es (counting_semaphore desired) = Inr s"
  shows "counter s = desired + released es - int (acquired (acquirers s)) \<and>
    (0 \<le> desired \<and> (\<forall>n. Release n \<in> set es \<longrightarrow> 0 \<le> n) \<longrightarrow>
       0 \<le> counter s \<and> int (acquired (acquirers s)) \<le> desired + released es) \<and>
    (Acq_sleeping \<in> set (acquirers s) \<and> cv_notify_alls s = 0 \<longrightarrow> counter s \<le> 0)"
proof -
  have p: "permits s' = permits t + released es'" if "efold sem_step es' t = Inr s'" for es' t s'
    using that
  proof (induction es' arbitrary: t)
    case (Cons e es')
    then obtain u where "sem_step e t = Inr u" "efold sem_step es' u = Inr s'" by (auto simp: ebind_eq_Inr)
    with Cons.IH [of u] sem_step_permits [of e t u] show ?case by simp
  qed simp
  have c: "counter s = desired + released es - int (acquired (acquirers s))"
    using p [OF assms [unfolded run_sem_def]] by (simp add: permits_def counting_semaphore_def)
  have n: "0 \<le> counter s" if "0 \<le> desired" "\<forall>n. Release n \<in> set es \<longrightarrow> 0 \<le> n"
    using assms unfolding run_sem_def
  proof (rule efold_invariant [where P = "\<lambda>s. 0 \<le> counter s"])
    show "0 \<le> counter (counting_semaphore desired)" using that by (simp add: counting_semaphore_def)
    show "0 \<le> counter v" if "e \<in> set es" "0 \<le> counter u" "sem_step e u = Inr v" for e u v
      using sem_step_nonneg [OF that(3,2)] that(1) \<open>\<forall>n. Release n \<in> set es \<longrightarrow> 0 \<le> n\<close>
      by (cases e) auto
  qed
  have "reaches (\<lambda>s. s = counting_semaphore desired) sem_steps s"
    using assms by (rule run_sem_reaches) (simp add: reaches_init)
  then have "sem_ok s" by (rule semaphore_awake.inv_reaches)
  with c n show ?thesis by (simp add: sem_ok_def)
qed

theorem semaphore_correct_witness:
  "\<exists>s. run_sem [Acquire False, Acquire True, Release 1, Cv_notify_all, Acquire_wake 1] (counting_semaphore 1) = Inr s \<and>
     counter s = 0 \<and> acquirers s = [Acq_returned True, Acq_returned True]"
proof -
  let ?es = "[Acquire False, Acquire True, Release 1, Cv_notify_all, Acquire_wake 1]"
  let ?s = "\<lparr>counter = 0, acquirers = [Acq_returned True, Acq_returned True], deadlines = [False, True],
    cv_notify_alls = 0\<rparr>"
  have r: "run_sem ?es (counting_semaphore 1) = Inr ?s" by code_simp
  from semaphore_correct [OF r] have "counter ?s = 1 + released ?es - int (acquired (acquirers ?s))" by blast
  with r show ?thesis by auto
qed

text \<open>
  The maximum is not one: a \<open>binary_semaphore\<close> that is released twice lets two threads pass,
  although its \<open>max()\<close> is 1. At the largest value of the counter a release is undefined.
\<close>

theorem semaphore_exceeds_max:
  "\<exists>s. run_sem [Release 1, Acquire False, Acquire False] (counting_semaphore 1) = Inr s \<and>
     binary_max < int (acquired (acquirers s))"
  "release 1 (counting_semaphore ptrdiff_max) = Inl Signed_overflow"
proof -
  have "run_sem [Release 1, Acquire False, Acquire False] (counting_semaphore 1) =
      Inr \<lparr>counter = 0, acquirers = [Acq_returned True, Acq_returned True], deadlines = [False, False],
        cv_notify_alls = 1\<rparr>" by code_simp
  then show "\<exists>s. run_sem [Release 1, Acquire False, Acquire False] (counting_semaphore 1) = Inr s \<and>
     binary_max < int (acquired (acquirers s))"
    by (simp add: binary_max_def semaphore_max_def)
  show "release 1 (counting_semaphore ptrdiff_max) = Inl Signed_overflow"
    by (simp add: release_def add_counter_def counting_semaphore_def ptrdiff_max_def)
qed

end
