(* ===== verification/SyncedStream.thy ===== *)
theory SyncedStream
  imports Prelude "HOL-Library.Multiset"
begin

text \<open>
  \<open>BS::synced_stream\<close> of the thread pool library (src/src/BS_thread_pool.hpp): printing from
  several threads to a list of output streams. A stream is known by its address; what has
  been written to it is a string. \<open>print\<close> holds the mutex for all its items, so one call is
  one step and the interleaving of the threads is the order of the calls. \<open>add_stream\<close> and
  \<open>remove_stream\<close> do not take the mutex: running one beside a \<open>print\<close> is a data race, which the
  model does not describe.
\<close>

type_synonym stream = nat

record printer =
  out_streams :: "stream list"
  written :: "stream \<Rightarrow> string"

definition add_stream :: "stream \<Rightarrow> printer \<Rightarrow> printer" where
  "add_stream s p = p\<lparr>out_streams := out_streams p @ [s]\<rparr>"

definition synced_stream :: "stream list \<Rightarrow> (stream \<Rightarrow> string) \<Rightarrow> printer" where
  "synced_stream ss w = fold add_stream ss \<lparr>out_streams = [], written = w\<rparr>"

text \<open>\<open>std::remove\<close> and \<open>erase\<close>: every entry of the stream goes.\<close>

definition remove_stream :: "stream \<Rightarrow> printer \<Rightarrow> printer" where
  "remove_stream s p = p\<lparr>out_streams := removeAll s (out_streams p)\<rparr>"

text \<open>One stream after the other gets all the items.\<close>

definition write_item :: "stream \<Rightarrow> string \<Rightarrow> printer \<Rightarrow> printer" where
  "write_item s item p = p\<lparr>written := (written p)(s := written p s @ item)\<rparr>"

definition print :: "string list \<Rightarrow> printer \<Rightarrow> printer" where
  "print items p = fold (\<lambda>s. fold (write_item s) items) (out_streams p) p"

definition println :: "string list \<Rightarrow> printer \<Rightarrow> printer" where
  "println items = print (items @ [[CHR 0x0A]])"

section \<open>Steps\<close>

datatype print_event = Add_stream stream | Remove_stream stream | Print "string list" | Println "string list"

fun print_step :: "print_event \<Rightarrow> printer \<Rightarrow> printer" where
  "print_step (Add_stream s) p = add_stream s p"
| "print_step (Remove_stream s) p = remove_stream s p"
| "print_step (Print items) p = print items p"
| "print_step (Println items) p = println items p"

lemma write_items: "fold (write_item s) items p = p\<lparr>written := (written p)(s := written p s @ concat items)\<rparr>"
  by (induction items arbitrary: p) (simp_all add: write_item_def fun_upd_idem)

lemma print_written:
  "written (print items p) s = written p s @ concat (replicate (count_list (out_streams p) s) (concat items))"
  "out_streams (print items p) = out_streams p"
proof -
  have "written (fold (\<lambda>s. fold (write_item s) items) ss p) s =
      written p s @ concat (replicate (count_list ss s) (concat items)) \<and>
      out_streams (fold (\<lambda>s. fold (write_item s) items) ss p) = out_streams p" for ss p
    by (induction ss arbitrary: p) (simp_all add: write_items)
  then show "written (print items p) s = written p s @ concat (replicate (count_list (out_streams p) s) (concat items))"
    "out_streams (print items p) = out_streams p"
    by (simp_all add: print_def)
qed

section \<open>Messages stay whole\<close>

text \<open>
  The messages a stream gets in a run that starts with the streams \<open>ss\<close>: each printed one as a
  whole, once per entry of the stream in the list at that time.
\<close>

fun received :: "stream \<Rightarrow> stream list \<Rightarrow> print_event list \<Rightarrow> string list" where
  "received s ss [] = []"
| "received s ss (Add_stream t # es) = received s (ss @ [t]) es"
| "received s ss (Remove_stream t # es) = received s (removeAll t ss) es"
| "received s ss (Print items # es) = replicate (count_list ss s) (concat items) @ received s ss es"
| "received s ss (Println items # es) =
     replicate (count_list ss s) (concat items @ [CHR 0x0A]) @ received s ss es"

text \<open>
  Whatever the order of the calls of the threads, every stream contains whole messages in the
  order of the calls, and nothing from the time it was not in the list.
\<close>

lemma streams_receive:
  "written (fold print_step es p) s = written p s @ concat (received s (out_streams p) es)"
proof (induction es arbitrary: p)
  case (Cons e es)
  show ?case
  proof (cases e)
    case (Add_stream t)
    with Cons show ?thesis by (simp add: add_stream_def)
  next
    case (Remove_stream t)
    with Cons show ?thesis by (simp add: remove_stream_def)
  next
    case (Print items)
    with Cons show ?thesis by (simp add: print_written)
  next
    case (Println items)
    with Cons show ?thesis by (simp add: println_def print_written)
  qed
qed simp

lemma synced_stream_simps [simp]:
  "out_streams (synced_stream ss w) = ss" "written (synced_stream ss w) = w"
proof -
  have "out_streams (fold add_stream ss p) = out_streams p @ ss \<and> written (fold add_stream ss p) = written p" for p
    by (induction ss arbitrary: p) (simp_all add: add_stream_def)
  then show "out_streams (synced_stream ss w) = ss" "written (synced_stream ss w) = w"
    by (simp_all add: synced_stream_def)
qed

text \<open>After its removal a stream gets nothing.\<close>

lemma removed_gets_nothing:
  assumes "\<forall>e \<in> set es. \<forall>t. e = Add_stream t \<longrightarrow> t \<noteq> s"
  shows "written (fold print_step es (remove_stream s p)) s = written p s"
proof -
  have "received s ss es = []" if "s \<notin> set ss" for ss
    using that assms
  proof (induction s ss es rule: received.induct)
    case (3 s ss t es)
    then show ?case by (cases "t = s") simp_all
  qed simp_all
  then show ?thesis by (simp add: streams_receive remove_stream_def)
qed

end
