(* ===== verification/Native.thy ===== *)
theory Native
  imports Prelude "HOL-Library.Signed_Division"
begin

text \<open>
  The native extensions of the thread pool library (src/src/BS_thread_pool.hpp, under
  \<open>BS_THREAD_POOL_NATIVE_EXTENSIONS\<close>): portable levels for the priority of the process and of a
  thread, mapped to "nice" values and scheduling policies, on Linux and on macOS, and the
  processor affinity on Linux. The calls of the operating system are parameters, the records
  below; what the library relies on is \<open>sched_ok\<close> and \<open>affinity_ok\<close>. Windows and
  the names of threads are in theory Platforms.
\<close>

section \<open>The interface of the scheduler\<close>

datatype policy = SCHED_OTHER | SCHED_FIFO | SCHED_RR | SCHED_IDLE | Another_policy

text \<open>The subject of \<open>setpriority\<close> and \<open>getpriority\<close>.\<close>

datatype who = Process | Thread

definition PRIO_MIN :: int where "PRIO_MIN = - 20"
definition PRIO_MAX :: int where "PRIO_MAX = 20"

record 'k sched_api =
  setpriority :: "who \<Rightarrow> int \<Rightarrow> 'k \<Rightarrow> int \<times> 'k"
  getpriority :: "who \<Rightarrow> 'k \<Rightarrow> int"
  setschedparam :: "policy \<Rightarrow> int \<Rightarrow> 'k \<Rightarrow> int \<times> 'k"
  getschedparam :: "'k \<Rightarrow> int \<times> policy \<times> int"
  priority_min :: "policy \<Rightarrow> int"
  priority_max :: "policy \<Rightarrow> int"

text \<open>
  The documented behaviour: what has been set with success is what is got, as long as a nice
  value is in the range of the kernel, and each call leaves what the other sets.
\<close>

definition sched_ok :: "'k sched_api \<Rightarrow> bool" where
  "sched_ok api \<longleftrightarrow>
     (\<forall>w v k k'. setpriority api w v k = (0, k') \<longrightarrow> - 20 \<le> v \<longrightarrow> v \<le> 19 \<longrightarrow>
        getpriority api w k' = v \<and> getschedparam api k' = getschedparam api k) \<and>
     (\<forall>pol v k k'. setschedparam api pol v k = (0, k') \<longrightarrow> getschedparam api k' = (0, pol, v))"

section \<open>The priority of the process\<close>

datatype os_process_priority =
    Process_idle
  | Process_below_normal
  | Process_normal
  | Process_above_normal
  | Process_high
  | Process_realtime

text \<open>The values of the enumeration; division truncates towards zero.\<close>

fun process_value :: "os_process_priority \<Rightarrow> int" where
  "process_value Process_idle = PRIO_MAX - 2"
| "process_value Process_below_normal = PRIO_MAX sdiv 2"
| "process_value Process_normal = 0"
| "process_value Process_above_normal = PRIO_MIN sdiv 3"
| "process_value Process_high = (PRIO_MIN * 2) sdiv 3"
| "process_value Process_realtime = PRIO_MIN"

definition get_os_process_priority :: "'k sched_api \<Rightarrow> 'k \<Rightarrow> os_process_priority option" where
  "get_os_process_priority api k =
     (let nice_val = getpriority api Process k in
      if nice_val = process_value Process_idle then Some Process_idle
      else if nice_val = process_value Process_below_normal then Some Process_below_normal
      else if nice_val = process_value Process_normal then Some Process_normal
      else if nice_val = process_value Process_above_normal then Some Process_above_normal
      else if nice_val = process_value Process_high then Some Process_high
      else if nice_val = process_value Process_realtime then Some Process_realtime
      else None)"

definition set_os_process_priority :: "'k sched_api \<Rightarrow> os_process_priority \<Rightarrow> 'k \<Rightarrow> bool \<times> 'k" where
  "set_os_process_priority api p k =
     (case setpriority api Process (process_value p) k of (r, k') \<Rightarrow> (r = 0, k'))"

section \<open>The priority of a thread\<close>

datatype os_thread_priority =
    Thread_idle
  | Thread_lowest
  | Thread_below_normal
  | Thread_normal
  | Thread_above_normal
  | Thread_highest
  | Thread_realtime

definition middle :: "'k sched_api \<Rightarrow> policy \<Rightarrow> int" where
  "middle api pol = priority_min api pol + (priority_max api pol - priority_min api pol) sdiv 2"

subsection \<open>Linux\<close>

fun linux_params :: "'k sched_api \<Rightarrow> os_thread_priority \<Rightarrow> policy \<times> int \<times> int option" where
  "linux_params api Thread_realtime = (SCHED_FIFO, priority_max api SCHED_FIFO, None)"
| "linux_params api Thread_highest = (SCHED_RR, middle api SCHED_RR, None)"
| "linux_params api Thread_above_normal = (SCHED_OTHER, 0, Some (PRIO_MIN + 2))"
| "linux_params api Thread_normal = (SCHED_OTHER, 0, Some 0)"
| "linux_params api Thread_below_normal = (SCHED_OTHER, 0, Some (PRIO_MAX sdiv 2 + PRIO_MAX smod 2))"
| "linux_params api Thread_lowest = (SCHED_OTHER, 0, Some (PRIO_MAX - 3))"
| "linux_params api Thread_idle = (SCHED_IDLE, 0, None)"

definition linux_set_thread_priority :: "'k sched_api \<Rightarrow> os_thread_priority \<Rightarrow> 'k \<Rightarrow> bool \<times> 'k" where
  "linux_set_thread_priority api p k =
     (case linux_params api p of (pol, param, nice_val) \<Rightarrow>
      case setschedparam api pol param k of (r, k') \<Rightarrow>
        (case nice_val of
           None \<Rightarrow> (r = 0, k')
         | Some v \<Rightarrow>
             if r = 0 then (case setpriority api Thread v k' of (r', k'') \<Rightarrow> (r' = 0, k''))
             else (False, k')))"

definition linux_get_thread_priority :: "'k sched_api \<Rightarrow> 'k \<Rightarrow> os_thread_priority option" where
  "linux_get_thread_priority api k =
     (case getschedparam api k of (r, pol, param) \<Rightarrow>
        if r \<noteq> 0 then None
        else if pol = SCHED_FIFO \<and> param = priority_max api SCHED_FIFO then Some Thread_realtime
        else if pol = SCHED_RR \<and> param = middle api SCHED_RR then Some Thread_highest
        else if pol = SCHED_IDLE then Some Thread_idle
        else if pol = SCHED_OTHER then
          (let nice_val = getpriority api Thread k in
           if nice_val = PRIO_MIN + 2 then Some Thread_above_normal
           else if nice_val = 0 then Some Thread_normal
           else if nice_val = PRIO_MAX sdiv 2 + PRIO_MAX smod 2 then Some Thread_below_normal
           else if nice_val = PRIO_MAX - 3 then Some Thread_lowest
           else None)
        else None)"

subsection \<open>macOS\<close>

text \<open>A fraction of the range of the priorities of \<open>SCHED_OTHER\<close>, above its minimum.\<close>

definition other_fraction :: "'k sched_api \<Rightarrow> int \<Rightarrow> int \<Rightarrow> int" where
  "other_fraction api m d =
     priority_min api SCHED_OTHER +
       ((priority_max api SCHED_OTHER - priority_min api SCHED_OTHER) * m) sdiv d"

fun macos_params :: "'k sched_api \<Rightarrow> os_thread_priority \<Rightarrow> policy \<times> int" where
  "macos_params api Thread_realtime = (SCHED_FIFO, priority_max api SCHED_FIFO)"
| "macos_params api Thread_highest = (SCHED_RR, middle api SCHED_RR)"
| "macos_params api Thread_above_normal = (SCHED_OTHER, priority_max api SCHED_OTHER)"
| "macos_params api Thread_normal = (SCHED_OTHER, other_fraction api 1 2)"
| "macos_params api Thread_below_normal = (SCHED_OTHER, other_fraction api 2 3)"
| "macos_params api Thread_lowest = (SCHED_OTHER, other_fraction api 1 3)"
| "macos_params api Thread_idle = (SCHED_OTHER, priority_min api SCHED_OTHER)"

definition macos_set_thread_priority :: "'k sched_api \<Rightarrow> os_thread_priority \<Rightarrow> 'k \<Rightarrow> bool \<times> 'k" where
  "macos_set_thread_priority api p k =
     (case macos_params api p of (pol, param) \<Rightarrow>
      case setschedparam api pol param k of (r, k') \<Rightarrow> (r = 0, k'))"

definition macos_get_thread_priority :: "'k sched_api \<Rightarrow> 'k \<Rightarrow> os_thread_priority option" where
  "macos_get_thread_priority api k =
     (case getschedparam api k of (r, pol, param) \<Rightarrow>
        if r \<noteq> 0 then None
        else if pol = SCHED_FIFO \<and> param = priority_max api SCHED_FIFO then Some Thread_realtime
        else if pol = SCHED_RR \<and> param = middle api SCHED_RR then Some Thread_highest
        else if pol = SCHED_OTHER then
          (if param = priority_max api SCHED_OTHER then Some Thread_above_normal
           else if param = other_fraction api 1 2 then Some Thread_normal
           else if param = other_fraction api 2 3 then Some Thread_below_normal
           else if param = other_fraction api 1 3 then Some Thread_lowest
           else if param = priority_min api SCHED_OTHER then Some Thread_idle
           else None)
        else None)"

section \<open>Processor affinity on Linux\<close>

definition CPU_SETSIZE :: nat where "CPU_SETSIZE = 1024"

text \<open>A \<open>cpu_set_t\<close> as the set of its processors, and the macros on it.\<close>

definition CPU_SET :: "nat \<Rightarrow> nat set \<Rightarrow> nat set" where
  "CPU_SET i s = (if i < CPU_SETSIZE then insert i s else s)"

definition CPU_ISSET :: "nat \<Rightarrow> nat set \<Rightarrow> bool" where
  "CPU_ISSET i s \<longleftrightarrow> i < CPU_SETSIZE \<and> i \<in> s"

record 'k affinity_api =
  setaffinity :: "nat set \<Rightarrow> 'k \<Rightarrow> int \<times> 'k"
  getaffinity :: "'k \<Rightarrow> int \<times> nat set"
  nprocs :: "'k \<Rightarrow> int"

definition affinity_mask :: "bool list \<Rightarrow> nat set" where
  "affinity_mask affinity =
     fold (\<lambda>i s. if affinity ! i then CPU_SET i s else s) [0..<min (length affinity) CPU_SETSIZE] {}"

definition set_os_affinity :: "'k affinity_api \<Rightarrow> bool list \<Rightarrow> 'k \<Rightarrow> bool \<times> 'k" where
  "set_os_affinity api affinity k =
     (case setaffinity api (affinity_mask affinity) k of (r, k') \<Rightarrow> (r = 0, k'))"

definition get_os_affinity :: "'k affinity_api \<Rightarrow> 'k \<Rightarrow> bool list option" where
  "get_os_affinity api k =
     (case getaffinity api k of (r, cpu_set) \<Rightarrow>
        if r \<noteq> 0 then None
        else let num_cpus = nprocs api k
             in if num_cpus < 1 then None
                else Some (map (\<lambda>i. CPU_ISSET i cpu_set) [0..<nat num_cpus]))"

text \<open>The kernel keeps those of the requested processors that exist.\<close>

definition affinity_ok :: "'k affinity_api \<Rightarrow> ('k \<Rightarrow> nat set) \<Rightarrow> bool" where
  "affinity_ok api online \<longleftrightarrow> (\<forall>m k k'. setaffinity api m k = (0, k') \<longrightarrow>
     getaffinity api k' = (0, m \<inter> online k) \<and> online k' = online k \<and> nprocs api k' = nprocs api k)"

section \<open>Properties\<close>

lemma process_values:
  "process_value Process_idle = 18" "process_value Process_below_normal = 10"
  "process_value Process_normal = 0" "process_value Process_above_normal = - 6"
  "process_value Process_high = - 13" "process_value Process_realtime = - 20"
  by (simp_all add: PRIO_MIN_def PRIO_MAX_def signed_divide_int_def)

lemma nice_values:
  "PRIO_MIN + 2 = - 18" "PRIO_MAX sdiv 2 + PRIO_MAX smod 2 = 10" "PRIO_MAX - 3 = 17"
  by (simp_all add: PRIO_MIN_def PRIO_MAX_def signed_divide_int_def signed_modulo_int_def)

text \<open>
  A priority that has been set with success is the one that is got: for the process and
  for a thread on Linux, with every level; a failed attempt to set the level of a thread is
  reported even when the policy has been changed already.
\<close>
theorem priority_roundtrip:
  assumes "sched_ok api"
  shows "(set_os_process_priority api p k = (True, k1) \<longrightarrow> get_os_process_priority api k1 = Some p) \<and>
    (linux_set_thread_priority api q k = (True, k2) \<longrightarrow> linux_get_thread_priority api k2 = Some q)"
proof (intro conjI impI)
  assume "set_os_process_priority api p k = (True, k1)"
  then have "setpriority api Process (process_value p) k = (0, k1)"
    by (auto simp: set_os_process_priority_def split: prod.splits)
  moreover have "- 20 \<le> process_value p \<and> process_value p \<le> 19" by (cases p) (simp_all only: process_values, simp_all)
  ultimately have "getpriority api Process k1 = process_value p" using assms by (auto simp: sched_ok_def)
  then show "get_os_process_priority api k1 = Some p"
    by (cases p) (simp_all only: get_os_process_priority_def Let_def process_values, simp_all)
next
  assume s: "linux_set_thread_priority api q k = (True, k2)"
  obtain pol param nice_val where p: "linux_params api q = (pol, param, nice_val)" by (metis surj_pair)
  obtain r k' where set: "setschedparam api pol param k = (r, k')" by (metis surj_pair)
  have r: "r = 0" using s p set by (auto simp: linux_set_thread_priority_def split: option.splits if_splits)
  then have g: "getschedparam api k' = (0, pol, param)" using assms set by (auto simp: sched_ok_def)
  show "linux_get_thread_priority api k2 = Some q"
  proof (cases nice_val)
    case None
    then have "k2 = k'" using s p set by (simp add: linux_set_thread_priority_def)
    with g p None show ?thesis by (cases q) (auto simp: linux_get_thread_priority_def)
  next
    case (Some v)
    then have v: "setpriority api Thread v k' = (0, k2)"
      using s p set r by (auto simp: linux_set_thread_priority_def split: prod.splits)
    have "- 20 \<le> v \<and> v \<le> 19" using p Some by (cases q) (auto simp: nice_values)
    then have "getpriority api Thread k2 = v" "getschedparam api k2 = (0, pol, param)"
      using assms v g by (auto simp: sched_ok_def)
    with p Some show ?thesis
      by (cases q) (auto simp: linux_get_thread_priority_def nice_values Let_def)
  qed
qed

text \<open>A kernel that grants everything, as a triple of nice values and a policy.\<close>

definition granting :: "(int \<times> int \<times> policy \<times> int) sched_api" where
  "granting =
     \<lparr>setpriority = \<lambda>w v k. (case k of (p, t, s) \<Rightarrow> (0, case w of Process \<Rightarrow> (v, t, s) | Thread \<Rightarrow> (p, v, s))),
      getpriority = \<lambda>w k. (case k of (p, t, s) \<Rightarrow> case w of Process \<Rightarrow> p | Thread \<Rightarrow> t),
      setschedparam = \<lambda>pol v k. (case k of (p, t, s) \<Rightarrow> (0, p, t, pol, v)),
      getschedparam = \<lambda>k. (case k of (p, t, s) \<Rightarrow> (0, s)),
      priority_min = \<lambda>pol. (if pol = SCHED_OTHER then 15 else 1),
      priority_max = \<lambda>pol. (if pol = SCHED_OTHER then 47 else 99)\<rparr>"

lemma granting_ok: "sched_ok granting"
  by (auto simp: sched_ok_def granting_def split: who.splits)

theorem priority_roundtrip_witness:
  "linux_get_thread_priority granting (snd (linux_set_thread_priority granting Thread_lowest (0, 0, SCHED_OTHER, 0))) =
     Some Thread_lowest"
proof -
  have "linux_set_thread_priority granting Thread_lowest (0, 0, SCHED_OTHER, 0) = (True, (0, 17, SCHED_OTHER, 0))"
    by code_simp
  with priority_roundtrip [OF granting_ok, where q = Thread_lowest and k = "(0, 0, SCHED_OTHER, 0)"] show ?thesis by simp
qed

text \<open>
  On macOS the level "below normal" is above "normal": two thirds of the range against one
  half, whenever the range has at least six values (it has 33). All levels but these two are
  in order.
\<close>

theorem macos_below_normal_above_normal:
  assumes "5 \<le> priority_max api SCHED_OTHER - priority_min api SCHED_OTHER"
  shows "snd (macos_params api Thread_normal) < snd (macos_params api Thread_below_normal)"
    "snd (macos_params api Thread_idle) < snd (macos_params api Thread_lowest)"
    "snd (macos_params api Thread_lowest) < snd (macos_params api Thread_normal)"
    "snd (macos_params api Thread_below_normal) < snd (macos_params api Thread_above_normal)"
proof -
  define d where "d = priority_max api SCHED_OTHER - priority_min api SCHED_OTHER"
  have n: "0 \<le> x \<Longrightarrow> 0 < y \<Longrightarrow> x sdiv y = x div y" for x y :: int
    by (cases "x = 0") (simp_all add: signed_divide_int_def)
  have f: "other_fraction api m e = priority_min api SCHED_OTHER + (d * m) div e" if "0 \<le> m" "0 < e" for m e
    using that assms by (simp add: other_fraction_def d_def n)
  have d: "5 \<le> d" "priority_max api SCHED_OTHER = priority_min api SCHED_OTHER + d"
    using assms by (simp_all add: d_def)
  show "snd (macos_params api Thread_normal) < snd (macos_params api Thread_below_normal)"
    "snd (macos_params api Thread_idle) < snd (macos_params api Thread_lowest)"
    "snd (macos_params api Thread_lowest) < snd (macos_params api Thread_normal)"
    "snd (macos_params api Thread_below_normal) < snd (macos_params api Thread_above_normal)"
    using d by (simp_all add: f)
qed

text \<open>Setting an affinity and getting it back, for vectors as long as the processors are many.\<close>

lemma affinity_mask_set: "affinity_mask a = {i. i < length a \<and> i < CPU_SETSIZE \<and> a ! i}"
proof -
  have "fold (\<lambda>i s. if a ! i then CPU_SET i s else s) [0..<n] {} = {i. i < n \<and> a ! i}" if "n \<le> CPU_SETSIZE" for n
    using that by (induction n) (auto simp: CPU_SET_def less_Suc_eq)
  from this [of "min (length a) CPU_SETSIZE"] show ?thesis by (auto simp: affinity_mask_def)
qed

lemma affinity_roundtrip:
  assumes "affinity_ok api online" and "set_os_affinity api a k = (True, k')" and "1 \<le> nprocs api k"
  shows "get_os_affinity api k' =
    Some (map (\<lambda>i. i < length a \<and> i < CPU_SETSIZE \<and> a ! i \<and> i \<in> online k) [0..<nat (nprocs api k)])"
proof -
  have "setaffinity api (affinity_mask a) k = (0, k')"
    using assms(2) by (auto simp: set_os_affinity_def split: prod.splits)
  then have "getaffinity api k' = (0, affinity_mask a \<inter> online k)" "nprocs api k' = nprocs api k"
    using assms(1) by (auto simp: affinity_ok_def)
  with assms(3) show ?thesis by (auto simp: get_os_affinity_def CPU_ISSET_def affinity_mask_set)
qed

lemma affinity_roundtrip_exact:
  assumes "affinity_ok api online" and "set_os_affinity api a k = (True, k')"
    and "nprocs api k = int (length a)" and "a \<noteq> []" and "length a \<le> CPU_SETSIZE" and "{..<length a} \<subseteq> online k"
  shows "get_os_affinity api k' = Some a"
proof -
  have n: "1 \<le> nprocs api k" using assms(3,4) by (cases a) simp_all
  have "map (\<lambda>i. i < length a \<and> i < CPU_SETSIZE \<and> a ! i \<and> i \<in> online k) [0..<length a] = map (\<lambda>i. a ! i) [0..<length a]"
    using assms(5,6) by (intro map_cong) auto
  with affinity_roundtrip [OF assms(1,2) n] assms(3) show ?thesis by (simp add: map_nth)
qed

end
