(* ===== verification/Platforms.thy ===== *)
theory Platforms
  imports Native
begin

text \<open>
  The rest of the native extensions (src/src/BS_thread_pool.hpp): processor affinity on Windows,
  where it is a bit mask of 64 bits, and on macOS, where it does not exist; the priorities on
  Windows, which are those of the system; and the names of threads. The calls of the operating
  systems are parameters, as in theory Native.
\<close>

unbundle bit_operations_syntax

type_synonym dword_ptr = "64 word"

section \<open>Affinity on Windows\<close>

record 'k windows_api =
  GetProcessAffinityMask :: "'k \<Rightarrow> (dword_ptr \<times> dword_ptr) option"
  SetProcessAffinityMask :: "dword_ptr \<Rightarrow> 'k \<Rightarrow> bool \<times> 'k"
  SetThreadAffinityMask :: "dword_ptr \<Rightarrow> 'k \<Rightarrow> dword_ptr \<times> 'k"

text \<open>
  The documented behaviour: \<open>thread_mask\<close> is the affinity of the calling thread. A mask that is
  accepted is the one in force; \<open>SetThreadAffinityMask\<close> answers the previous mask of the
  thread, or 0 when it refuses, and accepts the mask of the process and any mask it has
  answered.
\<close>

definition windows_ok :: "'k windows_api \<Rightarrow> ('k \<Rightarrow> dword_ptr) \<Rightarrow> bool" where
  "windows_ok api thread_mask \<longleftrightarrow>
     (\<forall>m k k'. SetProcessAffinityMask api m k = (True, k') \<longrightarrow>
        GetProcessAffinityMask api k' = map_option (\<lambda>(p, s). (m, s)) (GetProcessAffinityMask api k)) \<and>
     (\<forall>m k k' r. SetThreadAffinityMask api m k = (r, k') \<longrightarrow> r \<noteq> 0 \<longrightarrow>
        r = thread_mask k \<and> thread_mask k' = m \<and> GetProcessAffinityMask api k' = GetProcessAffinityMask api k) \<and>
     (\<forall>m k k' r. SetThreadAffinityMask api m k = (r, k') \<longrightarrow> r \<noteq> 0 \<longrightarrow>
        fst (SetThreadAffinityMask api r k') \<noteq> 0) \<and>
     (\<forall>m k. fst (SetThreadAffinityMask api m k) = 0 \<longrightarrow> snd (SetThreadAffinityMask api m k) = k)"

text \<open>The number of processors: with \<open>std::bit_width\<close>, or with the loop over the mask.\<close>

function shift_loop :: "dword_ptr \<Rightarrow> size_t \<Rightarrow> size_t" where
  "shift_loop system_mask num_cpus =
     (let system_mask = drop_bit 1 system_mask
      in if system_mask \<noteq> 0 then shift_loop system_mask (num_cpus + 1) else num_cpus)"
  by pat_completeness auto

lemma drop_bit_less: "drop_bit 1 m \<noteq> 0 \<Longrightarrow> unat (drop_bit 1 m) < unat m" for m :: dword_ptr
proof -
  have "unat (drop_bit 1 m) = unat m div 2" by (simp add: drop_bit_eq_div unat_div)
  moreover assume "drop_bit 1 m \<noteq> 0"
  then have "m \<noteq> 0" by auto
  then have "0 < unat m" by (simp add: unat_gt_0)
  ultimately show ?thesis by simp
qed

termination shift_loop
  by (relation "measure (unat \<circ> fst)") (simp_all add: drop_bit_less [simplified])

declare shift_loop.simps [simp del]

definition num_cpus_of :: "dword_ptr \<Rightarrow> size_t" where
  "num_cpus_of system_mask = (if system_mask \<noteq> 0 then shift_loop system_mask 1 else 0)"

definition windows_affinity :: "dword_ptr \<Rightarrow> dword_ptr \<Rightarrow> bool list" where
  "windows_affinity m system_mask = map (\<lambda>i. m AND push_bit i 1 \<noteq> 0) [0..<unat (num_cpus_of system_mask)]"

definition windows_get_process_affinity :: "'k windows_api \<Rightarrow> 'k \<Rightarrow> bool list option" where
  "windows_get_process_affinity api k =
     (case GetProcessAffinityMask api k of
        None \<Rightarrow> None
      | Some (process_mask, system_mask) \<Rightarrow> Some (windows_affinity process_mask system_mask))"

definition windows_mask :: "bool list \<Rightarrow> dword_ptr" where
  "windows_mask affinity =
     fold (\<lambda>i m. m OR (if affinity ! i then push_bit i 1 else 0)) [0..<min (length affinity) (8 * 8)] 0"

definition windows_set_process_affinity :: "'k windows_api \<Rightarrow> bool list \<Rightarrow> 'k \<Rightarrow> bool \<times> 'k" where
  "windows_set_process_affinity api affinity k = SetProcessAffinityMask api (windows_mask affinity) k"

definition windows_set_thread_affinity :: "'k windows_api \<Rightarrow> bool list \<Rightarrow> 'k \<Rightarrow> bool \<times> 'k" where
  "windows_set_thread_affinity api affinity k =
     (case SetThreadAffinityMask api (windows_mask affinity) k of (r, k') \<Rightarrow> (r \<noteq> 0, k'))"

text \<open>The thread's mask is read by replacing it for a moment by that of the process.\<close>

definition windows_get_thread_affinity :: "'k windows_api \<Rightarrow> 'k \<Rightarrow> bool list option \<times> 'k" where
  "windows_get_thread_affinity api k =
     (case GetProcessAffinityMask api k of
        None \<Rightarrow> (None, k)
      | Some (process_mask, system_mask) \<Rightarrow>
          (case SetThreadAffinityMask api process_mask k of (previous_mask, k') \<Rightarrow>
             if previous_mask = 0 then (None, k')
             else (Some (windows_affinity previous_mask system_mask), snd (SetThreadAffinityMask api previous_mask k'))))"

section \<open>Affinity on macOS\<close>

text \<open>Not available; the parameter is looked at nevertheless, to silence a compiler warning.\<close>

definition macos_set_affinity :: "bool list \<Rightarrow> bool result" where
  "macos_set_affinity affinity = (if affinity = [] then Inl Out_of_bounds else Inr (affinity ! 0 \<and> False))"

definition macos_get_affinity :: "bool list option" where
  "macos_get_affinity = None"

section \<open>Priorities on Windows\<close>

text \<open>
  The enumerations have the values of the system's constants there, so a level is its value and
  the casts are the identity. \<open>THREAD_PRIORITY_ERROR_RETURN\<close> is the largest 32-bit integer.
\<close>

record 'k windows_priority_api =
  GetPriorityClass :: "'k \<Rightarrow> int"
  SetPriorityClass :: "int \<Rightarrow> 'k \<Rightarrow> bool \<times> 'k"
  GetThreadPriority :: "'k \<Rightarrow> int"
  SetThreadPriority :: "int \<Rightarrow> 'k \<Rightarrow> bool \<times> 'k"

definition windows_get_process_priority :: "'k windows_priority_api \<Rightarrow> 'k \<Rightarrow> int option" where
  "windows_get_process_priority api k = (let p = GetPriorityClass api k in if p = 0 then None else Some p)"

definition windows_set_process_priority :: "'k windows_priority_api \<Rightarrow> int \<Rightarrow> 'k \<Rightarrow> bool \<times> 'k" where
  "windows_set_process_priority api p k = SetPriorityClass api p k"

definition windows_get_thread_priority :: "'k windows_priority_api \<Rightarrow> 'k \<Rightarrow> int option" where
  "windows_get_thread_priority api k =
     (let p = GetThreadPriority api k in if p = 0x7FFFFFFF then None else Some p)"

definition windows_set_thread_priority :: "'k windows_priority_api \<Rightarrow> int \<Rightarrow> 'k \<Rightarrow> bool \<times> 'k" where
  "windows_set_thread_priority api p k = SetThreadPriority api p k"

section \<open>Names of threads\<close>

record 'k name_api =
  pthread_setname :: "string \<Rightarrow> 'k \<Rightarrow> int \<times> 'k"
  pthread_getname :: "nat \<Rightarrow> 'k \<Rightarrow> int \<times> string"

text \<open>
  A C string ends at its first zero. The buffer has 16 characters on Linux and 64 on macOS, the
  terminator included, and is zeroed.
\<close>

definition c_str :: "string \<Rightarrow> string" where
  "c_str s = takeWhile (\<lambda>c. c \<noteq> CHR 0x00) s"

definition set_os_thread_name :: "'k name_api \<Rightarrow> string \<Rightarrow> 'k \<Rightarrow> bool \<times> 'k" where
  "set_os_thread_name api name k = (case pthread_setname api (c_str name) k of (r, k') \<Rightarrow> (r = 0, k'))"

definition get_os_thread_name :: "'k name_api \<Rightarrow> nat \<Rightarrow> 'k \<Rightarrow> string option" where
  "get_os_thread_name api buffer_size k =
     (case pthread_getname api buffer_size k of (r, written) \<Rightarrow>
        if r \<noteq> 0 then None
        else Some (c_str (written @ replicate (buffer_size - length written) (CHR 0x00))))"

text \<open>
  The documented behaviour: a name that fits the limit with its terminator is accepted and is
  the one that is read, a longer one is refused and changes nothing.
\<close>

definition names_ok :: "'k name_api \<Rightarrow> nat \<Rightarrow> bool" where
  "names_ok api limit \<longleftrightarrow> (\<forall>s k r k'. pthread_setname api s k = (r, k') \<longrightarrow>
     (if length s < limit then r = 0 \<and> pthread_getname api limit k' = (0, s) else r \<noteq> 0 \<and> k' = k))"

subsection \<open>Windows\<close>

text \<open>
  Names are wide strings there. The conversions are called twice, first with no buffer to learn
  the size, terminator included; 0 is an error. \<open>GetThreadDescription\<close> answers a string that
  the caller frees, or a null pointer.
\<close>

type_synonym wchar = "16 word"

record 'k wide_api =
  MultiByteToWideChar :: "string \<Rightarrow> nat \<Rightarrow> nat \<times> wchar list"
  WideCharToMultiByte :: "wchar list \<Rightarrow> nat \<Rightarrow> nat \<times> string"
  SetThreadDescription :: "wchar list \<Rightarrow> 'k \<Rightarrow> int \<times> 'k"
  GetThreadDescription :: "'k \<Rightarrow> int \<times> wchar list option"

definition wide_str :: "wchar list \<Rightarrow> wchar list" where
  "wide_str w = takeWhile (\<lambda>c. c \<noteq> 0) w"

definition windows_set_thread_name :: "'k wide_api \<Rightarrow> string \<Rightarrow> 'k \<Rightarrow> bool \<times> 'k" where
  "windows_set_thread_name api name k =
     (let size = fst (MultiByteToWideChar api (c_str name) 0) in
      if size = 0 then (False, k)
      else
        (case MultiByteToWideChar api (c_str name) size of (r, written) \<Rightarrow>
           let wide = written @ drop (length written) (replicate size 0)
           in if r = 0 then (False, k)
              else (case SetThreadDescription api (wide_str wide) k of (hr, k') \<Rightarrow> (0 \<le> hr, k'))))"

text \<open>
  The name, and whether \<open>LocalFree\<close> has been called. The string has one character less than
  the conversion writes: the last one, the terminator, falls on the string's own.
\<close>

definition windows_get_thread_name :: "'k wide_api \<Rightarrow> 'k \<Rightarrow> string option \<times> bool" where
  "windows_get_thread_name api k =
     (case GetThreadDescription api k of (hr, data) \<Rightarrow>
        if hr < 0 then (None, False)
        else (case data of
            None \<Rightarrow> (None, False)
          | Some data \<Rightarrow>
              (let size = fst (WideCharToMultiByte api data 0) in
               if size = 0 then (None, True)
               else
                 (case WideCharToMultiByte api data size of (result, written) \<Rightarrow>
                    let name = take (size - 1) (written @ drop (length written) (replicate (size - 1) (CHR 0x00)))
                    in if result = 0 then (None, True) else (Some name, True)))))"

text \<open>
  The documented behaviour: \<open>wide\<close> gives the UTF-16 form of a string, if it has one; the
  conversions translate it in both directions, and a description that is accepted is the one
  that is answered.
\<close>

definition wide_ok :: "'k wide_api \<Rightarrow> (string \<Rightarrow> wchar list option) \<Rightarrow> bool" where
  "wide_ok api wide \<longleftrightarrow>
     (\<forall>s w. CHR 0x00 \<notin> set s \<longrightarrow> wide s = Some w \<longrightarrow> 0 \<notin> set w \<and>
        fst (MultiByteToWideChar api s 0) = Suc (length w) \<and>
        MultiByteToWideChar api s (Suc (length w)) = (Suc (length w), w @ [0]) \<and>
        fst (WideCharToMultiByte api w 0) = Suc (length s) \<and>
        WideCharToMultiByte api w (Suc (length s)) = (Suc (length s), s @ [CHR 0x00])) \<and>
     (\<forall>s. CHR 0x00 \<notin> set s \<longrightarrow> wide s = None \<longrightarrow> fst (MultiByteToWideChar api s 0) = 0) \<and>
     (\<forall>w k k' hr. SetThreadDescription api w k = (hr, k') \<longrightarrow> 0 \<le> hr \<longrightarrow>
        GetThreadDescription api k' = (0, Some w))"

section \<open>Masks\<close>

lemma bit_windows_mask: "bit (windows_mask a) i \<longleftrightarrow> i < length a \<and> i < 64 \<and> a ! i"
proof -
  have "bit (fold (\<lambda>i m. m OR (if a ! i then push_bit i 1 else 0)) [0..<n] (0 :: dword_ptr)) i \<longleftrightarrow> i < n \<and> a ! i"
    if "n \<le> 64" for n
    using that by (induction n) (auto simp: bit_or_iff bit_push_bit_iff less_Suc_eq bit_exp_iff)
  from this [of "min (length a) 64"] show ?thesis by (auto simp: windows_mask_def)
qed

lemma windows_affinity_bits: "windows_affinity m s = map (bit m) [0..<unat (num_cpus_of s)]"
  by (simp add: windows_affinity_def bit_iff_and_push_bit_not_eq_0)

text \<open>The loop computes \<open>std::bit_width\<close>: the mask fits the number of bits, and not one fewer.\<close>

lemma shift_loop_width:
  "m \<noteq> 0 \<Longrightarrow> \<exists>w. shift_loop m n = n + of_nat w \<and> 2 ^ w \<le> unat m \<and> unat m < 2 ^ Suc w"
proof (induction m n rule: shift_loop.induct)
  case (1 m n)
  have d: "unat (drop_bit 1 m) = unat m div 2" by (simp add: drop_bit_eq_div unat_div)
  have p: "0 < unat m" using 1(2) by (simp add: unat_gt_0)
  show ?case
  proof (cases "drop_bit 1 m = 0")
    case True
    then have "unat m div 2 = 0" using d by simp
    with p True show ?thesis by (intro exI [of _ 0]) (auto simp: shift_loop.simps [of m])
  next
    case False
    with 1(1) obtain w where "shift_loop (drop_bit 1 m) (n + 1) = n + 1 + of_nat w"
      "2 ^ w \<le> unat m div 2" "unat m div 2 < 2 ^ Suc w"
      unfolding d by (metis d)
    with False show ?thesis by (intro exI [of _ "Suc w"]) (auto simp: shift_loop.simps [of m] Let_def)
  qed
qed

theorem num_cpus_bit_width:
  "unat m < 2 ^ unat (num_cpus_of m) \<and> (m \<noteq> 0 \<longrightarrow> 2 ^ (unat (num_cpus_of m) - 1) \<le> unat m)"
proof (cases "m = 0")
  case False
  then obtain w where w: "shift_loop m 1 = 1 + of_nat w" "2 ^ w \<le> unat m" "unat m < 2 ^ Suc w"
    using shift_loop_width by blast
  have "unat m < 2 ^ 64" using unsigned_less [of m, where 'a = nat] by simp
  with w(2) have "(2 :: nat) ^ w < 2 ^ 64" by linarith
  then have "w < 64" by (rule power_less_imp_less_exp [rotated]) simp
  then have "unat (of_nat (Suc w) :: size_t) = Suc w" by (intro unat_of_size) simp
  with w False show ?thesis by (simp add: num_cpus_of_def)
qed (simp add: num_cpus_of_def)

section \<open>Properties\<close>

text \<open>
  On Windows an affinity that has been set with success is the one that is got, processor by
  processor, for the process and for a thread, whatever the length of the vector (missing
  entries count as false, entries beyond the 64 bits of the mask are ignored); and asking for
  the affinity of a thread leaves it as it was, although it is changed on the way.
\<close>
theorem windows_affinity_roundtrip:
  assumes "windows_ok api thread_mask" and "GetProcessAffinityMask api k = Some (p, s)"
  defines "seen \<equiv> \<lambda>a. map (\<lambda>i. i < length a \<and> i < 64 \<and> a ! i) [0..<unat (num_cpus_of s)]"
  shows "(windows_set_process_affinity api a k = (True, k1) \<longrightarrow> windows_get_process_affinity api k1 = Some (seen a)) \<and>
    (\<forall>r k2. windows_set_thread_affinity api a k = (True, k1) \<longrightarrow> windows_get_thread_affinity api k1 = (Some r, k2) \<longrightarrow>
       r = seen a) \<and>
    (\<forall>r k2. windows_get_thread_affinity api k = (r, k2) \<longrightarrow> thread_mask k2 = thread_mask k)"
proof (intro conjI impI allI)
  have m: "windows_affinity (windows_mask a) s = seen a"
    by (simp add: windows_affinity_bits bit_windows_mask seen_def)
  show "windows_get_process_affinity api k1 = Some (seen a)" if "windows_set_process_affinity api a k = (True, k1)"
  proof -
    have "GetProcessAffinityMask api k1 = Some (windows_mask a, s)"
      using that assms(1,2) by (simp add: windows_set_process_affinity_def windows_ok_def)
    with m show ?thesis by (simp add: windows_get_process_affinity_def)
  qed
  have set_thread: "r = thread_mask k \<and> thread_mask k' = m \<and> GetProcessAffinityMask api k' = GetProcessAffinityMask api k \<and>
      fst (SetThreadAffinityMask api r k') \<noteq> 0"
    if "SetThreadAffinityMask api m k = (r, k')" "r \<noteq> 0" for m k r k'
    using assms(1) that unfolding windows_ok_def by blast
  show "r = seen a" if "windows_set_thread_affinity api a k = (True, k1)"
    "windows_get_thread_affinity api k1 = (Some r, k2)" for r k2
  proof -
    obtain q k' where q: "SetThreadAffinityMask api (windows_mask a) k = (q, k')" by fastforce
    with that(1) have "q \<noteq> 0" "k' = k1" by (simp_all add: windows_set_thread_affinity_def)
    with set_thread [OF q] assms(2) have t: "thread_mask k1 = windows_mask a" "GetProcessAffinityMask api k1 = Some (p, s)"
      by simp_all
    obtain q' k' where g: "SetThreadAffinityMask api p k1 = (q', k')" by fastforce
    with that(2) t(2) have "q' \<noteq> 0" "r = windows_affinity q' s"
      by (auto simp: windows_get_thread_affinity_def split: if_splits)
    with set_thread [OF g] t(1) m show ?thesis by simp
  qed
  show "thread_mask k2 = thread_mask k" if g: "windows_get_thread_affinity api k = (r, k2)" for r k2
  proof -
    obtain q k' where q: "SetThreadAffinityMask api p k = (q, k')" by fastforce
    show ?thesis
    proof (cases "q = 0")
      case True
      with q assms(1) have "k' = k" unfolding windows_ok_def by (metis fst_conv snd_conv)
      with True q g assms(2) show ?thesis by (simp add: windows_get_thread_affinity_def)
    next
      case False
      note s = set_thread [OF q False]
      obtain q' k'' where q': "SetThreadAffinityMask api q k' = (q', k'')" by fastforce
      with s have "q' \<noteq> 0" by simp
      from set_thread [OF q' this] s have "thread_mask k'' = thread_mask k" by simp
      with False q q' g assms(2) show ?thesis by (simp add: windows_get_thread_affinity_def)
    qed
  qed
qed

text \<open>A system that accepts every mask but 0, with eight processors.\<close>

definition willing :: "(dword_ptr \<times> dword_ptr) windows_api" where
  "willing =
     \<lparr>GetProcessAffinityMask = \<lambda>k. Some (fst k, 255),
      SetProcessAffinityMask = \<lambda>m k. if m = 0 then (False, k) else (True, m, snd k),
      SetThreadAffinityMask = \<lambda>m k. if m = 0 \<or> snd k = 0 then (0, k) else (snd k, fst k, m)\<rparr>"

lemma willing_ok: "windows_ok willing snd"
  by (auto simp: windows_ok_def willing_def split: if_splits)

theorem windows_affinity_roundtrip_witness:
  "windows_get_process_affinity willing (snd (windows_set_process_affinity willing [True, False, True] (255, 255))) =
     Some [True, False, True, False, False, False, False, False]"
proof -
  have s: "windows_set_process_affinity willing [True, False, True] (255, 255) = (True, (5, 255))"
    "GetProcessAffinityMask willing (255, 255) = Some (255, 255)" "unat (num_cpus_of 255) = 8"
    by code_simp+
  from windows_affinity_roundtrip [OF willing_ok s(2), of "[True, False, True]" "(5, 255)"] s(1,3) show ?thesis
    by (simp add: upt_rec)
qed

text \<open>
  Names of threads: those with fewer characters than the limit and no zero are read as they
  were set; a longer one is refused; one with a zero is cut there.
\<close>

theorem thread_name_roundtrip:
  assumes "names_ok api limit" and "set_os_thread_name api name k = (success, k')"
  shows "success = (length (c_str name) < limit)"
    "success \<Longrightarrow> get_os_thread_name api limit k' = Some (c_str name)"
    "\<not> success \<Longrightarrow> k' = k"
    "CHR 0x00 \<notin> set name \<Longrightarrow> c_str name = name"
proof -
  obtain r where s: "pthread_setname api (c_str name) k = (r, k')"
    using assms(2) by (auto simp: set_os_thread_name_def split: prod.splits)
  then have ok: "success = (r = 0)" using assms(2) by (simp add: set_os_thread_name_def)
  have n: "if length (c_str name) < limit then r = 0 \<and> pthread_getname api limit k' = (0, c_str name) else r \<noteq> 0 \<and> k' = k"
    using assms(1) s unfolding names_ok_def by blast
  show "success = (length (c_str name) < limit)" "\<not> success \<Longrightarrow> k' = k" using ok n by (auto split: if_splits)
  have z: "CHR 0x00 \<notin> set (c_str name)" by (auto simp: c_str_def dest: set_takeWhileD)
  show "get_os_thread_name api limit k' = Some (c_str name)" if "success"
  proof -
    have l: "length (c_str name) < limit" "pthread_getname api limit k' = (0, c_str name)"
      using that ok n by (auto split: if_splits)
    then obtain m where "limit - length (c_str name) = Suc m" by (metis Suc_diff_Suc)
    moreover have "c_str (c_str name @ CHR 0x00 # r) = c_str name" for r
    proof -
      have "\<forall>c \<in> set (c_str name). c \<noteq> CHR 0x00" using z by blast
      then have "takeWhile (\<lambda>c. c \<noteq> CHR 0x00) (c_str name @ CHR 0x00 # r) = c_str name"
        by (subst takeWhile_append2) auto
      then show ?thesis unfolding c_str_def [of "c_str name @ CHR 0x00 # r"] .
    qed
    ultimately show ?thesis using l(2) by (simp add: get_os_thread_name_def)
  qed
  show "c_str name = name" if "CHR 0x00 \<notin> set name"
    using that unfolding c_str_def by (auto simp: takeWhile_eq_all_conv)
qed

lemma c_str_no_zero: "CHR 0x00 \<notin> set (c_str s)"
  by (auto simp: c_str_def dest: set_takeWhileD)

text \<open>
  Names of threads on Windows: a name that is set with success is the one that is got, cut at
  its first zero; one that has no UTF-16 form is refused and changes nothing; and the string
  that the system allocates is freed whenever there is one.
\<close>

theorem windows_name_roundtrip:
  assumes "wide_ok api wide" and "windows_set_thread_name api name k = (success, k')"
  shows "success \<Longrightarrow> windows_get_thread_name api k' = (Some (c_str name), True)"
    "wide (c_str name) = None \<Longrightarrow> \<not> success \<and> k' = k"
    "GetThreadDescription api k'' = (hr, data) \<Longrightarrow> 0 \<le> hr \<Longrightarrow> snd (windows_get_thread_name api k'') = (data \<noteq> None)"
proof -
  have refused: "\<not> success \<and> k' = k" if "wide (c_str name) = None"
    using that assms c_str_no_zero [of name] by (simp add: wide_ok_def windows_set_thread_name_def)
  then show "wide (c_str name) = None \<Longrightarrow> \<not> success \<and> k' = k" .
  show "windows_get_thread_name api k' = (Some (c_str name), True)" if ok: "success"
  proof -
    obtain w where w: "wide (c_str name) = Some w" using ok refused by (cases "wide (c_str name)") auto
    let ?s = "c_str name"
    from w assms(1) c_str_no_zero [of name] have c: "0 \<notin> set w"
      "fst (MultiByteToWideChar api ?s 0) = Suc (length w)"
      "MultiByteToWideChar api ?s (Suc (length w)) = (Suc (length w), w @ [0])"
      "fst (WideCharToMultiByte api w 0) = Suc (length ?s)"
      "WideCharToMultiByte api w (Suc (length ?s)) = (Suc (length ?s), ?s @ [CHR 0x00])"
      by (simp_all add: wide_ok_def)
    have "\<forall>c \<in> set w. c \<noteq> 0" using c(1) by blast
    then have "wide_str (w @ [0]) = w" by (simp add: wide_str_def)
    then obtain hr where "SetThreadDescription api w k = (hr, k')" "0 \<le> hr"
      using assms(2) ok c by (auto simp: windows_set_thread_name_def Let_def split: prod.splits)
    then have "GetThreadDescription api k' = (0, Some w)" using assms(1) by (simp add: wide_ok_def)
    then show ?thesis using c by (simp add: windows_get_thread_name_def)
  qed
  show "snd (windows_get_thread_name api k'') = (data \<noteq> None)"
    if "GetThreadDescription api k'' = (hr, data)" "0 \<le> hr"
    using that by (auto simp: windows_get_thread_name_def Let_def split: option.split prod.split)
qed

text \<open>On macOS an empty vector is read beyond its end.\<close>

theorem macos_affinity_empty:
  "macos_set_affinity [] = Inl Out_of_bounds" "a \<noteq> [] \<Longrightarrow> macos_set_affinity a = Inr False"
  by (simp_all add: macos_set_affinity_def)

end
