(* ===== verification/Server.thy ===== *)
theory Server
  imports Config Packets Pool
begin

text \<open>
  Start-up (src/src/main.cpp, src/src/server.cpp): the command line, the configuration, the
  static objects and \<open>start_wisp_server\<close>. CLI11 and uWebSockets are outside: the result of
  parsing the command line and the answer of the kernel to \<open>listen\<close> are arguments. What
  happens once the server listens is theory World.
\<close>

section \<open>Static objects\<close>

text \<open>
  \<open>const size_t THREAD_COUNT = std::thread::hardware_concurrency() - 2\<close>: the subtraction is
  one of \<open>unsigned int\<close>. The pool is constructed from it during static initialisation.
\<close>

definition THREAD_COUNT :: "u32 \<Rightarrow> size_t" where
  "THREAD_COUNT hardware_concurrency = ucast (hardware_concurrency - 2)"

definition server_pool :: "u32 \<Rightarrow> 'a pool" where
  "server_pool hardware_concurrency =
     thread_pool tp_none hardware_concurrency (THREAD_COUNT hardware_concurrency)"

definition MAX_BACKPRESSURE :: u32 where "MAX_BACKPRESSURE = 1024 * 1024 * 1024"

section \<open>start_wisp_server\<close>

text \<open>The options given to uWebSockets.\<close>

record websocket_options =
  compression :: bool
  maxPayloadLength :: u32
  idleTimeout :: u16
  maxBackpressure :: u32
  closeOnBackpressureLimit :: bool
  resetIdleTimeoutOnSend :: bool
  sendPingsAutomatically :: bool

definition server_options :: websocket_options where
  "server_options =
     \<lparr>compression = False, maxPayloadLength = 100 * 1024 * 1024, idleTimeout = 16,
      maxBackpressure = MAX_BACKPRESSURE, closeOnBackpressureLimit = False,
      resetIdleTimeoutOnSend = False, sendPingsAutomatically = True\<rparr>"

datatype outcome =
    Exited int "string option"
  | Not_started
  | Serving u32 websocket_options
  | Bind_failed u32

definition start_wisp_server :: "(u32 \<Rightarrow> bool) \<Rightarrow> config \<Rightarrow> outcome" where
  "start_wisp_server listens global_conf =
     (case port_number (get_conf global_conf) of
        None \<Rightarrow> Not_started
      | Some port \<Rightarrow> if listens port then Serving port server_options else Bind_failed port)"

text \<open>
  The interrupt flag and the handler that the event loop runs after each iteration: whether
  it closes the application, and the flag afterwards.
\<close>

definition int_handler :: "bool \<Rightarrow> bool" where
  "int_handler interupted = True"

definition post_handler :: "bool \<Rightarrow> bool \<times> bool" where
  "post_handler interupted = (if interupted then (True, False) else (False, interupted))"

section \<open>main\<close>

text \<open>
  \<open>cli\<close> is what \<open>CLI11_PARSE\<close> leaves: an exit code (of \<open>--help\<close> or of a mistake), or the
  port and the file name. The outer option is the termination of \<open>read_config\<close>.
\<close>

definition main ::
  "u32 \<Rightarrow> int + int \<times> string \<Rightarrow> ('doc, 'el, 'at) tinyxml \<Rightarrow> (u32 \<Rightarrow> bool) \<Rightarrow> outcome result option" where
  "main hardware_concurrency cli xml listens =
     (case cli of
        Inl code \<Rightarrow> Some (Inr (Exited code None))
      | Inr (num_port, filename) \<Rightarrow>
          if hardware_concurrency < 3
          then Some (Inr (Exited (- 1) (Some ''Program requires at least 3 threads'')))
          else if filename \<noteq> [] then
            (case read_config xml filename of
               None \<Rightarrow> None
             | Some (Inl e) \<Rightarrow> Some (Inr (Exited (- 1) (Some e)))
             | Some (Inr c) \<Rightarrow>
                 Some (ebind (set_conf WoefulConfig c) (\<lambda>g. Inr (start_wisp_server listens g))))
          else Some (ebind (set_conf WoefulConfig
                 (WoefulConfig\<lparr>pcap_capture := False, port_number := Some (word_of_int num_port)\<rparr>))
                 (\<lambda>g. Inr (start_wisp_server listens g))))"

lemma main_config:
  assumes "3 \<le> hc" and "filename \<noteq> []" and "read_config xml filename = Some (Inr c)" and "config_ok c"
  shows "main hc (Inr (num_port, filename)) xml listens = Some (Inr (start_wisp_server listens c))"
proof -
  have "\<not> hc < 3" using assms(1) by (rule leD)
  with assms(2-4) show ?thesis by (simp add: main_def set_conf_ok)
qed

lemma main_port:
  assumes "3 \<le> hc"
  shows "main hc (Inr (num_port, [])) xml listens = Some (Inr
    (if listens (word_of_int num_port) then Serving (word_of_int num_port) server_options
     else Bind_failed (word_of_int num_port)))"
proof -
  have "\<not> hc < 3" using assms by (rule leD)
  moreover have "config_ok (WoefulConfig\<lparr>pcap_capture := False, port_number := Some (word_of_int num_port)\<rparr>)"
    by (simp add: config_ok_def WoefulConfig_def)
  ultimately show ?thesis
    by (simp add: main_def set_conf_ok start_wisp_server_def get_conf_def)
qed

section \<open>Properties\<close>



text \<open>
  The size of the pool, which is fixed before \<open>main\<close> checks the number of hardware threads:
  two less than the machine has when it has at least three, but all of them when it has two,
  and more than four thousand million when it has one or reports none, since the
  subtraction wraps.
\<close>
theorem thread_count_wraps:
  "length (threads (server_pool hc)) =
     (if 3 \<le> hc then unat hc - 2 else if hc = 2 then 2 else 4294967294 + unat hc)"
proof -
  have u: "unat (ucast (hc - 2) :: size_t) = unat (hc - 2)"
  proof -
    have "uint (ucast (hc - 2) :: size_t) = uint (hc - 2)" by (simp add: uint_up_ucast is_up)
    then show ?thesis by (metis unat_eq_nat_uint)
  qed
  have len: "length (threads (server_pool hc)) = unat (determine_thread_count hc (THREAD_COUNT hc))"
    by (simp add: server_pool_def thread_pool_def create_threads_def Let_def)
  consider "3 \<le> hc" | "hc = 2" | "hc = 1" | "hc = 0"
  proof -
    have "hc < 3 \<Longrightarrow> unat hc < 3" by (simp add: word_less_nat_alt)
    then have "hc < 3 \<Longrightarrow> unat hc = 0 \<or> unat hc = 1 \<or> unat hc = 2" by linarith
    moreover have "hc = of_nat n" if "unat hc = n" for n using that by auto
    from this [of 0] this [of 1] this [of 2]
    have "unat hc = 0 \<Longrightarrow> hc = 0" "unat hc = 1 \<Longrightarrow> hc = 1" "unat hc = 2 \<Longrightarrow> hc = 2" by simp_all
    ultimately have "hc < 3 \<Longrightarrow> hc = 0 \<or> hc = 1 \<or> hc = 2" by blast
    then show ?thesis using that not_le_imp_less [of 3 hc] by blast
  qed
  then show ?thesis
  proof cases
    case 1
    then have d: "unat (hc - 2) = unat hc - 2" and "2 < unat hc"
      by (simp_all add: unat_sub word_le_nat_alt)
    then have "0 < THREAD_COUNT hc" using u by (simp add: THREAD_COUNT_def word_less_nat_alt)
    then show ?thesis using 1 u d unfolding len determine_thread_count_def by (simp add: THREAD_COUNT_def)
  next
    case 2
    have "determine_thread_count 2 (THREAD_COUNT 2) = 2" by code_simp
    with 2 len show ?thesis by simp
  next
    case 3
    have "determine_thread_count 1 (THREAD_COUNT 1) = 4294967295" by code_simp
    moreover have "\<not> 3 \<le> (1 :: u32)" by code_simp
    ultimately show ?thesis using 3 len by simp
  next
    case 4
    have "determine_thread_count 0 (THREAD_COUNT 0) = 4294967294" by code_simp
    with 4 len show ?thesis by simp
  qed
qed

end
