(* ===== verification/Version.thy ===== *)
theory Version
  imports Network "HOL-Library.Char_ord"
begin

text \<open>
  The version record of the thread pool library (src/src/BS_thread_pool.hpp, \<open>BS::version\<close>):
  three 64-bit numbers, compared as a tuple, and their printed form. The defaulted
  \<open>operator<=>\<close> of C++20 gives the same order as the written-out operators of C++17; both
  are the instance of \<open>linorder\<close> below.
\<close>

type_synonym u64 = "64 word"

datatype version = Version (major: u64) (minor: u64) (patch: u64)

instantiation version :: linorder
begin

definition less_version :: "version \<Rightarrow> version \<Rightarrow> bool" where
  "less_version lhs rhs \<longleftrightarrow>
     major lhs < major rhs \<or> major lhs = major rhs \<and>
       (minor lhs < minor rhs \<or> minor lhs = minor rhs \<and> patch lhs < patch rhs)"

definition less_eq_version :: "version \<Rightarrow> version \<Rightarrow> bool" where
  "less_eq_version lhs rhs \<longleftrightarrow> \<not> (rhs < lhs)"

instance
proof
  fix x y z :: version
  show "x < y \<longleftrightarrow> x \<le> y \<and> \<not> y \<le> x" by (auto simp: less_eq_version_def less_version_def)
  show "x \<le> x" by (simp add: less_eq_version_def less_version_def)
  show "x \<le> y \<Longrightarrow> y \<le> z \<Longrightarrow> x \<le> z"
    by (auto simp: less_eq_version_def less_version_def)
  show "x \<le> y \<Longrightarrow> y \<le> x \<Longrightarrow> x = y"
    by (cases x; cases y) (auto simp: less_eq_version_def less_version_def)
  show "x \<le> y \<or> y \<le> x" by (auto simp: less_eq_version_def less_version_def)
qed

end

text \<open>The operators that the code writes out for C++17, each in terms of the ones before.\<close>

definition version_eq :: "version \<Rightarrow> version \<Rightarrow> bool" where
  "version_eq lhs rhs \<longleftrightarrow> (major lhs, minor lhs, patch lhs) = (major rhs, minor rhs, patch rhs)"

definition version_ne :: "version \<Rightarrow> version \<Rightarrow> bool" where
  "version_ne lhs rhs \<longleftrightarrow> \<not> version_eq lhs rhs"

definition version_lt :: "version \<Rightarrow> version \<Rightarrow> bool" where
  "version_lt lhs rhs \<longleftrightarrow>
     major lhs < major rhs \<or> major lhs = major rhs \<and>
       (minor lhs < minor rhs \<or> minor lhs = minor rhs \<and> patch lhs < patch rhs)"

definition version_ge :: "version \<Rightarrow> version \<Rightarrow> bool" where
  "version_ge lhs rhs \<longleftrightarrow> \<not> version_lt lhs rhs"

definition version_gt :: "version \<Rightarrow> version \<Rightarrow> bool" where
  "version_gt lhs rhs \<longleftrightarrow> version_lt rhs lhs"

definition version_le :: "version \<Rightarrow> version \<Rightarrow> bool" where
  "version_le lhs rhs \<longleftrightarrow> \<not> version_gt lhs rhs"

lemma version_operators:
  "version_eq v w \<longleftrightarrow> v = w" "version_ne v w \<longleftrightarrow> v \<noteq> w" "version_lt v w \<longleftrightarrow> v < w"
  "version_ge v w \<longleftrightarrow> w \<le> v" "version_gt v w \<longleftrightarrow> w < v" "version_le v w \<longleftrightarrow> v \<le> w"
  by (cases v; cases w;
      simp add: version_eq_def version_ne_def version_lt_def version_ge_def version_gt_def version_le_def
        less_version_def less_eq_version_def)+

definition version_to_string :: "version \<Rightarrow> string" where
  "version_to_string v = to_string (unat (major v)) @ ''.'' @ to_string (unat (minor v)) @ ''.'' @
     to_string (unat (patch v))"

definition thread_pool_version :: version where
  "thread_pool_version = Version 5 0 0"

section \<open>Printing\<close>

text \<open>A printed version determines the version: it can be parsed back.\<close>

definition until_dot :: "string \<Rightarrow> string \<times> string" where
  "until_dot s = (takeWhile (\<lambda>c. c \<noteq> CHR ''.'') s, tl (dropWhile (\<lambda>c. c \<noteq> CHR ''.'') s))"

definition parse_version :: "string \<Rightarrow> version option" where
  "parse_version s =
     (case until_dot s of (a, r) \<Rightarrow> case until_dot r of (b, c) \<Rightarrow>
        (case (parse_digits 0 a, parse_digits 0 b, parse_digits 0 c) of
           (Some x, Some y, Some z) \<Rightarrow> Some (Version (of_nat x) (of_nat y) (of_nat z))
         | _ \<Rightarrow> None))"

lemma parse_digits_no_dot: "parse_digits a s = Some n \<Longrightarrow> CHR ''.'' \<notin> set s"
  by (induction a s rule: parse_digits.induct) (auto split: if_splits)

lemma to_string_no_dot: "CHR ''.'' \<notin> set (to_string n)"
  using parse_digits_to_string by (rule parse_digits_no_dot)

lemma until_dot_to_string: "until_dot (to_string n @ CHR ''.'' # r) = (to_string n, r)"
proof -
  have d: "\<And>c. c \<in> set (to_string n) \<Longrightarrow> c \<noteq> CHR ''.''" using to_string_no_dot by blast
  have "takeWhile (\<lambda>c. c \<noteq> CHR ''.'') (to_string n @ CHR ''.'' # r) = to_string n"
    using d by (subst takeWhile_append2) auto
  moreover have "dropWhile (\<lambda>c. c \<noteq> CHR ''.'') (to_string n @ CHR ''.'' # r) = CHR ''.'' # r"
    using d by (subst dropWhile_append2) auto
  ultimately show ?thesis by (simp add: until_dot_def)
qed

theorem version_roundtrip: "parse_version (version_to_string v) = Some v"
proof -
  have "until_dot (version_to_string v) =
      (to_string (unat (major v)), to_string (unat (minor v)) @ CHR ''.'' # to_string (unat (patch v)))"
    using until_dot_to_string by (simp add: version_to_string_def)
  then show ?thesis
    by (cases v) (simp add: parse_version_def until_dot_to_string parse_digits_to_string)
qed

end
