(* ===== verification/Framing.thy ===== *)
theory Framing
  imports World
begin

text \<open>
  The operations of the server only append to the queue of write tasks and never look at it,
  nor at the tasks in execution: a frame property. Tasks in front of the queue change nothing
  but the queue. Theory Deployment uses it to put a thread pool in the place of the queue.
\<close>

section \<open>Operations on a connection\<close>

text \<open>
  The operations on a connection only append to the queue of tasks, so tasks in front of it
  change nothing.
\<close>

definition ahead :: "write_task list \<Rightarrow> manager \<times> shared \<Rightarrow> manager \<times> shared" where
  "ahead q ms = (fst ms, (snd ms)\<lparr>tasks := q @ tasks (snd ms)\<rparr>)"

definition emap :: "('a \<Rightarrow> 'b) \<Rightarrow> 'a result \<Rightarrow> 'b result" where
  "emap g r = ebind r (\<lambda>x. Inr (g x))"

lemma emap_simps [simp]: "emap g (Inl e) = Inl e" "emap g (Inr x) = Inr (g x)"
  by (simp_all add: emap_def)

lemma emap_eq_Inr: "emap g r = Inr y \<longleftrightarrow> (\<exists>x. r = Inr x \<and> y = g x)"
  by (cases r) auto

lemma emap_ebind: "emap g (ebind m f) = ebind m (\<lambda>x. emap g (f x))"
  by (cases m) simp_all

lemma ebind_emap: "ebind (emap g m) f = ebind m (\<lambda>x. f (g x))"
  by (cases m) simp_all

lemma emap_id: "(\<And>x. g x = x) \<Longrightarrow> emap g r = r"
  by (cases r) simp_all

lemma ebind_same: "(\<And>x. m = Inr x \<Longrightarrow> f x = g x) \<Longrightarrow> ebind m f = ebind m g"
  by (cases m) simp_all

lemma emap_if: "emap g (if b then x else y) = (if b then emap g x else emap g y)"
  by simp

lemma efold_emap:
  "(\<And>x s. f x (h s) = emap h (f x s)) \<Longrightarrow> efold f xs (h s) = emap h (efold f xs s)"
  by (induction xs arbitrary: s) (simp_all add: ebind_emap emap_ebind)

locale blind_operation =
  fixes f :: "net \<Rightarrow> manager \<times> shared \<Rightarrow> (manager \<times> shared) result"
  assumes blind: "f net (ahead q ms) = emap (ahead q) (f net ms)"

lemma capturing_ahead [simp]: "capturing (snd (ahead q ms)) = capturing (snd ms)"
  by (simp add: ahead_def)

lemma close_stream_blind: "close_stream sid remove_poll (ahead q ms) = emap (ahead q) (close_stream sid remove_poll ms)"
  by (cases ms) (auto simp: ahead_def close_stream_def emap_ebind Let_def intro!: ebind_same split: option.splits)

lemma force_close_blind: "force_close (ahead q ms) = emap (ahead q) (force_close ms)"
proof -
  obtain m sh where ms: "ms = (m, sh)" by fastforce
  have "efold (\<lambda>id. close_stream id True) ids (ahead q (m\<lparr>has_backpressure := False\<rparr>, sh)) =
      emap (ahead q) (efold (\<lambda>id. close_stream id True) ids (m\<lparr>has_backpressure := False\<rparr>, sh))" for ids
    by (rule efold_emap) (rule close_stream_blind)
  then show ?thesis by (simp add: force_close_def ms ahead_def)
qed

lemma tasks_last [simp]:
  "sh\<lparr>tasks := ts, os_state := s\<rparr> = sh\<lparr>os_state := s, tasks := ts\<rparr>"
  "sh\<lparr>tasks := ts, send_queue_len := n\<rparr> = sh\<lparr>send_queue_len := n, tasks := ts\<rparr>"
  "sh\<lparr>tasks := ts, pcap_iter := i\<rparr> = sh\<lparr>pcap_iter := i, tasks := ts\<rparr>"
  "sh\<lparr>tasks := ts, finished_captures := fs\<rparr> = sh\<lparr>finished_captures := fs, tasks := ts\<rparr>"
  by simp_all

lemma update_streams_blind: "update_streams (sh\<lparr>tasks := ts\<rparr>) m = update_streams sh m"
  by (simp add: update_streams_def)

lemma open_pcap_blind:
  "open_pcap now ip port (sh\<lparr>tasks := ts\<rparr>) d = emap (\<lambda>(d, sh). (d, sh\<lparr>tasks := ts\<rparr>)) (open_pcap now ip port sh d)"
  by (simp add: open_pcap_def Let_def emap_ebind)

lemma open_pcap_tasks: "open_pcap now ip port sh d = Inr (d', sh') \<Longrightarrow> tasks sh' = tasks sh"
  by (auto simp: open_pcap_def Let_def ebind_eq_Inr)

definition ahead_of :: "write_task list \<Rightarrow> 'a \<times> manager \<times> shared \<Rightarrow> 'a \<times> manager \<times> shared" where
  "ahead_of q r = (fst r, ahead q (snd r))"

lemma handle_connect_blind: "handle_connect net now packet (ahead q ms) = emap (ahead_of q) (handle_connect net now packet ms)"
proof -
  obtain m sh where ms: "ms = (m, sh)" by fastforce
  show ?thesis
    unfolding ms handle_connect_def ahead_def ahead_of_def
    by (auto simp: emap_ebind Let_def open_pcap_blind ebind_emap split: option.splits prod.splits
        intro!: ebind_same) (drule open_pcap_tasks, simp)
qed

lemma handle_data_blind: "handle_data packet (ahead q ms) = emap (ahead_of q) (handle_data packet ms)"
  by (cases ms) (auto simp: handle_data_def ahead_def ahead_of_def emap_ebind Let_def intro!: ebind_same split: option.splits)

lemma ahead_pair [simp]: "ahead q (m, sh) = (m, sh\<lparr>tasks := q @ tasks sh\<rparr>)"
  by (simp add: ahead_def)

lemma receive_blind: "receive net now rcv n (ahead q ms) = emap (ahead q) (receive net now rcv n ms)"
proof -
  obtain m sh where ms: "ms = (m, sh)" by fastforce
  note b = handle_connect_blind [where ms = "(_, sh)", simplified] handle_data_blind [where ms = "(_, sh)", simplified]
  show ?thesis
    unfolding ms receive_def
    by (auto simp: emap_ebind Let_def b ebind_emap ahead_of_def intro!: ebind_same)
qed

lemma task_round_blind: "task_round a packet (ahead q ms) = emap (ahead_of q) (task_round a packet ms)"
  by (cases ms, cases a) (auto simp: task_round_def ahead_of_def emap_ebind intro!: ebind_same split: option.splits)

lemma run_task_blind: "run_task as packet (ahead q ms) = emap (map_option (ahead q)) (run_task as packet ms)"
proof (induction as arbitrary: ms)
  case (Cons a as)
  then show ?case
    by (auto simp: task_round_blind ebind_emap emap_ebind ahead_of_def intro!: ebind_same)
qed simp

lemma task_round_tasks: "task_round a packet ms = Inr (again, ms') \<Longrightarrow> tasks (snd ms') = tasks (snd ms)"
  by (cases ms, cases a) (auto simp: task_round_def ebind_eq_Inr split: option.splits)

lemma run_task_tasks: "run_task as packet ms = Inr (Some ms') \<Longrightarrow> tasks (snd ms') = tasks (snd ms)"
proof (induction as arbitrary: ms)
  case (Cons a as)
  then show ?case
    by (auto simp: ebind_eq_Inr split: if_splits dest!: task_round_tasks)
qed simp

interpretation receive_blind: blind_operation "\<lambda>net. receive net now rcv n" for now rcv n
  by unfold_locales (rule receive_blind)

interpretation close_blind: blind_operation "\<lambda>net. close_stream sid remove_poll" for sid remove_poll
  by unfold_locales (rule close_stream_blind)

interpretation force_close_blind: blind_operation "\<lambda>net. force_close"
  by unfold_locales (rule force_close_blind)

interpretation refresh_blind: blind_operation
  "\<lambda>net (m, sh). ebind (update_streams sh m) (\<lambda>m'. Inr (m', sh))"
  by unfold_locales (auto simp: update_streams_blind emap_ebind ahead_def split: prod.split)

interpretation drain_blind: blind_operation
  "\<lambda>net (m, sh). ebind (update_streams sh (m\<lparr>has_backpressure := False\<rparr>)) (\<lambda>m'.
     Inr (m', sh\<lparr>os_state := wake (os_state sh)\<rparr>))"
  by unfold_locales (auto simp: update_streams_blind emap_ebind ahead_def split: prod.split)

section \<open>Steps of the server\<close>

text \<open>The tasks \<open>q\<close> wait in front of those of \<open>w\<close>, and \<open>rs\<close> are in execution by \<open>n\<close> workers.\<close>

definition loaded :: "write_task list \<Rightarrow> write_task list \<Rightarrow> nat \<Rightarrow> world \<Rightarrow> world" where
  "loaded q rs n w = w\<lparr>common := (common w)\<lparr>tasks := q @ tasks (common w)\<rparr>, running := rs, workers := n\<rparr>"

lemma loaded_simps [simp]:
  "watched (loaded q rs n w) = watched w" "ready (loaded q rs n w) = ready w" "deferreds (loaded q rs n w) = deferreds w"
  "executed (loaded q rs n w) = executed w" "next_id (loaded q rs n w) = next_id w" "workers (loaded q rs n w) = n"
  "running (loaded q rs n w) = rs" "tasks (common (loaded q rs n w)) = q @ tasks (common w)"
  "os_state (common (loaded q rs n w)) = os_state (common w)"
  "send_queue_len (common (loaded q rs n w)) = send_queue_len (common w)"
  "capturing (common (loaded q rs n w)) = capturing (common w)"
  by (simp_all add: loaded_def)

lemma loaded_updates [simp]:
  "(loaded q rs n w)\<lparr>watched := ms\<rparr> = loaded q rs n (w\<lparr>watched := ms\<rparr>)"
  "(loaded q rs n w)\<lparr>ready := fds\<rparr> = loaded q rs n (w\<lparr>ready := fds\<rparr>)"
  "(loaded q rs n w)\<lparr>deferreds := dfs\<rparr> = loaded q rs n (w\<lparr>deferreds := dfs\<rparr>)"
  "(loaded q rs n w)\<lparr>next_id := i\<rparr> = loaded q rs n (w\<lparr>next_id := i\<rparr>)"
  by (simp_all add: loaded_def)

context blind_operation
begin

lemma on_manager_blind: "on_manager wid (f net) (loaded q rs n w) = emap (loaded q rs n) (on_manager wid (f net) w)"
proof (cases "map_of (watched w) wid")
  case (Some m)
  have "f net (m, common (loaded q rs n w)) = emap (ahead q) (f net (m, common w))"
    using blind [of net q "(m, common w)"] by (simp add: ahead_def loaded_def)
  with Some show ?thesis
    by (auto simp: on_manager_def ebind_emap emap_ebind ahead_def loaded_def intro!: ebind_same)
qed (simp add: on_manager_def)

end

lemma forward_manager_blind:
  "forward_manager status df wid (loaded q rs n w, found) =
     emap (\<lambda>(w, found). (loaded q rs n w, found)) (forward_manager status df wid (w, found))"
proof -
  have s: "forward_stream (common (loaded q rs n w)) status wid df = forward_stream (common w) status wid df"
    by (intro ext) (simp add: forward_stream_def send_data_def split: prod.split option.split)
  show ?thesis
    by (auto simp: forward_manager_def s emap_ebind intro!: ebind_same split: option.split)
qed

lemma deliver_blind: "deliver status df (loaded q rs n w) = emap (loaded q rs n) (deliver status df w)"
proof -
  have f: "efold (forward_manager status df) wids (loaded q rs n w, None) =
      emap (\<lambda>(w, found). (loaded q rs n w, found)) (efold (forward_manager status df) wids (w, None))" for wids
    using efold_emap [of "forward_manager status df" "\<lambda>(w, found). (loaded q rs n w, found)" wids "(w, None)"]
    by (simp add: forward_manager_blind split_beta)
  have r: "efold refresh_manager wids (loaded q rs n w) = emap (loaded q rs n) (efold refresh_manager wids w)" for wids w
    by (rule efold_emap) (use refresh_blind.on_manager_blind in \<open>simp add: refresh_manager_def\<close>)
  have d: "(loaded q rs n w)\<lparr>common := (common (loaded q rs n w))\<lparr>send_queue_len := l\<rparr>\<rparr> =
      loaded q rs n (w\<lparr>common := (common w)\<lparr>send_queue_len := l\<rparr>\<rparr>)" for w l
    by (simp add: loaded_def)
  show ?thesis
    by (auto simp: deliver_def f ebind_emap emap_ebind close_blind.on_manager_blind Let_def d r
        intro!: ebind_same split: option.split)
qed

definition is_pool_event :: "event \<Rightarrow> bool" where
  "is_pool_event e = (case e of Dequeue \<Rightarrow> True | Run i as \<Rightarrow> True | _ \<Rightarrow> False)"

lemma step_blind:
  assumes "\<not> is_pool_event e"
  shows "step net e (loaded q rs n w) = emap (loaded q rs n) (step net e w)"
proof (cases e)
  case Open
  then show ?thesis by (auto simp: open_socket_def emap_ebind loaded_def intro!: ebind_same)
next
  case (Message wid now rcv len)
  then show ?thesis by (simp add: receive_blind.on_manager_blind)
next
  case (Drain wid)
  then show ?thesis using drain_blind.on_manager_blind by (simp add: drain_socket_def)
next
  case (Close wid)
  then show ?thesis
    by (auto simp: close_socket_def force_close_blind.on_manager_blind ebind_emap emap_ebind intro!: ebind_same)
next
  case (Watch as)
  then show ?thesis
    by (auto simp: watch_event_def Let_def loaded_def split: list.split option.split)
next
  case (Deliver status)
  then show ?thesis by (simp add: deliver_blind split: list.split)
qed (use assms in \<open>simp_all add: is_pool_event_def loaded_def\<close>)

end
