(* ===== verification/Deployment.thy ===== *)
theory Deployment
  imports Framing WorldProps PoolProps Server
begin

text \<open>
  The server on its thread pool: theory World keeps the write tasks in a queue of its own;
  here they are tasks of the pool of theory Pool, \<open>BS::thread_pool<BS::tp::none> threadpool\<close>
  of src/src/server.cpp. \<open>handle_data\<close> submits to it, and the worker that has taken a task
  executes it. The server on the pool is a refinement of the server of theory World, so what
  is proved there holds of it.
\<close>

section \<open>State and steps\<close>

text \<open>The queue and the tasks in execution of \<open>serving\<close> stay empty: they are in the pool.\<close>

record deployment =
  serving :: world
  workforce :: "write_task pool"

definition deploy :: "config \<Rightarrow> bool \<Rightarrow> u32 \<Rightarrow> os \<Rightarrow> deployment" where
  "deploy c pcap hc os =
     \<lparr>serving = initial_world c pcap (length (threads (server_pool hc :: write_task pool))) os,
      workforce = server_pool hc\<rparr>"

text \<open>\<open>submit_task\<close> for the tasks that an operation of the server has made.\<close>

definition hand_over :: "write_task pool \<Rightarrow> world \<Rightarrow> deployment" where
  "hand_over p w =
     \<lparr>serving = w\<lparr>common := (common w)\<lparr>tasks := []\<rparr>\<rparr>,
      workforce = fold (\<lambda>t. detach_task t 0) (tasks (common w)) p\<rparr>"

text \<open>
  A worker executes the body of a task; \<open>None\<close> means that it is still in its loop. The
  captured pointer is used without a check.
\<close>

definition execute :: "write_answer list \<Rightarrow> write_task \<Rightarrow> world \<Rightarrow> world option result" where
  "execute as t w =
     (case map_of (watched w) (wt_this t) of
        None \<Rightarrow> Inl Use_after_free
      | Some m \<Rightarrow>
          emap (map_option (\<lambda>(m', sh').
              w\<lparr>watched := AList.update (wt_this t) m' (watched w), common := sh', executed := executed w @ [t]\<rparr>))
            (run_task as (wt_packet t) (m, common w)))"

text \<open>
  One step: an operation of the server, a worker of the pool (which returns to its loop after
  the execution of its task), or something else that happens in the pool. Nobody but the
  server submits, and the server neither purges nor resets its pool.
\<close>

definition busy_with :: "nat \<Rightarrow> 'a pool \<Rightarrow> 'a option" where
  "busy_with i p = (if i < length (threads p) then case threads p ! i of Busy t \<Rightarrow> Some t | _ \<Rightarrow> None else None)"

definition pool_worker :: "nat \<Rightarrow> nat \<Rightarrow> write_answer list \<Rightarrow> deployment \<Rightarrow> deployment result" where
  "pool_worker c i as s =
     (case busy_with i (workforce s) of
        None \<Rightarrow> Inr (s\<lparr>workforce := worker c i (workforce s)\<rparr>)
      | Some t \<Rightarrow>
          emap (\<lambda>r. case r of
                None \<Rightarrow> s
              | Some w \<Rightarrow> \<lparr>serving = w, workforce = worker c i (workforce s)\<rparr>)
            (execute as t (serving s)))"

datatype deployed_event =
    Serve event
  | Work nat nat "write_answer list"
  | Within "write_task pool_event"

fun is_foreign :: "'a pool_event \<Rightarrow> bool" where
  "is_foreign (Detach t pri) = True"
| "is_foreign Purge = True"
| "is_foreign (Create hc n) = True"
| "is_foreign (Worker c i) = True"
| "is_foreign e = False"

fun deployed_step :: "net \<Rightarrow> deployed_event \<Rightarrow> deployment \<Rightarrow> deployment result" where
  "deployed_step net (Serve e) s =
     (if is_pool_event e then Inr s else emap (hand_over (workforce s)) (step net e (serving s)))"
| "deployed_step net (Work c i as) s = pool_worker c i as s"
| "deployed_step net (Within e) s =
     (if is_foreign e then Inr s else Inr (s\<lparr>workforce := pool_step e (workforce s)\<rparr>))"

definition run_deployed :: "net \<Rightarrow> deployed_event list \<Rightarrow> deployment \<Rightarrow> deployment result" where
  "run_deployed net = efold (deployed_step net)"

section \<open>What it represents\<close>

text \<open>
  The server of theory World that a deployment stands for: the queue is that of the pool, the
  tasks in execution are those of the busy workers, in some order.
\<close>

definition staffed :: "write_task pool \<Rightarrow> write_task list \<Rightarrow> world \<Rightarrow> world" where
  "staffed p rs w = loaded (map task (queue p)) rs (length (threads p)) w"

definition represents :: "deployment \<Rightarrow> world \<Rightarrow> bool" where
  "represents s w \<longleftrightarrow> (\<exists>rs. w = staffed (workforce s) rs (serving s) \<and> mset rs = executing (threads (workforce s)))"

definition deployment_ok :: "deployment \<Rightarrow> bool" where
  "deployment_ok s \<longleftrightarrow> \<not> priority_enabled (workforce s) \<and> tasks (common (serving s)) = []"

lemma hand_over_queue:
  assumes "\<not> priority_enabled p"
  shows "map task (queue (fold (\<lambda>t. detach_task t 0) ts p)) = map task (queue p) @ ts \<and>
    threads (fold (\<lambda>t. detach_task t 0) ts p) = threads p \<and>
    \<not> priority_enabled (fold (\<lambda>t. detach_task t 0) ts p)"
  using assms by (induction ts arbitrary: p) (simp_all add: detach_task_def)

lemma within_queue:
  assumes "\<not> is_foreign e"
  shows "queue (pool_step e p) = queue p" "executing (threads (pool_step e p)) = executing (threads p)"
    "length (threads (pool_step e p)) = length (threads p)" "priority_enabled (pool_step e p) = priority_enabled p"
proof -
  have "pool_work (pool_step e p) = pool_work p" using assms by (intro other_step_work) auto
  then show "executing (threads (pool_step e p)) = executing (threads p)" by (simp add: pool_work_def)
  show "queue (pool_step e p) = queue p" "length (threads (pool_step e p)) = length (threads p)"
    "priority_enabled (pool_step e p) = priority_enabled p"
    using assms
    by (cases e; auto simp: client_defs wait_call_def reset_end_def request_stop_def notify_one_def notify_all_def
        wake_worker_def destroy_threads_def split: option.split)+
qed

section \<open>The simulation\<close>

lemma executing_idle_less:
  "i < length ws \<Longrightarrow> size (executing ws) < length ws + length (task_of (ws ! i))"
proof (induction ws arbitrary: i)
  case (Cons w ws)
  have l: "size (executing ws) \<le> length ws"
  proof (induction ws)
    case (Cons v vs)
    then show ?case by (cases v) (simp_all add: executing_def)
  qed (simp add: executing_def)
  show ?case
  proof (cases i)
    case 0
    with l show ?thesis by (cases w) (simp_all add: executing_def)
  next
    case (Suc j)
    with Cons.prems Cons.IH [of j] show ?thesis by (cases w) (simp_all add: executing_def)
  qed
qed simp

text \<open>A worker that looks for a task, no longer executing one, is the event \<open>Dequeue\<close> or nothing.\<close>

lemma check_simulates:
  assumes "i < length (threads p)" and "\<not> priority_enabled p" and "tasks (common w) = []"
    and "mset rs + mset (task_of (threads p ! i)) = executing (threads p)"
  shows "\<exists>es rs'. run_events net es (staffed p rs w) = Inr (staffed (worker_check c i p) rs' w) \<and>
    mset rs' = executing (threads (worker_check c i p)) \<and> set es \<subseteq> {Dequeue}"
proof -
  have u: "executing ((threads p)[i := v]) = mset rs + mset (task_of v)" for v
  proof -
    have "executing ((threads p)[i := v]) + mset (task_of (threads p ! i)) =
        (mset rs + mset (task_of v)) + mset (task_of (threads p ! i))"
      using executing_update [OF assms(1), of v] unfolding assms(4) [symmetric] by (simp add: ac_simps)
    then show ?thesis by simp
  qed
  from assms(1) show ?thesis
  proof (cases rule: worker_check_cases [where c = c])
    case (pop t ts)
    have q: "map task (queue p) = t # map task ts"
      using popped_fifo [OF pop(3)] pop(2) assms(2) by (simp add: task_available_def)
    have "length rs < length (threads p)"
      using executing_idle_less [OF assms(1)] unfolding assms(4) [symmetric] by simp
    then have "step net Dequeue (staffed p rs w) = Inr (staffed (worker_check c i p) (rs @ [t]) w)"
      using q assms(3) pop(5) by (simp add: dequeue_def staffed_def loaded_def)
    then show ?thesis
      using u [of "Busy t"] pop(5) by (intro exI [of _ "[Dequeue]"] exI [of _ "rs @ [t]"]) (simp add: run_events_def)
  next
    case stop
    then show ?thesis
      using u [of Stopped] by (intro exI [of _ "[]"] exI [of _ rs]) (simp add: run_events_def staffed_def)
  next
    case sleep
    then show ?thesis
      using u [of Sleeping] by (intro exI [of _ "[]"] exI [of _ rs]) (simp add: run_events_def staffed_def)
  qed
qed

lemma staffed_back [simp]: "staffed (worker_back p) rs w = staffed p rs w"
  by (simp add: staffed_def)

lemma worker_idle_simulates:
  assumes "busy_with i p = None" and "\<not> priority_enabled p" and "tasks (common w) = []"
    and "mset rs = executing (threads p)"
  shows "\<exists>es rs'. run_events net es (staffed p rs w) = Inr (staffed (worker c i p) rs' w) \<and>
    mset rs' = executing (threads (worker c i p)) \<and> set es \<subseteq> {Dequeue}"
proof (cases rule: worker_cases [of c i p])
  case idle
  with assms(4) show ?thesis by (intro exI [of _ "[]"] exI [of _ rs]) (simp add: run_events_def)
next
  case loop
  then have "task_of (threads p ! i) = []" using assms(1) by (cases "threads p ! i") (simp_all add: busy_with_def)
  with loop check_simulates [of i "worker_back p" w rs net c] assms show ?thesis by (simp add: worker_loop_back)
next
  case check
  with check_simulates [of i p w rs net c] assms show ?thesis by simp
qed

lemma worker_busy_simulates:
  assumes "busy_with i p = Some t" and "\<not> priority_enabled p" and "tasks (common w) = []"
    and "mset rs = executing (threads p)"
  obtains j where "j < length rs" "rs ! j = t"
    "\<And>w'. tasks (common w') = [] \<Longrightarrow> \<exists>es rs'. run_events net es (staffed p (take j rs @ drop (Suc j) rs) w') =
        Inr (staffed (worker c i p) rs' w') \<and>
      mset rs' = executing (threads (worker c i p)) \<and> set es \<subseteq> {Dequeue}"
proof -
  have i: "i < length (threads p)" "threads p ! i = Busy t"
    using assms(1) by (auto simp: busy_with_def split: if_splits worker.splits)
  have "t \<in># executing (threads p)"
  proof -
    have "Busy t \<in> set (threads p)" using i by (metis nth_mem)
    then show ?thesis by (auto simp: executing_def intro!: bexI [of _ "Busy t"])
  qed
  then have "t \<in> set rs" using assms(4) by (metis set_mset_mset)
  then obtain j where j: "j < length rs" "rs ! j = t" by (auto simp: in_set_conv_nth)
  let ?rs = "take j rs @ drop (Suc j) rs"
  have "rs = take j rs @ t # drop (Suc j) rs" using j by (metis id_take_nth_drop)
  then have "mset rs = mset (take j rs @ t # drop (Suc j) rs)" by simp
  then have m: "mset ?rs + mset (task_of (threads p ! i)) = executing (threads p)" using assms(4) i by simp
  have "worker c i p = worker_check c i (worker_back p)" using i by (simp add: worker_def worker_loop_back)
  then show ?thesis
    using check_simulates [of i "worker_back p" _ ?rs net c] m i(1) assms(2) by (intro that [OF j]) simp
qed

text \<open>The execution of a task is the event \<open>Run\<close>.\<close>

lemma execute_simulates:
  assumes "j < length rs"
  shows "step net (Run j as) (staffed p rs w) =
    emap (\<lambda>r. case r of None \<Rightarrow> staffed p rs w | Some w' \<Rightarrow> staffed p (take j rs @ drop (Suc j) rs) w')
      (execute as (rs ! j) w)"
proof (cases "map_of (watched w) (wt_this (rs ! j))")
  case None
  with assms show ?thesis by (simp add: run_running_def execute_def staffed_def)
next
  case (Some m)
  have "run_task as (wt_packet (rs ! j)) (m, common (staffed p rs w)) =
      emap (map_option (ahead (map task (queue p)))) (run_task as (wt_packet (rs ! j)) (m, common w))"
    using run_task_blind [of as _ "map task (queue p)" "(m, common w)"] by (simp add: staffed_def loaded_def)
  then show ?thesis
  proof (cases "run_task as (wt_packet (rs ! j)) (m, common w)")
    case (Inr r)
    with Some assms \<open>run_task as _ (m, common (staffed p rs w)) = _\<close> show ?thesis
      by (cases r) (auto simp: run_running_def execute_def staffed_def loaded_def Let_def)
  qed (use Some assms in \<open>simp add: run_running_def execute_def staffed_def\<close>)
qed

lemma execute_tasks: "execute as t w = Inr (Some w') \<Longrightarrow> tasks (common w') = tasks (common w)"
proof -
  assume "execute as t w = Inr (Some w')"
  then obtain m r where "run_task as (wt_packet t) (m, common w) = Inr r" "Some w' = map_option (\<lambda>(m', sh').
      w\<lparr>watched := AList.update (wt_this t) m' (watched w), common := sh', executed := executed w @ [t]\<rparr>) r"
    by (auto simp: execute_def emap_eq_Inr split: option.splits)
  then show ?thesis by (cases r) (auto dest: run_task_tasks)
qed


text \<open>The events of a deployment that the server of theory World sees too.\<close>

fun served :: "deployed_event \<Rightarrow> event list" where
  "served (Serve e) = (if is_pool_event e then [] else [e])"
| "served (Work c i as) = []"
| "served (Within e) = []"

definition operations :: "event list \<Rightarrow> event list" where
  "operations es = filter (\<lambda>e. \<not> is_pool_event e) es"

lemma operations_simps [simp]:
  "operations [] = []" "operations (es @ es') = operations es @ operations es'"
  "operations (e # es) = (if is_pool_event e then operations es else e # operations es)"
  by (simp_all add: operations_def)

lemma operations_dequeues: "set es \<subseteq> {Dequeue} \<Longrightarrow> operations es = []"
  by (auto simp: operations_def is_pool_event_def filter_empty_conv)

lemma run_events_append: "run_events net (es @ es') w = ebind (run_events net es w) (run_events net es')"
  by (simp add: run_events_def efold_append)

lemma deployed_step_simulates:
  assumes "represents s w" and "deployment_ok s"
  shows "\<exists>es. operations es = served e \<and>
    (case deployed_step net e s of
       Inl f \<Rightarrow> run_events net es w = Inl f
     | Inr s' \<Rightarrow> \<exists>w'. run_events net es w = Inr w' \<and> represents s' w' \<and> deployment_ok s')"
proof -
  let ?p = "workforce s"
  obtain rs where w: "w = staffed ?p rs (serving s)" and rs: "mset rs = executing (threads ?p)"
    using assms(1) by (auto simp: represents_def)
  have ok: "\<not> priority_enabled ?p" "tasks (common (serving s)) = []" using assms(2) by (simp_all add: deployment_ok_def)
  have stays: ?thesis if "deployed_step net e s = Inr s" "served e = []"
    using that assms by (intro exI [of _ "[]"]) (simp add: run_events_def)
  show ?thesis
  proof (cases e)
    case (Serve f)
    show ?thesis
    proof (cases "is_pool_event f")
      case True
      have "deployed_step net e s = Inr s" "served e = []" using Serve True by simp_all
      then show ?thesis by (rule stays)
    next
      case False
      have st: "step net f w = emap (staffed ?p rs) (step net f (serving s))"
        unfolding w staffed_def by (rule step_blind [OF False, THEN trans]) (simp add: staffed_def [abs_def])
      show ?thesis
      proof (cases "step net f (serving s)")
        case (Inl x)
        with st Serve False show ?thesis by (intro exI [of _ "[f]"]) (simp add: run_events_def)
      next
        case (Inr v)
        have "represents (hand_over ?p v) (staffed ?p rs v)"
          using hand_over_queue [OF ok(1), of "tasks (common v)"] rs
          by (auto simp: represents_def hand_over_def staffed_def loaded_def)
        moreover have "deployment_ok (hand_over ?p v)"
          using hand_over_queue [OF ok(1), of "tasks (common v)"] by (simp add: deployment_ok_def hand_over_def)
        ultimately show ?thesis
          using st Serve False Inr by (intro exI [of _ "[f]"]) (simp add: run_events_def)
      qed
    qed
  next
    case (Within f)
    show ?thesis
    proof (cases "is_foreign f")
      case True
      have "deployed_step net e s = Inr s" "served e = []" using Within True by simp_all
      then show ?thesis by (rule stays)
    next
      case False
      have "represents (s\<lparr>workforce := pool_step f ?p\<rparr>) w"
        using within_queue [OF False, of ?p] w rs by (auto simp: represents_def staffed_def)
      moreover have "deployment_ok (s\<lparr>workforce := pool_step f ?p\<rparr>)"
        using within_queue [OF False, of ?p] ok by (simp add: deployment_ok_def)
      ultimately show ?thesis using Within False by (intro exI [of _ "[]"]) (simp add: run_events_def)
    qed
  next
    case (Work c i as)
    have pr: "\<not> priority_enabled (worker c i ?p)"
      using ok(1) by (cases rule: worker_cases [of c i ?p]) (simp_all add: worker_loop_back worker_check_def pop_task_def Let_def)
    show ?thesis
    proof (cases "busy_with i ?p")
      case None
      then obtain es rs' where "run_events net es w = Inr (staffed (worker c i ?p) rs' (serving s))"
        "mset rs' = executing (threads (worker c i ?p))" "set es \<subseteq> {Dequeue}"
        using worker_idle_simulates [OF None ok rs] w by blast
      then show ?thesis
        using Work None pr ok operations_dequeues
        by (intro exI [of _ es]) (auto simp: pool_worker_def represents_def deployment_ok_def)
    next
      case (Some t)
      obtain j where j: "j < length rs" "rs ! j = t"
        and after: "\<And>w'. tasks (common w') = [] \<Longrightarrow> \<exists>es rs'. run_events net es (staffed ?p (take j rs @ drop (Suc j) rs) w') =
            Inr (staffed (worker c i ?p) rs' w') \<and> mset rs' = executing (threads (worker c i ?p)) \<and> set es \<subseteq> {Dequeue}"
        using worker_busy_simulates [OF Some ok rs] by blast
      note run = execute_simulates [OF j(1), of net as ?p "serving s", unfolded j(2), folded w]
      show ?thesis
      proof (cases "execute as t (serving s)")
        case (Inl x)
        with run Work Some show ?thesis
          by (intro exI [of _ "[Run j as]"]) (simp add: run_events_def pool_worker_def is_pool_event_def)
      next
        case (Inr r)
        show ?thesis
        proof (cases r)
          case None
          with Inr Work Some stays show ?thesis by (simp add: pool_worker_def)
        next
          case (Some w1)
          have t1: "tasks (common w1) = []" using execute_tasks Inr Some ok(2) by metis
          obtain es rs' where es: "run_events net es (staffed ?p (take j rs @ drop (Suc j) rs) w1) =
              Inr (staffed (worker c i ?p) rs' w1)" "mset rs' = executing (threads (worker c i ?p))" "set es \<subseteq> {Dequeue}"
            using after [OF t1] by blast
          have "run_events net ([Run j as] @ es) w = Inr (staffed (worker c i ?p) rs' w1)"
            unfolding run_events_append using run Inr Some es(1) by (simp add: run_events_def)
          then show ?thesis
            using Work \<open>busy_with i ?p = Some t\<close> Inr Some pr t1 es(2,3) operations_dequeues
            by (intro exI [of _ "[Run j as] @ es"])
              (auto simp: pool_worker_def represents_def deployment_ok_def is_pool_event_def)
        qed
      qed
    qed
  qed
qed


lemma run_deployed_simulates:
  assumes "represents s w" and "deployment_ok s"
  shows "\<exists>es'. case run_deployed net es s of
       Inl f \<Rightarrow> run_events net es' w = Inl f \<and> (\<exists>later. operations es' @ later = concat (map served es))
     | Inr s' \<Rightarrow> operations es' = concat (map served es) \<and>
         (\<exists>w'. run_events net es' w = Inr w' \<and> represents s' w' \<and> deployment_ok s')"
  using assms
proof (induction es arbitrary: s w)
  case Nil
  then show ?case by (intro exI [of _ "[]"]) (simp add: run_events_def run_deployed_def)
next
  case (Cons e es)
  obtain es1 where e: "operations es1 = served e" and st: "case deployed_step net e s of
       Inl f \<Rightarrow> run_events net es1 w = Inl f
     | Inr s' \<Rightarrow> \<exists>w'. run_events net es1 w = Inr w' \<and> represents s' w' \<and> deployment_ok s'"
    using deployed_step_simulates [OF Cons.prems, of e net] by blast
  show ?case
  proof (cases "deployed_step net e s")
    case (Inl f)
    with st e show ?thesis by (intro exI [of _ es1]) (simp add: run_deployed_def)
  next
    case (Inr s1)
    with st obtain w1 where w1: "run_events net es1 w = Inr w1" "represents s1 w1" "deployment_ok s1" by auto
    obtain es2 where es2: "case run_deployed net es s1 of
       Inl f \<Rightarrow> run_events net es2 w1 = Inl f \<and> (\<exists>later. operations es2 @ later = concat (map served es))
     | Inr s' \<Rightarrow> operations es2 = concat (map served es) \<and>
         (\<exists>w'. run_events net es2 w1 = Inr w' \<and> represents s' w' \<and> deployment_ok s')"
      using Cons.IH [OF w1(2,3)] by blast
    have "run_deployed net (e # es) s = run_deployed net es s1" using Inr by (simp add: run_deployed_def)
    with es2 w1(1) e show ?thesis
      by (intro exI [of _ "es1 @ es2"]) (auto simp: run_events_append split: sum.splits)
  qed
qed

lemma deploy_represents:
  "represents (deploy c pcap hc os) (initial_world c pcap (length (threads (server_pool hc :: write_task pool))) os)"
  "deployment_ok (deploy c pcap hc os)"
  by (auto simp: represents_def deploy_def staffed_def loaded_def server_pool_def initial_world_def deployment_ok_def
      intro!: exI [of _ "[]"])

section \<open>Properties\<close>

text \<open>
  C3: The server on its thread pool is a refinement of the server of theory World with as many
  workers as the pool has threads. For every run from the start, whatever the clients, the
  targets and the scheduling of the threads, there is a run of the latter with the same
  operations in the same order that ends in the state the deployment represents: the same
  connections, descriptors, deliveries and executed tasks, the same queue, and in execution
  the tasks of the busy workers. A fault of the deployment is a fault of the server.
\<close>
theorem server_on_pool:
  "\<exists>es'. let w = initial_world c pcap (length (threads (server_pool hc :: write_task pool))) os in
     case run_deployed net es (deploy c pcap hc os) of
       Inl f \<Rightarrow> run_events net es' w = Inl f \<and> (\<exists>later. operations es' @ later = concat (map served es))
     | Inr s \<Rightarrow> operations es' = concat (map served es) \<and> (\<exists>w'. run_events net es' w = Inr w' \<and> represents s w')"
proof -
  let ?n = "length (threads (server_pool hc :: write_task pool))"
  obtain es' where "case run_deployed net es (deploy c pcap hc os) of
       Inl f \<Rightarrow> run_events net es' (initial_world c pcap ?n os) = Inl f \<and>
         (\<exists>later. operations es' @ later = concat (map served es))
     | Inr s' \<Rightarrow> operations es' = concat (map served es) \<and>
         (\<exists>w'. run_events net es' (initial_world c pcap ?n os) = Inr w' \<and> represents s' w' \<and> deployment_ok s')"
    using run_deployed_simulates [OF deploy_represents] by blast
  then show ?thesis
    unfolding Let_def by (intro exI [of _ es']) (auto split: sum.splits)
qed

text \<open>
  A worker that waits in \<open>poll\<close> for a target that does not read is lost to the others.
\<close>

definition holds_up :: "deployed_event \<Rightarrow> bool" where
  "holds_up e = (case e of Work c i as \<Rightarrow> list_all (\<lambda>a. a = Write_again) as | _ \<Rightarrow> True)"

lemma run_task_blocked: "list_all (\<lambda>a. a = Write_again) as \<Longrightarrow> run_task as packet ms \<noteq> Inr (Some ms')"
proof (induction as arbitrary: ms)
  case (Cons a as)
  then show ?case by (cases ms) (auto simp: task_round_def ebind_eq_Inr split: option.splits)
qed simp

definition all_busy :: "'a pool \<Rightarrow> bool" where
  "all_busy p \<longleftrightarrow> list_all (\<lambda>w. task_of w \<noteq> []) (threads p)"

lemma all_busy_nth: "all_busy p \<Longrightarrow> i < length (threads p) \<Longrightarrow> \<exists>t. threads p ! i = Busy t"
  by (cases "threads p ! i") (auto simp: all_busy_def list_all_length)

lemma all_busy_within:
  assumes "all_busy p" and "\<not> is_foreign e"
  shows "threads (pool_step e p) = threads p"
proof -
  have b: "w \<noteq> Sleeping" if "w \<in> set (threads p)" for w
    using that assms(1) by (auto simp: all_busy_def list_all_iff)
  then have "wake_worker i p' = p'" if "threads p' = threads p" for i p'
    using that nth_mem by (auto simp: wake_worker_def)
  moreover have "map (\<lambda>w. if w = Sleeping then Notified else w) (threads p) = threads p"
    using b by (simp add: map_idI)
  ultimately show ?thesis
    using assms(2)
    by (cases e; auto simp: client_defs wait_call_def reset_end_def request_stop_def notify_one_def notify_all_def
        destroy_threads_def split: option.split)
qed

lemma on_manager_executed: "on_manager wid f w = Inr w' \<Longrightarrow> executed w' = executed w"
  by (auto simp: on_manager_def ebind_eq_Inr split: option.splits)

lemma deliver_executed:
  assumes "deliver status df w = Inr w'"
  shows "executed w' = executed w"
proof -
  obtain w1 found where f: "efold (forward_manager status df) (map fst (watched w)) (w, None) = Inr (w1, found)"
    and r: "ebind (case found of
              Some (wid, k) \<Rightarrow> if df_to_close df then on_manager wid (close_stream k False) w1 else Inr w1
            | None \<Rightarrow> Inr w1) (\<lambda>w.
       let w = w\<lparr>common := (common w)\<lparr>send_queue_len := send_queue_len (common w) - 1\<rparr>\<rparr>
       in if send_queue_len (common w) < MAX_QUEUE
          then efold refresh_manager (map fst (watched w)) w else Inr w) = Inr w'"
    using assms by (auto simp: deliver_def ebind_eq_Inr)
  have "executed (fst (w1, found)) = executed w"
    using f by (rule efold_invariant [where P = "\<lambda>v. executed (fst v) = executed w"])
      (auto simp: forward_manager_def ebind_eq_Inr split: option.splits)
  moreover from r obtain w2 where c: "(case found of
              Some (wid, k) \<Rightarrow> if df_to_close df then on_manager wid (close_stream k False) w1 else Inr w1
            | None \<Rightarrow> Inr w1) = Inr w2"
    by (auto simp: ebind_eq_Inr)
  then have "executed w2 = executed w1" by (auto dest: on_manager_executed split: option.splits if_splits)
  moreover have "executed v = executed w2"
    if "efold refresh_manager wids (w2\<lparr>common := sh\<rparr>) = Inr v" for wids sh v
    using that by (rule efold_invariant [where P = "\<lambda>v. executed v = executed w2"])
      (auto simp: refresh_manager_def dest: on_manager_executed)
  ultimately show ?thesis using r c by (auto simp: Let_def split: if_splits)
qed

lemma step_executed:
  assumes "\<not> is_pool_event e" and "step net e w = Inr w'"
  shows "executed w' = executed w"
proof (cases e)
  case (Deliver status)
  with assms(2) show ?thesis by (cases "deferreds w") (auto dest: deliver_executed)
qed (use assms in \<open>auto simp: is_pool_event_def open_socket_def drain_socket_def close_socket_def ebind_eq_Inr
    watch_event_def Let_def dest: on_manager_executed split: list.splits option.splits if_splits\<close>)

lemma blocked_step:
  assumes "all_busy (workforce s)" and "holds_up e" and "deployed_step net e s = Inr s'"
  shows "threads (workforce s') = threads (workforce s) \<and> executed (serving s') = executed (serving s)"
proof (cases e)
  case (Serve f)
  have "threads (fold (\<lambda>t. detach_task t 0) ts p) = threads p" for ts and p :: "write_task pool"
    by (induction ts arbitrary: p) (simp_all add: detach_task_def)
  with Serve assms(3) show ?thesis
    by (auto simp: emap_eq_Inr hand_over_def dest: step_executed split: if_splits)
next
  case (Work c i as)
  show ?thesis
  proof (cases "busy_with i (workforce s)")
    case None
    then have "\<not> i < length (threads (workforce s))"
      using all_busy_nth [OF assms(1), of i] by (auto simp: busy_with_def)
    with None Work assms(3) show ?thesis by (simp add: pool_worker_def worker_def)
  next
    case (Some t)
    have "execute as t (serving s) \<noteq> Inr (Some w)" for w
    proof -
      have "list_all (\<lambda>a. a = Write_again) as" using assms(2) Work by (simp add: holds_up_def)
      from run_task_blocked [OF this] show ?thesis
        by (auto simp: execute_def emap_eq_Inr map_option_case split: option.splits)
    qed
    with Some Work assms(3) show ?thesis
      by (auto simp: pool_worker_def emap_eq_Inr split: option.splits)
  qed
next
  case (Within f)
  with assms(1,3) all_busy_within [of "workforce s" f] show ?thesis by (auto split: if_splits)
qed

text \<open>
  C22: The targets of the write tasks in execution hold up everybody's uploads: once every worker
  executes a task whose target does not take the data, the tasks of all other clients stay in
  the queue. Whatever else happens (packets, deliveries, connections that come and go,
  notifications), no task is started and none is completed, until one of those targets reads.
\<close>
theorem uploads_starve:
  assumes "all_busy (workforce s)" and "list_all holds_up es" and "run_deployed net es s = Inr s'"
  shows "threads (workforce s') = threads (workforce s) \<and> executed (serving s') = executed (serving s)"
  using assms
proof (induction es arbitrary: s)
  case (Cons e es)
  then obtain s1 where s1: "deployed_step net e s = Inr s1" "run_deployed net es s1 = Inr s'"
    by (auto simp: run_deployed_def ebind_eq_Inr)
  with Cons.prems blocked_step [of s e net s1] have
    "threads (workforce s1) = threads (workforce s)" "executed (serving s1) = executed (serving s)" by simp_all
  moreover from this(1) Cons.prems(1) have "all_busy (workforce s1)" by (simp add: all_busy_def)
  ultimately show ?case using Cons.IH [OF _ _ s1(2)] Cons.prems(2) by simp
qed (simp add: run_deployed_def)

text \<open>
  One client is enough, and any bytes of another then wait: with three hardware threads the
  pool has one worker, which waits for the target of the first client.
\<close>

definition stuck_events :: "deployed_event list" where
  "stuck_events = [Serve Open, Serve Open, Serve (connect_message 0 7), Serve (connect_message 1 9),
     Serve (data_message 0 7 1), Work 0 0 [], Work 0 0 [Write_again]]"

definition later_events :: "deployed_event list" where
  "later_events = [Serve (data_message 1 9 2), Within (Notify_one 0), Work 0 0 [Write_again, Write_again],
     Serve Open, Within Notify_all]"

theorem uploads_starve_witness:
  "\<exists>s s'. run_deployed quiet_net stuck_events (deploy example_conf False 3 quiet_os) = Inr s \<and>
     run_deployed quiet_net later_events s = Inr s' \<and> executed (serving s') = [] \<and>
     length (queue (workforce s')) = 1 \<and> threads (workforce s') = threads (workforce s)"
proof -
  let ?s = "run_deployed quiet_net stuck_events (deploy example_conf False 3 quiet_os)"
  have "ebind ?s (\<lambda>s. ebind (run_deployed quiet_net later_events s) (\<lambda>s'.
      Inr (all_busy (workforce s), executed (serving s) = [], length (queue (workforce s'))))) =
      (Inr (True, True, Suc 0) :: (bool \<times> bool \<times> nat) result)"
    by code_simp
  then obtain s s' where s: "?s = Inr s" "run_deployed quiet_net later_events s = Inr s'" "all_busy (workforce s)"
    "executed (serving s) = []" "length (queue (workforce s')) = 1"
    by (auto simp: ebind_eq_Inr)
  moreover have "list_all holds_up later_events" by (simp add: later_events_def holds_up_def)
  ultimately show ?thesis using uploads_starve [of s later_events quiet_net s'] by auto
qed

end
