(* ===== verification/Locks.thy ===== *)
theory Locks
  imports Prelude
begin

text \<open>
  The locks of the server (src/src/websocketManager.h, src/src/websocketManager.cpp): the mutex
  \<open>watched_sockets_lock\<close> of the watcher and the shared mutex \<open>stream_lock\<close> of each connection.
  A function is seen here as the sequence of its lock operations and of the calls of \<open>poll\<close>,
  in which a write task waits for its target; what it does in between is in theories Manager
  and World, where each function is one step. The event loop runs the callbacks and the
  deferred lambdas, one after the other; the workers of the pool run the write tasks; the
  watcher thread takes no lock.

  A \<open>std::shared_mutex\<close> may or may not let readers pass a waiting writer; both are covered.
  The mutex inside the thread pool, which \<open>submit_task\<close> and the workers take, and the mutex
  \<open>writer_gaurd\<close> of a capture (pcap.h) are left out: nobody asks for another lock or waits in
  \<open>poll\<close> while holding one of them.
\<close>

section \<open>Lock operations\<close>

datatype lock = Watched_sockets_lock | Stream_lock size_t

datatype action = Lock lock | Lock_shared lock | Unlock lock | Unlock_shared lock | Poll

definition guarded :: "lock \<Rightarrow> action list \<Rightarrow> action list" where
  "guarded l body = Lock l # body @ [Unlock l]"

definition shared_guarded :: "lock \<Rightarrow> action list \<Rightarrow> action list" where
  "shared_guarded l body = Lock_shared l # body @ [Unlock_shared l]"

section \<open>The functions\<close>

definition construct_actions :: "action list" where
  "construct_actions = guarded Watched_sockets_lock []"

definition destruct_actions :: "action list" where
  "destruct_actions = guarded Watched_sockets_lock []"

definition close_stream_actions :: "size_t \<Rightarrow> action list" where
  "close_stream_actions wid = guarded (Stream_lock wid) []"

text \<open>\<open>force_close\<close> on \<open>n\<close> streams: their ids under the lock, then each stream for itself.\<close>

definition force_close_actions :: "size_t \<Rightarrow> nat \<Rightarrow> action list" where
  "force_close_actions wid n = guarded (Stream_lock wid) [] @ concat (replicate n (close_stream_actions wid))"

text \<open>The lock is taken once the connection stands.\<close>

definition handle_connect_actions :: "size_t \<Rightarrow> bool \<Rightarrow> action list" where
  "handle_connect_actions wid connected = (if connected then guarded (Stream_lock wid) [] else [])"

definition handle_data_actions :: "size_t \<Rightarrow> action list" where
  "handle_data_actions wid = shared_guarded (Stream_lock wid) []"

text \<open>A write task that goes \<open>n\<close> times round its loop.\<close>

definition task_actions :: "size_t \<times> nat \<Rightarrow> action list" where
  "task_actions t = (case t of (wid, n) \<Rightarrow> shared_guarded (Stream_lock wid) (replicate n Poll))"

definition update_streams_actions :: "size_t \<Rightarrow> action list" where
  "update_streams_actions wid = shared_guarded (Stream_lock wid) []"

text \<open>In builds that capture, \<open>send_data\<close> takes the lock again.\<close>

definition send_data_actions :: "bool \<Rightarrow> size_t \<Rightarrow> action list" where
  "send_data_actions capt wid = (if capt then shared_guarded (Stream_lock wid) [] else [])"

text \<open>
  The deferred lambda: for each connection, with the number of its streams that own the
  descriptor, the stream to close, if any, and whether the credits are refreshed.
\<close>

definition deliver_actions :: "bool \<Rightarrow> (size_t \<times> nat) list \<Rightarrow> size_t option \<Rightarrow> bool \<Rightarrow> action list" where
  "deliver_actions capt found to_close refresh =
     guarded Watched_sockets_lock
       (concat (map (\<lambda>(wid, n). shared_guarded (Stream_lock wid) (concat (replicate n (send_data_actions capt wid)))) found) @
        (case to_close of None \<Rightarrow> [] | Some wid \<Rightarrow> close_stream_actions wid) @
        (if refresh then concat (map (\<lambda>(wid, n). update_streams_actions wid) found) else []))"

section \<open>Threads\<close>

text \<open>What the event loop may have to run.\<close>

datatype loop_callback =
    Opened
  | Connect_received size_t bool
  | Data_received size_t
  | Other_received
  | Drained size_t
  | Closed size_t nat
  | Delivered bool "(size_t \<times> nat) list" "size_t option" bool

fun callback_actions :: "loop_callback \<Rightarrow> action list" where
  "callback_actions Opened = construct_actions"
| "callback_actions (Connect_received wid connected) = handle_connect_actions wid connected"
| "callback_actions (Data_received wid) = handle_data_actions wid"
| "callback_actions Other_received = []"
| "callback_actions (Drained wid) = update_streams_actions wid"
| "callback_actions (Closed wid n) = force_close_actions wid n @ destruct_actions"
| "callback_actions (Delivered capt found to_close refresh) = deliver_actions capt found to_close refresh"

text \<open>A thread: the locks it holds, exclusively or not, and what it still has to do.\<close>

record strand =
  held :: "(lock \<times> bool) list"
  todo :: "action list"

text \<open>Thread 0 is the event loop, the others are the workers.\<close>

definition start_threads :: "loop_callback list \<Rightarrow> (size_t \<times> nat) list list \<Rightarrow> strand list" where
  "start_threads cbs tss =
     \<lparr>held = [], todo = concat (map callback_actions cbs)\<rparr> #
     map (\<lambda>ts. \<lparr>held = [], todo = concat (map task_actions ts)\<rparr>) tss"

definition holds_exclusive :: "lock \<Rightarrow> strand \<Rightarrow> bool" where
  "holds_exclusive l s \<longleftrightarrow> (l, True) \<in> set (held s)"

definition owns_lock :: "lock \<Rightarrow> strand \<Rightarrow> bool" where
  "owns_lock l s \<longleftrightarrow> (l, True) \<in> set (held s) \<or> (l, False) \<in> set (held s)"

definition waits_exclusive :: "lock \<Rightarrow> strand \<Rightarrow> bool" where
  "waits_exclusive l s \<longleftrightarrow> (case todo s of Lock l' # as \<Rightarrow> l' = l | _ \<Rightarrow> False)"

text \<open>
  Whether thread \<open>i\<close> can go on by itself; \<open>prefer_writers\<close> is the policy of the shared mutex. A
  \<open>poll\<close> returns when the kernel says so. Who locks for reading what it holds for reading already
  gets the lock here like any other reader, as the usual implementations have it; the standard
  leaves it undefined. Only the deliveries of builds that capture do so (\<open>capture_relocks\<close>).
\<close>

definition enabled :: "bool \<Rightarrow> nat \<Rightarrow> strand list \<Rightarrow> bool" where
  "enabled prefer_writers i ss \<longleftrightarrow> i < length ss \<and> (case todo (ss ! i) of
      [] \<Rightarrow> False
    | Lock l # as \<Rightarrow> \<not> list_ex (owns_lock l) ss
    | Lock_shared l # as \<Rightarrow> \<not> list_ex (holds_exclusive l) ss \<and> (prefer_writers \<longrightarrow> \<not> list_ex (waits_exclusive l) ss)
    | Unlock l # as \<Rightarrow> True
    | Unlock_shared l # as \<Rightarrow> True
    | Poll # as \<Rightarrow> False)"

definition polling :: "nat \<Rightarrow> strand list \<Rightarrow> bool" where
  "polling i ss \<longleftrightarrow> i < length ss \<and> (case todo (ss ! i) of Poll # as \<Rightarrow> True | _ \<Rightarrow> False)"

fun perform :: "strand \<Rightarrow> strand" where
  "perform s = (case todo s of
      [] \<Rightarrow> s
    | Lock l # as \<Rightarrow> \<lparr>held = (l, True) # held s, todo = as\<rparr>
    | Lock_shared l # as \<Rightarrow> \<lparr>held = (l, False) # held s, todo = as\<rparr>
    | Unlock l # as \<Rightarrow> \<lparr>held = remove1 (l, True) (held s), todo = as\<rparr>
    | Unlock_shared l # as \<Rightarrow> \<lparr>held = remove1 (l, False) (held s), todo = as\<rparr>
    | Poll # as \<Rightarrow> s\<lparr>todo := as\<rparr>)"

text \<open>A step of thread \<open>i\<close>, under the laxer policy; a \<open>poll\<close> that is under way may return.\<close>

definition lock_step :: "nat \<Rightarrow> strand list \<Rightarrow> strand list" where
  "lock_step i ss = (if enabled False i ss \<or> polling i ss then ss[i := perform (ss ! i)] else ss)"

definition run_locks :: "nat list \<Rightarrow> strand list \<Rightarrow> strand list" where
  "run_locks = fold lock_step"

section \<open>Discipline\<close>

text \<open>
  What a thread does with its locks is in order: it unlocks what it holds, never locks what it
  holds, never asks for a lock it holds exclusively, and ends without locks.
\<close>

fun orderly :: "(lock \<times> bool) list \<Rightarrow> action list \<Rightarrow> bool" where
  "orderly h [] = (h = [])"
| "orderly h (Lock l # as) = ((l, True) \<notin> set h \<and> (l, False) \<notin> set h \<and> orderly ((l, True) # h) as)"
| "orderly h (Lock_shared l # as) = ((l, True) \<notin> set h \<and> orderly ((l, False) # h) as)"
| "orderly h (Unlock l # as) = ((l, True) \<in> set h \<and> orderly (remove1 (l, True) h) as)"
| "orderly h (Unlock_shared l # as) = ((l, False) \<in> set h \<and> orderly (remove1 (l, False) h) as)"
| "orderly h (Poll # as) = orderly h as"

lemma orderly_guarded:
  assumes "(l, True) \<notin> set h" and "(l, False) \<notin> set h"
  shows "orderly h (guarded l [] @ bs) = orderly h bs"
  using assms by (simp add: guarded_def)

lemma orderly_shared:
  assumes "(l, True) \<notin> set h" and "\<And>bs. orderly ((l, False) # h) (body @ bs) = orderly ((l, False) # h) bs"
  shows "orderly h (shared_guarded l body @ bs) = orderly h bs"
  using assms by (simp add: shared_guarded_def)

lemma orderly_concat:
  assumes "\<And>x bs. x \<in> set xs \<Longrightarrow> orderly h (f x @ bs) = orderly h bs"
  shows "orderly h (concat (map f xs) @ bs) = orderly h bs"
  using assms by (induction xs) simp_all

lemma orderly_replicate:
  assumes "\<And>bs. orderly h (as @ bs) = orderly h bs"
  shows "orderly h (concat (replicate n as) @ bs) = orderly h bs"
  using assms by (induction n) simp_all

text \<open>With no lock of a connection in hand, these leave the locks as they find them.\<close>

lemma orderly_streams:
  assumes "\<And>wid b. (Stream_lock wid, b) \<notin> set h"
  shows "orderly h (close_stream_actions wid @ bs) = orderly h bs"
    "orderly h (update_streams_actions wid @ bs) = orderly h bs"
    "orderly h (handle_data_actions wid @ bs) = orderly h bs"
    "orderly h (shared_guarded (Stream_lock wid) (concat (replicate n (send_data_actions capt wid))) @ bs) = orderly h bs"
proof -
  show "orderly h (close_stream_actions wid @ bs) = orderly h bs"
    unfolding close_stream_actions_def by (rule orderly_guarded) (use assms in auto)
  show "orderly h (update_streams_actions wid @ bs) = orderly h bs" "orderly h (handle_data_actions wid @ bs) = orderly h bs"
    unfolding update_streams_actions_def handle_data_actions_def by (rule orderly_shared; use assms in simp)+
  have s: "orderly ((Stream_lock wid, False) # h) (send_data_actions capt wid @ bs) =
      orderly ((Stream_lock wid, False) # h) bs" for bs
    using assms by (simp add: send_data_actions_def shared_guarded_def)
  show "orderly h (shared_guarded (Stream_lock wid) (concat (replicate n (send_data_actions capt wid))) @ bs) = orderly h bs"
    by (rule orderly_shared) (use assms orderly_replicate [OF s] in auto)
qed

lemma orderly_deliver: "orderly [] (deliver_actions capt found to_close refresh @ bs) = orderly [] bs"
proof -
  let ?h = "[(Watched_sockets_lock, True)]"
  have f: "orderly ?h (concat (map (\<lambda>(wid, n). shared_guarded (Stream_lock wid) (concat (replicate n (send_data_actions capt wid)))) found) @ bs) =
      orderly ?h bs" for bs
    by (rule orderly_concat) (auto simp: orderly_streams)
  have r: "orderly ?h (concat (map (\<lambda>(wid, n). update_streams_actions wid) found) @ bs) = orderly ?h bs" for bs
    by (rule orderly_concat) (auto simp: orderly_streams)
  show ?thesis
    by (auto simp: deliver_actions_def guarded_def f r orderly_streams split: option.split)
qed

lemma orderly_callback: "orderly [] (callback_actions cb @ bs) = orderly [] bs"
  by (cases cb)
    (auto simp: construct_actions_def destruct_actions_def handle_connect_actions_def force_close_actions_def
      orderly_guarded orderly_streams orderly_replicate orderly_deliver)

lemma orderly_callbacks: "orderly [] (concat (map callback_actions cbs))"
  using orderly_concat [of cbs "[]" callback_actions "[]"] orderly_callback by simp

lemma callbacks_no_poll: "Poll \<notin> set (concat (map callback_actions cbs))"
proof -
  have "Poll \<notin> set (callback_actions cb)" for cb
    by (cases cb)
      (auto simp: construct_actions_def destruct_actions_def handle_connect_actions_def force_close_actions_def
        close_stream_actions_def handle_data_actions_def update_streams_actions_def deliver_actions_def
        send_data_actions_def guarded_def shared_guarded_def split: option.split)
  then show ?thesis by auto
qed

section \<open>The invariant\<close>

definition loop_ok :: "strand \<Rightarrow> bool" where
  "loop_ok s \<longleftrightarrow> orderly (held s) (todo s) \<and> Poll \<notin> set (todo s)"

text \<open>A worker is between two tasks, or in one, with the lock of its connection and nothing else.\<close>

definition strand_ok :: "strand \<Rightarrow> bool" where
  "strand_ok s \<longleftrightarrow> (\<exists>ts. todo s = concat (map task_actions ts) \<and> held s = []) \<or>
     (\<exists>wid n ts. todo s = replicate n Poll @ Unlock_shared (Stream_lock wid) # concat (map task_actions ts) \<and>
        held s = [(Stream_lock wid, False)])"

text \<open>A lock that the event loop holds exclusively is held by nobody else.\<close>

definition locks_ok :: "strand list \<Rightarrow> bool" where
  "locks_ok ss \<longleftrightarrow> ss \<noteq> [] \<and> loop_ok (hd ss) \<and> list_all strand_ok (tl ss) \<and>
     (\<forall>l. holds_exclusive l (hd ss) \<longrightarrow> \<not> list_ex (owns_lock l) (tl ss))"

lemma worker_strand_cases:
  assumes "strand_ok s"
  obtains (idle) "todo s = []" "held s = []"
  | (lock) wid n ts where "todo s = Lock_shared (Stream_lock wid) # replicate n Poll @ Unlock_shared (Stream_lock wid) # concat (map task_actions ts)"
      "held s = []"
  | (poll) wid n ts where "todo s = Poll # replicate n Poll @ Unlock_shared (Stream_lock wid) # concat (map task_actions ts)"
      "held s = [(Stream_lock wid, False)]"
  | (unlock) wid ts where "todo s = Unlock_shared (Stream_lock wid) # concat (map task_actions ts)"
      "held s = [(Stream_lock wid, False)]"
proof -
  consider ts where "todo s = concat (map task_actions ts)" "held s = []"
    | wid n ts where "todo s = replicate n Poll @ Unlock_shared (Stream_lock wid) # concat (map task_actions ts)"
        "held s = [(Stream_lock wid, False)]"
    using assms by (auto simp: strand_ok_def)
  then show ?thesis
  proof cases
    case (1 ts)
    with that(1,2) show ?thesis
      by (cases ts) (auto simp: task_actions_def shared_guarded_def split: prod.splits)
  next
    case (2 wid n ts)
    with that(3,4) show ?thesis by (cases n) auto
  qed
qed

lemma perform_worker:
  assumes "strand_ok s"
  shows "strand_ok (perform s)"
  using assms
proof (cases rule: worker_strand_cases)
  case (poll wid n ts)
  then show ?thesis by (auto simp: strand_ok_def)
next
  case (lock wid n ts)
  then show ?thesis by (auto simp: strand_ok_def)
qed (auto simp: strand_ok_def intro: exI [of _ "[]"])

lemma perform_loop:
  assumes "loop_ok s"
  shows "loop_ok (perform s)"
  using assms by (cases "todo s") (auto simp: loop_ok_def split: action.splits)

lemma worker_never_exclusive: "strand_ok s \<Longrightarrow> \<not> holds_exclusive l s" "strand_ok s \<Longrightarrow> \<not> waits_exclusive l s"
  by (auto elim!: worker_strand_cases simp: holds_exclusive_def waits_exclusive_def)

lemma start_locks_ok: "locks_ok (start_threads cbs tss)"
  using orderly_callbacks callbacks_no_poll
  by (auto simp: locks_ok_def start_threads_def loop_ok_def strand_ok_def list_all_iff holds_exclusive_def)

lemma perform_holds:
  assumes "owns_lock l (perform s)"
  shows "owns_lock l s \<or> (\<exists>as. todo s = Lock l # as \<or> todo s = Lock_shared l # as)"
  using assms by (auto simp: owns_lock_def split: list.splits action.splits dest: set_remove1_subset [THEN subsetD])

lemma perform_exclusive:
  "holds_exclusive l (perform s) \<Longrightarrow> holds_exclusive l s \<or> (\<exists>as. todo s = Lock l # as)"
  by (auto simp: holds_exclusive_def split: list.splits action.splits dest: set_remove1_subset [THEN subsetD])

lemma lock_step_ok:
  assumes "locks_ok ss"
  shows "locks_ok (lock_step i ss)"
proof (cases "enabled False i ss \<or> polling i ss")
  case True
  obtain s ws where ss: "ss = s # ws" using assms by (cases ss) (auto simp: locks_ok_def)
  have ok: "loop_ok s" "list_all strand_ok ws" "\<And>l. holds_exclusive l s \<Longrightarrow> \<not> list_ex (owns_lock l) ws"
    using assms by (simp_all add: locks_ok_def ss)
  have len: "i < length ss" using True by (auto simp: enabled_def polling_def)
  show ?thesis
  proof (cases i)
    case 0
    have "\<not> list_ex (owns_lock l) ws" if "holds_exclusive l (perform s)" for l
      using perform_exclusive [OF that] ok(3)
    proof
      assume "\<exists>as. todo s = Lock l # as"
      with True 0 show ?thesis by (auto simp: enabled_def polling_def ss)
    qed
    with 0 True ok perform_loop show ?thesis by (simp add: lock_step_def locks_ok_def ss del: perform.simps)
  next
    case (Suc j)
    let ?w = "ws ! j"
    have j: "j < length ws" using len Suc by (simp add: ss)
    have "strand_ok ?w" using ok(2) j by (simp add: list_all_length)
    then have w: "strand_ok (perform ?w)" by (rule perform_worker)
    have "\<not> owns_lock l (perform ?w)" if "holds_exclusive l s" for l
    proof
      assume "owns_lock l (perform ?w)"
      then consider "owns_lock l ?w" | as where "todo ?w = Lock l # as" | as where "todo ?w = Lock_shared l # as"
        using perform_holds by blast
      then show False
      proof cases
        case 1
        with ok(3) [OF that] j show ?thesis by (auto simp: list_ex_iff)
      next
        case 2
        with \<open>strand_ok ?w\<close> show ?thesis by (auto elim: worker_strand_cases)
      next
        case 3
        with True Suc that show ?thesis by (auto simp: enabled_def polling_def ss)
      qed
    qed
    then have "\<not> list_ex (owns_lock l) (ws[j := perform ?w])" if "holds_exclusive l s" for l
      using ok(3) [OF that] that by (auto simp: list_ex_iff simp del: perform.simps dest!: set_updateD)
    moreover have "list_all strand_ok (ws[j := perform ?w])"
      using ok(2) w by (auto simp: list_all_iff simp del: perform.simps dest!: set_updateD)
    ultimately show ?thesis using Suc True ok(1) by (simp add: lock_step_def locks_ok_def ss del: perform.simps)
  qed
qed (use assms in \<open>simp add: lock_step_def\<close>)

lemma run_locks_ok: "locks_ok ss \<Longrightarrow> locks_ok (run_locks is ss)"
  unfolding run_locks_def by (induction "is" arbitrary: ss) (simp_all add: lock_step_ok)

section \<open>Progress\<close>

text \<open>If the event loop is not done, it can go on or waits for a worker that can go on or polls.\<close>

lemma loop_progress:
  assumes "locks_ok (s # ws)" and "todo s \<noteq> []"
  shows "\<exists>j. enabled True j (s # ws) \<or> polling j (s # ws)"
proof -
  have ok: "orderly (held s) (todo s)" "Poll \<notin> set (todo s)" "list_all strand_ok ws"
    using assms(1) by (simp_all add: locks_ok_def loop_ok_def)
  have never: "\<not> list_ex (holds_exclusive l) ws" "\<not> list_ex (waits_exclusive l) ws" for l
    using ok(3) worker_never_exclusive by (auto simp: list_ex_iff list_all_iff)
  obtain a as where t: "todo s = a # as" using assms(2) by (cases "todo s") auto
  show ?thesis
  proof (cases a)
    case (Lock l)
    show ?thesis
    proof (cases "list_ex (owns_lock l) ws")
      case True
      then obtain j where j: "j < length ws" "owns_lock l (ws ! j)" by (auto simp: list_ex_length)
      then have "strand_ok (ws ! j)" using ok(3) by (simp add: list_all_length)
      then have "enabled True (Suc j) (s # ws) \<or> polling (Suc j) (s # ws)"
        using j by (auto elim!: worker_strand_cases simp: owns_lock_def enabled_def polling_def)
      then show ?thesis by blast
    next
      case False
      with ok(1) t Lock have "enabled True 0 (s # ws)" by (simp add: enabled_def owns_lock_def)
      then show ?thesis by blast
    qed
  next
    case (Lock_shared l)
    with ok(1) t never have "enabled True 0 (s # ws)" by (simp add: enabled_def holds_exclusive_def waits_exclusive_def)
    then show ?thesis by blast
  next
    case Poll
    with ok(2) t show ?thesis by simp
  qed (use t in \<open>auto simp: enabled_def intro: exI [of _ 0]\<close>)
qed

lemma threads_progress:
  assumes "locks_ok ss" and "\<not> list_all (\<lambda>s. todo s = []) ss"
  shows "\<exists>j. enabled True j ss \<or> polling j ss"
proof -
  obtain s ws where ss: "ss = s # ws" using assms(1) by (cases ss) (auto simp: locks_ok_def)
  show ?thesis
  proof (cases "todo s = []")
    case True
    then have h: "held s = []" using assms(1) by (simp add: locks_ok_def loop_ok_def ss)
    obtain j where j: "j < length ws" "todo (ws ! j) \<noteq> []" proof -
      have "\<not> list_all (\<lambda>s. todo s = []) ws" using assms(2) True by (simp add: ss)
      then show ?thesis using that by (auto simp: list_all_length)
    qed
    have ok: "list_all strand_ok ws" using assms(1) by (simp add: locks_ok_def ss)
    then have never: "\<not> list_ex (holds_exclusive l) ws" "\<not> list_ex (waits_exclusive l) ws" for l
      using worker_never_exclusive by (auto simp: list_ex_iff list_all_iff)
    have "strand_ok (ws ! j)" using ok j by (simp add: list_all_length)
    then have "enabled True (Suc j) ss \<or> polling (Suc j) ss"
      using j h True never by (auto elim!: worker_strand_cases simp: enabled_def polling_def ss holds_exclusive_def waits_exclusive_def)
    then show ?thesis by blast
  next
    case False
    with loop_progress [of s ws] assms(1) show ?thesis by (simp add: ss)
  qed
qed

text \<open>Every step of a thread takes one of its actions away, so all come to their ends.\<close>

definition remaining_actions :: "strand list \<Rightarrow> nat" where
  "remaining_actions ss = sum_list (map (\<lambda>s. length (todo s)) ss)"

lemma remaining_update:
  "j < length ss \<Longrightarrow> remaining_actions (ss[j := s]) + length (todo (ss ! j)) = remaining_actions ss + length (todo s)"
proof (induction ss arbitrary: j)
  case (Cons v vs)
  then show ?case
  proof (cases j)
    case (Suc i)
    with Cons.prems Cons.IH [of i] show ?thesis by (simp add: remaining_actions_def)
  qed (simp add: remaining_actions_def)
qed simp

lemma lock_step_remaining:
  assumes "enabled False j ss \<or> polling j ss"
  shows "remaining_actions (lock_step j ss) < remaining_actions ss"
proof -
  have j: "j < length ss" "todo (ss ! j) \<noteq> []" using assms by (auto simp: enabled_def polling_def)
  then have "length (todo (perform (ss ! j))) < length (todo (ss ! j))"
    by (cases "todo (ss ! j)") (auto split: action.split)
  with remaining_update [OF j(1), of "perform (ss ! j)"] show ?thesis
    using assms by (simp add: lock_step_def del: perform.simps)
qed

lemma enabled_policy: "enabled True i ss \<Longrightarrow> enabled False i ss"
  by (auto simp: enabled_def split: list.splits action.splits)

lemma threads_finish: "locks_ok ss \<Longrightarrow> \<exists>js. list_all (\<lambda>s. todo s = []) (run_locks js ss)"
proof (induction "remaining_actions ss" arbitrary: ss rule: less_induct)
  case less
  show ?case
  proof (cases "list_all (\<lambda>s. todo s = []) ss")
    case True
    then show ?thesis by (intro exI [of _ "[]"]) (simp add: run_locks_def)
  next
    case False
    with threads_progress [OF less.prems] obtain j where "enabled False j ss \<or> polling j ss"
      using enabled_policy by blast
    from less.hyps [OF lock_step_remaining [OF this] lock_step_ok [OF less.prems]] obtain js
      where "list_all (\<lambda>s. todo s = []) (run_locks js (lock_step j ss))" by blast
    then show ?thesis by (intro exI [of _ "j # js"]) (simp add: run_locks_def)
  qed
qed

section \<open>Properties\<close>

text \<open>
  C5: The server cannot deadlock on its locks. Whatever the callbacks and deliveries of the event
  loop and the write tasks of the workers, and however the threads interleave: a lock that is
  held exclusively is held by one thread only; as long as some thread is not done, one can go
  on, under either policy of the shared mutex, or waits in \<open>poll\<close> for a target; and if the
  targets take their data, all threads come to their ends.
\<close>
theorem locks_no_deadlock:
  assumes "ss = run_locks is (start_threads cbs tss)"
  shows "(\<forall>i j l. i < length ss \<longrightarrow> j < length ss \<longrightarrow> holds_exclusive l (ss ! i) \<longrightarrow> owns_lock l (ss ! j) \<longrightarrow> i = j) \<and>
    (\<not> list_all (\<lambda>s. todo s = []) ss \<longrightarrow> (\<exists>j. enabled True j ss \<or> polling j ss)) \<and>
    (\<exists>js. list_all (\<lambda>s. todo s = []) (run_locks js ss))"
proof (intro conjI allI impI)
  have ok: "locks_ok ss" unfolding assms by (intro run_locks_ok start_locks_ok)
  show "\<exists>j. enabled True j ss \<or> polling j ss" if "\<not> list_all (\<lambda>s. todo s = []) ss"
    using ok that by (rule threads_progress)
  show "\<exists>js. list_all (\<lambda>s. todo s = []) (run_locks js ss)" using ok by (rule threads_finish)
  obtain s ws where ss: "ss = s # ws" using ok by (cases ss) (auto simp: locks_ok_def)
  have w: "\<not> holds_exclusive l (ws ! k)" if "k < length ws" for k l
    using that ok worker_never_exclusive by (simp add: ss locks_ok_def list_all_length)
  fix i j l
  assume "i < length ss" "j < length ss" "holds_exclusive l (ss ! i)" "owns_lock l (ss ! j)"
  with ok w show "i = j" by (cases i; cases j) (auto simp: ss locks_ok_def list_ex_length)
qed

text \<open>A write task under way, while the same client connects, another leaves and a delivery waits.\<close>

definition example_threads :: "strand list" where
  "example_threads = start_threads [Data_received 0, Connect_received 0 True, Closed 1 2, Delivered False [(0, 1)] None True]
     [[(0, 2)], [(1, 1)]]"

theorem locks_no_deadlock_witness:
  "\<exists>js. list_all (\<lambda>s. todo s = []) (run_locks js (run_locks [0, 0, 1, 2] example_threads)) \<and>
     \<not> enabled True 0 (run_locks [0, 0, 1, 2] example_threads)"
proof -
  have "\<not> enabled True 0 (run_locks [0, 0, 1, 2] example_threads)" by code_simp
  with locks_no_deadlock [OF refl, of "[0, 0, 1, 2]"] show ?thesis unfolding example_threads_def by blast
qed

text \<open>
  C21: But a target that does not read can stop the whole server. A client sends data to its target
  and then a CONNECT: the write task of the data comes to its \<open>poll\<close> with the lock of the
  connection in its hands, and the event loop waits for that lock. From then on, whatever the
  other threads do, the task is still in that \<open>poll\<close>, still with the lock, and as long as the
  \<open>poll\<close> does not return the event loop is where it was: the CONNECT has not got the lock, and
  none of the callbacks \<open>cbs\<close> behind it runs, those of all other clients included.
\<close>
theorem slow_target_stops_loop:
  "\<exists>is. \<forall>js. 1 \<notin> set js \<longrightarrow>
     (let ss = run_locks js (run_locks is
        (start_threads ([Data_received wid, Connect_received wid True] @ cbs) ([(wid, Suc n)] # tss)))
      in polling 1 ss \<and> held (ss ! 1) = [(Stream_lock wid, False)] \<and> \<not> enabled False 0 ss \<and>
         todo (ss ! 0) = handle_connect_actions wid True @ concat (map callback_actions cbs))"
proof -
  let ?l = "Stream_lock wid" and ?later = "concat (map callback_actions cbs)"
  let ?blocked = "\<lambda>ss. length ss \<ge> 2 \<and> todo (ss ! 0) = handle_connect_actions wid True @ ?later \<and>
    held (ss ! 1) = [(?l, False)] \<and> polling 1 ss"
  let ?ss = "run_locks [0, 0, 1] (start_threads ([Data_received wid, Connect_received wid True] @ cbs) ([(wid, Suc n)] # tss))"
  have never: "\<not> list_ex (holds_exclusive l) (start_threads cbs' tss')" for l cbs' tss'
    by (auto simp: start_threads_def holds_exclusive_def list_ex_iff)
  have b: "?blocked ?ss"
    using never [of ?l "[]" tss]
    by (simp add: run_locks_def lock_step_def enabled_def polling_def start_threads_def handle_data_actions_def
        shared_guarded_def task_actions_def handle_connect_actions_def guarded_def owns_lock_def holds_exclusive_def list_ex_iff)
  have stuck: "\<not> enabled False 0 ss" if "?blocked ss" for ss
  proof -
    have "ss ! 1 \<in> set ss" using that by (intro nth_mem) simp
    moreover have "owns_lock ?l (ss ! 1)" using that by (simp add: owns_lock_def)
    ultimately have "list_ex (owns_lock ?l) ss" by (auto simp: list_ex_iff)
    with that show ?thesis by (simp add: enabled_def handle_connect_actions_def guarded_def)
  qed
  have "?blocked (run_locks js ss)" if "1 \<notin> set js" "?blocked ss" for js ss
    using that
  proof (induction js arbitrary: ss)
    case (Cons j js)
    have "?blocked (lock_step j ss)"
    proof (cases "j = 0")
      case True
      have "\<not> polling 0 ss" using Cons.prems(2) by (simp add: polling_def handle_connect_actions_def guarded_def)
      with True stuck [OF Cons.prems(2)] have "lock_step j ss = ss" by (simp add: lock_step_def)
      with Cons.prems(2) show ?thesis by simp
    next
      case False
      with Cons.prems show ?thesis by (simp add: lock_step_def polling_def del: perform.simps)
    qed
    with Cons show ?case by (simp add: run_locks_def)
  qed (simp add: run_locks_def)
  from this [OF _ b] stuck show ?thesis unfolding Let_def by (intro exI [of _ "[0, 0, 1]"]) blast
qed

theorem slow_target_stops_loop_witness:
  "\<exists>is. let ss = run_locks [0, 2, 2, 0, 2] (run_locks is (start_threads
      ([Data_received 0, Connect_received 0 True] @ [Data_received 1, Closed 1 1]) ([(0, Suc 4)] # [[(1, 1)]])))
    in polling 1 ss \<and> todo (ss ! 0) = handle_connect_actions 0 True @ concat (map callback_actions [Data_received 1, Closed 1 1])"
proof -
  obtain "is" where i: "\<And>js. 1 \<notin> set js \<Longrightarrow>
     (let ss = run_locks js (run_locks is (start_threads
        ([Data_received 0, Connect_received 0 True] @ [Data_received 1, Closed 1 1]) ([(0, Suc 4)] # [[(1, 1)]])))
      in polling 1 ss \<and> held (ss ! 1) = [(Stream_lock 0, False)] \<and> \<not> enabled False 0 ss \<and>
         todo (ss ! 0) = handle_connect_actions 0 True @ concat (map callback_actions [Data_received 1, Closed 1 1]))"
    using slow_target_stops_loop [of 0 "[Data_received 1, Closed 1 1]" 4 "[[(1, 1)]]"] by blast
  have "1 \<notin> set [0, 2, 2, 0, 2 :: nat]" by simp
  from i [OF this] show ?thesis unfolding Let_def by blast
qed

text \<open>
  \<open>stream_lock\<close> does not exclude the tasks of one connection from each other: two workers can be
  in their loops at once. In builds that capture both write to the capture there, one after the
  other (\<open>writer_gaurd\<close>), in an order that need not be that of their packets.
\<close>
theorem tasks_overlap:
  "let ss = run_locks [1, 2] (start_threads cbs ([(wid, Suc m)] # [(wid, Suc n)] # tss))
   in polling 1 ss \<and> polling 2 ss \<and> held (ss ! 1) = [(Stream_lock wid, False)] \<and> held (ss ! 2) = [(Stream_lock wid, False)]"
  by (simp add: run_locks_def lock_step_def enabled_def polling_def start_threads_def shared_guarded_def task_actions_def
      holds_exclusive_def list_ex_iff numeral_2_eq_2)

text \<open>
  In builds that capture, a delivery locks \<open>stream_lock\<close> for reading while it holds it for
  reading already, which the standard leaves undefined; nothing else locks what it holds.
\<close>

fun relocks :: "lock list \<Rightarrow> action list \<Rightarrow> bool" where
  "relocks h [] = False"
| "relocks h (Lock l # as) = (l \<in> set h \<or> relocks (l # h) as)"
| "relocks h (Lock_shared l # as) = (l \<in> set h \<or> relocks (l # h) as)"
| "relocks h (Unlock l # as) = relocks (remove1 l h) as"
| "relocks h (Unlock_shared l # as) = relocks (remove1 l h) as"
| "relocks h (Poll # as) = relocks h as"

theorem capture_relocks:
  "relocks [] (callback_actions (Delivered True [(0, 1)] None False))"
  "\<not> relocks [] (callback_actions (Delivered False [(0, 1), (1, 0)] (Some 0) True))"
  by code_simp+

end
