(* ===== verification/Captures.thy ===== *)
theory Captures
  imports EndToEnd
begin

text \<open>
  Builds with \<open>PCAP\<close> (src/src/websocketManager.h, src/src/websocketManager.cpp, src/src/pcap.h):
  the server that captures serves its clients and targets as the server that does not, as far
  as the data goes; the lock that \<open>send_data\<close> takes in these builds is in theory Locks only.
  The proof is a simulation: \<open>plain_world\<close> takes the captures out of a state, and every operation
  on a connection commutes with it (locale \<open>unseen_operation\<close>). What the captures contain is in
  theory Recordings.
\<close>

section \<open>Without the captures\<close>

text \<open>What is left of a state when everything that belongs to the captures is taken away.\<close>

definition plain_stream :: "stream_data \<Rightarrow> stream_data" where
  "plain_stream d = d\<lparr>ss_pcap_file := [], ss_pcap := None\<rparr>"

definition plain_manager :: "manager \<Rightarrow> manager" where
  "plain_manager m = m\<lparr>streams := map (map_prod id plain_stream) (streams m)\<rparr>"

definition plain_shared :: "shared \<Rightarrow> shared" where
  "plain_shared sh = sh\<lparr>pcap_build := False, pcap_iter := 0, finished_captures := []\<rparr>"

definition plain_world :: "world \<Rightarrow> world" where
  "plain_world w = w\<lparr>watched := map (map_prod id plain_manager) (watched w), common := plain_shared (common w)\<rparr>"

abbreviation plain :: "manager \<times> shared \<Rightarrow> manager \<times> shared" where
  "plain \<equiv> map_prod plain_manager plain_shared"

lemma map_of_entries: "map_of (map (map_prod id g) xs) k = map_option g (map_of xs k)"
  by (induction xs) auto

lemma update_entries: "AList.update k (g d) (map (map_prod id g) xs) = map (map_prod id g) (AList.update k d xs)"
  by (induction xs) auto

lemma delete_entries: "AList.delete k (map (map_prod id g) xs) = map (map_prod id g) (AList.delete k xs)"
  by (induction xs) (auto simp: AList.delete_eq)

lemma keys_entries [simp]: "map fst (map (map_prod id g) xs) = map fst xs"
  by simp

lemma plain_stream_simps [simp]:
  "ss_stream_type (plain_stream d) = ss_stream_type d" "ss_id (plain_stream d) = ss_id d" "ss_fd (plain_stream d) = ss_fd d"
  "ss_buffer (plain_stream d) = ss_buffer d" "ss_pcap (plain_stream d) = None"
  "(plain_stream d)\<lparr>ss_buffer := n\<rparr> = plain_stream (d\<lparr>ss_buffer := n\<rparr>)"
  "plain_stream (d\<lparr>ss_pcap := p\<rparr>) = plain_stream d" "plain_stream (d\<lparr>ss_pcap_file := f\<rparr>) = plain_stream d"
  by (simp_all add: plain_stream_def)

lemma plain_manager_simps [simp]:
  "has_backpressure (plain_manager m) = has_backpressure m" "socket_id (plain_manager m) = socket_id m"
  "received_info (plain_manager m) = received_info m" "info_valid (plain_manager m) = info_valid m"
  "sent (plain_manager m) = sent m" "map fst (streams (plain_manager m)) = map fst (streams m)"
  "map_of (streams (plain_manager m)) k = map_option plain_stream (map_of (streams m) k)"
  "(plain_manager m)\<lparr>has_backpressure := b\<rparr> = plain_manager (m\<lparr>has_backpressure := b\<rparr>)"
  "(plain_manager m)\<lparr>sent := fs\<rparr> = plain_manager (m\<lparr>sent := fs\<rparr>)"
  "emit f (plain_manager m) = plain_manager (emit f m)" "noted (plain_manager m) = plain_manager (noted m)"
  by (simp_all add: plain_manager_def map_of_entries emit_def noted_def)

lemma plain_assign:
  "(plain_manager m)\<lparr>streams := AList.update k (plain_stream d) (streams (plain_manager m))\<rparr> =
     plain_manager (m\<lparr>streams := AList.update k d (streams m)\<rparr>)"
  by (simp add: plain_manager_def update_entries)

lemma plain_erase:
  "(plain_manager m)\<lparr>streams := AList.delete k (streams (plain_manager m))\<rparr> =
     plain_manager (m\<lparr>streams := AList.delete k (streams m)\<rparr>)"
  by (simp add: plain_manager_def delete_entries)

lemma plain_capture:
  assumes "map_of (streams m) k = Some d"
  shows "plain_manager (m\<lparr>streams := AList.update k (d\<lparr>ss_pcap := p\<rparr>) (streams m)\<rparr>) = plain_manager m"
proof -
  have "map (map_prod id plain_stream) (AList.update k (d\<lparr>ss_pcap := p\<rparr>) xs) = map (map_prod id plain_stream) xs"
    if "map_of xs k = Some d" for xs
    using that by (induction xs) auto
  with assms show ?thesis by (simp add: plain_manager_def)
qed

lemma plain_shared_simps [simp]:
  "os_state (plain_shared sh) = os_state sh" "send_queue_len (plain_shared sh) = send_queue_len sh"
  "tasks (plain_shared sh) = tasks sh" "conf (plain_shared sh) = conf sh" "\<not> capturing (plain_shared sh)"
  "finished_captures (plain_shared sh) = []" "(plain_shared sh)\<lparr>finished_captures := []\<rparr> = plain_shared sh"
  "(plain_shared sh)\<lparr>os_state := s\<rparr> = plain_shared (sh\<lparr>os_state := s\<rparr>)"
  "(plain_shared sh)\<lparr>send_queue_len := n\<rparr> = plain_shared (sh\<lparr>send_queue_len := n\<rparr>)"
  "(plain_shared sh)\<lparr>tasks := ts\<rparr> = plain_shared (sh\<lparr>tasks := ts\<rparr>)"
  "plain_shared (sh\<lparr>pcap_iter := n\<rparr>) = plain_shared sh" "plain_shared (sh\<lparr>finished_captures := cs\<rparr>) = plain_shared sh"
  by (simp_all add: plain_shared_def capturing_def)

section \<open>Simulation\<close>

text \<open>The same fault, or results that correspond and keep \<open>P\<close>.\<close>

definition mirrors :: "('a \<Rightarrow> bool) \<Rightarrow> ('a \<Rightarrow> 'b) \<Rightarrow> 'a result \<Rightarrow> 'b result \<Rightarrow> bool" where
  "mirrors P g r r' \<longleftrightarrow> (case r of Inl e \<Rightarrow> r' = Inl e | Inr x \<Rightarrow> r' = Inr (g x) \<and> P x)"

lemma mirrors_simps [simp]:
  "mirrors P g (Inl e) r' \<longleftrightarrow> r' = Inl e" "mirrors P g (Inr x) r' \<longleftrightarrow> r' = Inr (g x) \<and> P x"
  by (simp_all add: mirrors_def)

lemma mirrors_ebind:
  assumes "mirrors P g r r'" and "\<And>x. r = Inr x \<Longrightarrow> P x \<Longrightarrow> mirrors Q h (f x) (f' (g x))"
  shows "mirrors Q h (ebind r f) (ebind r' f')"
  using assms by (cases r) simp_all

lemma mirrors_efold:
  assumes "P s" and "\<And>x s. P s \<Longrightarrow> mirrors P g (f x s) (f' x (g s))"
  shows "mirrors P g (efold f xs s) (efold f' xs (g s))"
  using assms(1) by (induction xs arbitrary: s) (auto intro!: mirrors_ebind assms(2))

text \<open>In a server that captures (\<open>c\<close>) every stream has its capture; a task can read its payload.\<close>

definition recorded :: "bool \<Rightarrow> manager \<Rightarrow> bool" where
  "recorded c m \<longleftrightarrow> (c \<longrightarrow> (\<forall>(k, d) \<in> set (streams m). ss_pcap d \<noteq> None))"

definition readable :: "wisp_packet \<Rightarrow> bool" where
  "readable p \<longleftrightarrow> unat (data_len p) \<le> length (data p) \<and> unat (data_len p) < 2 ^ 63"

definition recording :: "bool \<Rightarrow> shared \<Rightarrow> bool" where
  "recording c sh \<longleftrightarrow> capturing sh = c \<and> (\<forall>t \<in> set (tasks sh). readable (wt_packet t))"

definition all_recorded :: "bool \<Rightarrow> manager \<times> shared \<Rightarrow> bool" where
  "all_recorded c ms \<longleftrightarrow> recorded c (fst ms) \<and> recording c (snd ms)"

lemma recordedD: "recorded c m \<Longrightarrow> c \<Longrightarrow> map_of (streams m) k = Some d \<Longrightarrow> \<exists>p. ss_pcap d = Some p"
  by (auto simp: recorded_def dest: map_of_SomeD)

lemma recorded_simps [simp]:
  "recorded c (m\<lparr>has_backpressure := b\<rparr>) = recorded c m" "recorded c (emit f m) = recorded c m"
  "recorded c (noted m) = recorded c m" "recorded c (m\<lparr>sent := fs\<rparr>) = recorded c m"
  by (simp_all add: recorded_def noted_def)

lemma recorded_assign:
  assumes "recorded c m" and "c \<Longrightarrow> ss_pcap d \<noteq> None"
  shows "recorded c (m'\<lparr>streams := AList.update k d (streams m)\<rparr>)"
proof -
  have "(k', d') \<in> set (AList.update k d xs) \<Longrightarrow> d' = d \<or> (k', d') \<in> set xs" for k' d' and xs :: "(u32 \<times> stream_data) list"
    by (induction xs) (auto split: if_splits)
  with assms show ?thesis by (fastforce simp: recorded_def)
qed

lemma recorded_erase: "recorded c m \<Longrightarrow> recorded c (m'\<lparr>streams := AList.delete k (streams m)\<rparr>)"
  by (auto simp: recorded_def AList.delete_eq)

lemma recording_simps [simp]:
  "recording c (sh\<lparr>os_state := s\<rparr>) = recording c sh" "recording c (sh\<lparr>send_queue_len := n\<rparr>) = recording c sh"
  "recording c (sh\<lparr>pcap_iter := i\<rparr>) = recording c sh" "recording c (sh\<lparr>finished_captures := cs\<rparr>) = recording c sh"
  by (simp_all add: recording_def)

locale unseen_operation =
  fixes f :: "net \<Rightarrow> manager \<times> shared \<Rightarrow> (manager \<times> shared) result"
  assumes unseen: "all_recorded c ms \<Longrightarrow> mirrors (all_recorded c) plain (f net ms) (f net (plain ms))"

lemma refresh_unseen: "recorded c m \<Longrightarrow> mirrors (recorded c) plain_manager (refresh_stream k m) (refresh_stream k (plain_manager m))"
  by (auto simp: refresh_stream_def send_simps plain_assign intro!: recorded_assign dest: recordedD split: option.split)

lemma update_streams_unseen:
  assumes "recorded c m"
  shows "mirrors (recorded c) plain_manager (update_streams sh m) (update_streams (plain_shared sh) (plain_manager m))"
  using assms by (auto simp: update_streams_def intro!: mirrors_efold refresh_unseen)

lemma capture_unseen:
  assumes "recorded c m" and "c" and "map_of (streams m) k \<noteq> None" and "\<And>p. \<exists>p'. g p = Inr p'"
  shows "mirrors (recorded c) plain_manager (capture g k m) (Inr (plain_manager m))"
proof -
  obtain d where d: "map_of (streams m) k = Some d" using assms(3) by auto
  moreover obtain p where p: "ss_pcap d = Some p" using recordedD [OF assms(1,2) d] by blast
  moreover obtain p' where "g p = Inr p'" using assms(4) by blast
  ultimately show ?thesis
    using assms(1) by (auto simp: capture_def plain_capture intro!: recorded_assign)
qed

lemma dummy_writes: "unat n \<le> length b \<Longrightarrow> \<exists>p'. write_dummy_target b n p = Inr p'"
  "unat n \<le> length b \<Longrightarrow> \<exists>p'. write_dummy_user b n p = Inr p'"
  by (simp_all add: write_dummy_target_def write_dummy_user_def write_tcp_def)

lemma unat_of_nat_le: "unat (of_nat n :: size_t) \<le> n"
  by (simp add: unat_of_nat)

lemma send_data_unseen:
  assumes "recorded c m" and "capturing sh = c" and "map_of (streams m) k \<noteq> None"
  shows "mirrors (recorded c) plain_manager (send_data sh k b (of_nat (length b)) m)
    (send_data (plain_shared sh) k b (of_nat (length b)) (plain_manager m))"
proof -
  have 1: "mirrors (recorded c) plain_manager
      (if capturing sh then capture (write_dummy_target b (of_nat (length b))) k m else Inr m) (Inr (plain_manager m))"
    using assms capture_unseen [OF assms(1) _ assms(3)] dummy_writes(1) [OF unat_of_nat_le] by auto
  have 2: "mirrors (recorded c) plain_manager (ebind (wrap PACKET_DATA k b (of_nat (length b))) (\<lambda>f. Inr (ws_send f x)))
      (ebind (wrap PACKET_DATA k b (of_nat (length b))) (\<lambda>f. Inr (ws_send f (plain_manager x))))" if "recorded c x" for x
    using that by (cases "wrap PACKET_DATA k b (of_nat (length b))") (auto simp: ws_send_def recorded_def plain_manager_def)
  have "mirrors (recorded c) plain_manager (send_data sh k b (of_nat (length b)) m)
      (ebind (Inr (plain_manager m)) (\<lambda>m. ebind (wrap PACKET_DATA k b (of_nat (length b))) (\<lambda>f. Inr (ws_send f m))))"
    unfolding send_data_def using 1 2 by (rule mirrors_ebind)
  then show ?thesis by (simp add: send_data_def)
qed

lemma close_stream_unseen:
  assumes "all_recorded c ms"
  shows "mirrors (all_recorded c) plain (close_stream k remove_poll ms) (close_stream k remove_poll (plain ms))"
proof -
  obtain m sh where ms: "ms = (m, sh)" by fastforce
  show ?thesis
  proof (cases "map_of (streams m) k")
    case None
    then show ?thesis by (simp add: ms close_stream_def send_simps)
  next
    case (Some d)
    obtain cs where "(if capturing sh then
          (case ss_pcap d of None \<Rightarrow> Inl Null_capture | Some p \<Rightarrow> Inr (finished_captures sh @ [PcapInterface_destroy p]))
        else Inr (finished_captures sh)) = Inr cs"
      using assms recordedD [of c m k d] Some by (auto simp: ms all_recorded_def recording_def)
    with Some assms show ?thesis
      by (simp add: ms close_stream_def send_simps Let_def all_recorded_def plain_erase recorded_erase del: plain_shared_simps(7))
  qed
qed

lemma force_close_unseen:
  assumes "all_recorded c ms"
  shows "mirrors (all_recorded c) plain (force_close ms) (force_close (plain ms))"
proof -
  obtain m sh where ms: "ms = (m, sh)" by fastforce
  have "mirrors (all_recorded c) plain (efold (\<lambda>id. close_stream id True) ids (m\<lparr>has_backpressure := False\<rparr>, sh))
      (efold (\<lambda>id. close_stream id True) ids (plain (m\<lparr>has_backpressure := False\<rparr>, sh)))" for ids
    by (rule mirrors_efold) (use assms ms close_stream_unseen in \<open>auto simp: all_recorded_def\<close>)
  then show ?thesis by (simp add: ms force_close_def)
qed

lemma handle_data_unseen:
  assumes "all_recorded c (m, sh)" and "readable p"
  shows "mirrors (\<lambda>r. all_recorded c (snd r)) (map_prod id plain) (handle_data p (m, sh)) (handle_data p (plain (m, sh)))"
proof -
  have t: "recording c (sh\<lparr>tasks := tasks sh @ [\<lparr>wt_this = socket_id m, wt_packet = p\<rparr>]\<rparr>)"
    using assms by (auto simp: all_recorded_def recording_def)
  have a: "recorded c (m\<lparr>streams := AList.update (stream_id p) (d\<lparr>ss_buffer := n\<rparr>) (streams m)\<rparr>)"
    if "map_of (streams m) (stream_id p) = Some d" for d n
    using assms(1) that recordedD [of c m "stream_id p" d] by (auto simp: all_recorded_def intro!: recorded_assign)
  show ?thesis
    using assms t a
    by (cases "map_of (streams m) (stream_id p)")
      (auto simp: handle_data_def Let_def send_simps plain_assign all_recorded_def)
qed

lemma handle_connect_unseen:
  assumes "all_recorded c (m, sh)"
  shows "mirrors (\<lambda>r. all_recorded c (snd r)) (map_prod id plain) (handle_connect net now p (m, sh))
    (handle_connect net now p (plain (m, sh)))"
proof (cases "ConnectPacket (data p) (data_len p)")
  case (Inr q)
  show ?thesis
  proof (cases "open_stream (get_conf (conf sh)) net (destination_hostname q) (stream_type q) (destination_port q) (os_state sh)")
    case (Inr r)
    show ?thesis
    proof (cases "fst r")
      case None
      with Inr \<open>ConnectPacket _ _ = _\<close> assms show ?thesis
        by (cases r) (simp add: handle_connect_def all_recorded_def)
    next
      case (Some fa)
      obtain fd ai os1 where r: "r = (Some (fd, ai), os1)" using Some by (cases r; cases fa) simp
      let ?d = "\<lparr>ss_stream_type = stream_type q, ss_id = stream_id p, ss_fd = fd, ss_fd_info = ai,
        ss_buffer = BUFFER_COUNT, ss_pcap_file = [], ss_pcap = None\<rparr>"
      have pl: "plain_stream ?d = ?d" by (simp add: plain_stream_def)
      show ?thesis
      proof (cases "capturing sh")
        case True
        obtain fl cap where o: "open_pcap now (ai_addr ai) (destination_port q) (sh\<lparr>os_state := os1\<rparr>) ?d =
            Inr (?d\<lparr>ss_pcap_file := fl, ss_pcap := Some cap\<rparr>, sh\<lparr>os_state := os1, pcap_iter := pcap_iter sh + 1\<rparr>)"
          using open_pcap_ok [of now "ai_addr ai" "destination_port q" "sh\<lparr>os_state := os1\<rparr>" ?d] by auto
        have "recorded c (m\<lparr>streams := AList.update (stream_id p) (?d\<lparr>ss_pcap_file := fl, ss_pcap := Some cap\<rparr>) (streams m)\<rparr>)"
          using assms by (intro recorded_assign) (simp_all add: all_recorded_def)
        with True Inr r \<open>ConnectPacket _ _ = _\<close> assms o show ?thesis
          using plain_assign [where m = m and k = "stream_id p" and d = "?d\<lparr>ss_pcap_file := fl, ss_pcap := Some cap\<rparr>"]
          by (simp add: handle_connect_def Let_def all_recorded_def plain_stream_def) (simp add: plain_shared_def)
      next
        case False
        then have "recorded c (m\<lparr>streams := AList.update (stream_id p) ?d (streams m)\<rparr>)"
          using assms by (intro recorded_assign) (auto simp: all_recorded_def recording_def recorded_def)
        with False Inr r \<open>ConnectPacket _ _ = _\<close> assms show ?thesis
          using plain_assign [where m = m and k = "stream_id p" and d = ?d]
          by (simp add: handle_connect_def Let_def all_recorded_def pl)
      qed
    qed
  qed (use \<open>ConnectPacket _ _ = _\<close> in \<open>simp add: handle_connect_def\<close>)
qed (simp add: handle_connect_def)

lemma WispPacket_readable: "WispPacket rcv n = Inr p \<Longrightarrow> readable p"
proof -
  assume "WispPacket rcv n = Inr p"
  then have "5 \<le> unat n" "unat n < 2 ^ 63 + 5" "unat n \<le> length rcv" "data_len p = n - 5" "take (unat n) rcv = wisp_image p"
    by (simp_all add: WispPacket_eq_Inr)
  moreover from this have "unat n = 5 + length (data p)"
    by (metis length_take min_absorb2 length_wisp_image)
  ultimately show ?thesis by (simp add: readable_def unat_size_diff)
qed

lemma receive_unseen:
  assumes "all_recorded c ms"
  shows "mirrors (all_recorded c) plain (receive net now rcv n ms) (receive net now rcv n (plain ms))"
proof (cases "WispPacket rcv n")
  case (Inr p)
  obtain m sh where ms: "ms = (m, sh)" by fastforce
  have r: "readable p" using Inr by (rule WispPacket_readable)
  have n: "all_recorded c (noted m, sh)" "all_recorded c (m, sh)" using assms by (simp_all add: ms all_recorded_def)
  let ?reply = "\<lambda>(ret, m, sh). if ret = None then ebind (send_close 0x41 (stream_id p) m) (\<lambda>m. Inr (m, sh)) else Inr (m, sh)"
  have c: "mirrors (all_recorded c) plain (ebind (handle_connect net now p (noted m, sh)) ?reply)
      (ebind (handle_connect net now p (plain (noted m, sh))) ?reply)"
    using handle_connect_unseen [OF n(1)] by (rule mirrors_ebind) (auto simp: send_simps all_recorded_def)
  have d: "mirrors (all_recorded c) plain (ebind (handle_data p (noted m, sh)) (\<lambda>(ret, m, sh). Inr (m, sh)))
      (ebind (handle_data p (plain (noted m, sh))) (\<lambda>(ret, m, sh). Inr (m, sh)))"
    using handle_data_unseen [OF n(1) r] by (rule mirrors_ebind) (auto simp: all_recorded_def)
  have e: "receive net now rcv n (m, sh) = (if packet_type p = PACKET_INFO then Inr (m, sh)
     else if packet_type p = PACKET_CONNECT then ebind (handle_connect net now p (noted m, sh)) ?reply
     else if packet_type p = PACKET_DATA then ebind (handle_data p (noted m, sh)) (\<lambda>(ret, m, sh). Inr (m, sh))
     else Inr (noted m, sh))" for m sh
    using Inr unfolding receive_def by (simp add: noted_def Let_def cong: if_cong)
  show ?thesis
    using c d n by (simp add: ms e)
qed (simp add: receive_def)

lemma task_round_unseen:
  assumes "all_recorded c ms" and "readable p"
  shows "mirrors (\<lambda>r. all_recorded c (snd r)) (map_prod id plain) (task_round a p ms) (task_round a p (plain ms))"
proof -
  obtain m sh where ms: "ms = (m, sh)" by fastforce
  show ?thesis
  proof (cases "map_of (streams m) (stream_id p)")
    case (Some d)
    let ?after = "\<lambda>m. case a of
                 Poll_failed \<Rightarrow> Inr (False, m, sh)
               | Write_took k \<Rightarrow> Inr (False, m, sh\<lparr>os_state := sys (Sys_write (ss_fd d)
                     (take k (take (unat (data_len p)) (data p)))) (os_state sh)\<rparr>)
               | Write_again \<Rightarrow> Inr (True, m, sh)
               | Write_failed \<Rightarrow> Inr (False, m, sh)"
    let ?after' = "\<lambda>m. case a of
                 Poll_failed \<Rightarrow> Inr (False, m, plain_shared sh)
               | Write_took k \<Rightarrow> Inr (False, m, (plain_shared sh)\<lparr>os_state := sys (Sys_write (ss_fd d)
                     (take k (take (unat (data_len p)) (data p)))) (os_state sh)\<rparr>)
               | Write_again \<Rightarrow> Inr (True, m, plain_shared sh)
               | Write_failed \<Rightarrow> Inr (False, m, plain_shared sh)"
    have rec: "recorded c m" "recording c sh" using assms(1) by (simp_all add: ms all_recorded_def)
    have "mirrors (recorded c) plain_manager
        (if capturing sh then capture (write_dummy_user (data p) (data_len p)) (stream_id p) m else Inr m)
        (Inr (plain_manager m))"
      using capture_unseen [OF rec(1) _ _ dummy_writes(2)] rec Some assms(2) by (auto simp: recording_def readable_def)
    then have "mirrors (\<lambda>r. all_recorded c (snd r)) (map_prod id plain)
        (ebind (if capturing sh then capture (write_dummy_user (data p) (data_len p)) (stream_id p) m else Inr m) ?after)
        (ebind (Inr (plain_manager m)) ?after')"
      by (rule mirrors_ebind) (use rec in \<open>auto simp: all_recorded_def split: write_answer.split\<close>)
    moreover have "task_round a p ms = ebind
        (if capturing sh then capture (write_dummy_user (data p) (data_len p)) (stream_id p) m else Inr m) ?after"
      using Some by (simp add: ms task_round_def)
    moreover have "task_round a p (plain ms) = ebind (Inr (plain_manager m)) ?after'"
      using Some by (cases a) (simp_all add: ms task_round_def)
    ultimately show ?thesis by (simp only:)
  qed (simp add: ms task_round_def)
qed

lemma run_task_unseen:
  assumes "all_recorded c ms" and "readable p"
  shows "mirrors (pred_option (all_recorded c)) (map_option plain) (run_task as p ms) (run_task as p (plain ms))"
  using assms(1)
proof (induction as arbitrary: ms)
  case (Cons a as)
  have "mirrors (pred_option (all_recorded c)) (map_option plain) (run_task as p (m, sh))
      (run_task as p (plain_manager m, plain_shared sh))" if "all_recorded c (m, sh)" for m sh
    using Cons.IH [OF that] by simp
  then show ?case
    unfolding run_task.simps
    by (intro mirrors_ebind [OF task_round_unseen [OF Cons.prems assms(2)]]) auto
qed simp

interpretation receive_unseen: unseen_operation "\<lambda>net. receive net now rcv n" for now rcv n
  by unfold_locales (rule receive_unseen)

interpretation close_unseen: unseen_operation "\<lambda>net. close_stream sid remove_poll" for sid remove_poll
  by unfold_locales (rule close_stream_unseen)

interpretation force_close_unseen: unseen_operation "\<lambda>net. force_close"
  by unfold_locales (rule force_close_unseen)

interpretation refresh_unseen: unseen_operation
  "\<lambda>net (m, sh). ebind (update_streams sh m) (\<lambda>m'. Inr (m', sh))"
proof unfold_locales
  fix c ms net
  assume "all_recorded c ms"
  then show "mirrors (all_recorded c) plain ((\<lambda>(m, sh). ebind (update_streams sh m) (\<lambda>m'. Inr (m', sh))) ms)
      ((\<lambda>(m, sh). ebind (update_streams sh m) (\<lambda>m'. Inr (m', sh))) (plain ms))"
    by (cases ms) (auto simp: all_recorded_def intro!: mirrors_ebind [OF update_streams_unseen])
qed

interpretation drain_unseen: unseen_operation
  "\<lambda>net (m, sh). ebind (update_streams sh (m\<lparr>has_backpressure := False\<rparr>)) (\<lambda>m'.
     Inr (m', sh\<lparr>os_state := wake (os_state sh)\<rparr>))"
proof unfold_locales
  fix c ms net
  assume "all_recorded c ms"
  then show "mirrors (all_recorded c) plain
      ((\<lambda>(m, sh). ebind (update_streams sh (m\<lparr>has_backpressure := False\<rparr>)) (\<lambda>m'. Inr (m', sh\<lparr>os_state := wake (os_state sh)\<rparr>))) ms)
      ((\<lambda>(m, sh). ebind (update_streams sh (m\<lparr>has_backpressure := False\<rparr>)) (\<lambda>m'. Inr (m', sh\<lparr>os_state := wake (os_state sh)\<rparr>)))
        (plain ms))"
    by (cases ms) (auto simp: all_recorded_def intro!: mirrors_ebind [OF update_streams_unseen])
qed

section \<open>The server\<close>

definition world_recorded :: "bool \<Rightarrow> world \<Rightarrow> bool" where
  "world_recorded c w \<longleftrightarrow> (\<forall>(wid, m) \<in> set (watched w). recorded c m) \<and> recording c (common w) \<and>
     (\<forall>t \<in> set (running w). readable (wt_packet t))"

lemma plain_world_simps [simp]:
  "ready (plain_world w) = ready w" "deferreds (plain_world w) = deferreds w" "running (plain_world w) = running w"
  "executed (plain_world w) = executed w" "next_id (plain_world w) = next_id w" "workers (plain_world w) = workers w"
  "common (plain_world w) = plain_shared (common w)" "map fst (watched (plain_world w)) = map fst (watched w)"
  "map_of (watched (plain_world w)) wid = map_option plain_manager (map_of (watched w) wid)"
  "(plain_world w)\<lparr>ready := rs\<rparr> = plain_world (w\<lparr>ready := rs\<rparr>)"
  "(plain_world w)\<lparr>deferreds := dfs\<rparr> = plain_world (w\<lparr>deferreds := dfs\<rparr>)"
  "(plain_world w)\<lparr>next_id := i\<rparr> = plain_world (w\<lparr>next_id := i\<rparr>)"
  "(plain_world w)\<lparr>common := plain_shared sh\<rparr> = plain_world (w\<lparr>common := sh\<rparr>)"
  "(plain_world w)\<lparr>running := ts\<rparr> = plain_world (w\<lparr>running := ts\<rparr>)"
  "(plain_world w)\<lparr>executed := ts\<rparr> = plain_world (w\<lparr>executed := ts\<rparr>)"
  by (simp_all add: plain_world_def map_of_entries)

lemma plain_world_assign [simp]:
  "(plain_world w)\<lparr>watched := AList.update wid (plain_manager m) (watched (plain_world w))\<rparr> =
     plain_world (w\<lparr>watched := AList.update wid m (watched w)\<rparr>)"
  "(plain_world w)\<lparr>watched := AList.delete wid (watched (plain_world w))\<rparr> =
     plain_world (w\<lparr>watched := AList.delete wid (watched w)\<rparr>)"
  by (simp_all add: plain_world_def update_entries delete_entries)

lemma world_recorded_simps [simp]:
  "world_recorded c (w\<lparr>ready := rs\<rparr>) = world_recorded c w" "world_recorded c (w\<lparr>deferreds := dfs\<rparr>) = world_recorded c w"
  "world_recorded c (w\<lparr>next_id := i\<rparr>) = world_recorded c w"
  by (simp_all add: world_recorded_def)

lemma world_recorded_assign:
  assumes "world_recorded c w" and "all_recorded c (m, sh)"
  shows "world_recorded c (w\<lparr>watched := AList.update wid m (watched w), common := sh\<rparr>)"
proof -
  have "(wid', m') \<in> set (AList.update wid m xs) \<Longrightarrow> m' = m \<or> (wid', m') \<in> set xs" for wid' m' and xs :: "(size_t \<times> manager) list"
    by (induction xs) (auto split: if_splits)
  with assms show ?thesis by (fastforce simp: world_recorded_def all_recorded_def)
qed

lemma world_recordedD: "world_recorded c w \<Longrightarrow> map_of (watched w) wid = Some m \<Longrightarrow> all_recorded c (m, common w)"
  by (auto simp: world_recorded_def all_recorded_def dest: map_of_SomeD)

context unseen_operation
begin

lemma on_manager_unseen:
  assumes "world_recorded c w"
  shows "mirrors (world_recorded c) plain_world (on_manager wid (f net) w) (on_manager wid (f net) (plain_world w))"
proof (cases "map_of (watched w) wid")
  case (Some m)
  have "mirrors (world_recorded c) plain_world
      (ebind (f net (m, common w)) (\<lambda>(m', sh'). Inr (w\<lparr>watched := AList.update wid m' (watched w), common := sh'\<rparr>)))
      (ebind (f net (plain (m, common w))) (\<lambda>(m', sh').
        Inr ((plain_world w)\<lparr>watched := AList.update wid m' (watched (plain_world w)), common := sh'\<rparr>)))"
    using unseen [OF world_recordedD [OF assms Some]]
    by (rule mirrors_ebind) (auto intro: world_recorded_assign [OF assms])
  with Some show ?thesis by (simp add: on_manager_def)
qed (use assms in \<open>simp add: on_manager_def\<close>)

end

lemma forward_stream_unseen:
  assumes "recorded c (fst mf)" and "capturing sh = c"
  shows "mirrors (\<lambda>r. recorded c (fst r)) (map_prod plain_manager id) (forward_stream sh status wid df k mf)
    (forward_stream (plain_shared sh) status wid df k (map_prod plain_manager id mf))"
proof -
  obtain m found where mf: "mf = (m, found)" by fastforce
  show ?thesis
  proof (cases "map_of (streams m) k")
    case (Some d)
    let ?next = "\<lambda>m'. Inr (case status wid k of BACKPRESSURE \<Rightarrow> m'\<lparr>has_backpressure := True\<rparr> | SUCCESS \<Rightarrow> m'
      | DROPPED \<Rightarrow> m'\<lparr>sent := sent m\<rparr>, Some (wid, k))"
    have "recorded c m" "map_of (streams m) k \<noteq> None" using assms(1) Some by (simp_all add: mf)
    then have "mirrors (\<lambda>r. recorded c (fst r)) (map_prod plain_manager id)
        (ebind (send_data sh k (df_buffer df) (of_nat (length (df_buffer df))) m) ?next)
        (ebind (send_data (plain_shared sh) k (df_buffer df) (of_nat (length (df_buffer df))) (plain_manager m)) ?next)"
      by (intro mirrors_ebind [OF send_data_unseen]) (use assms(2) in \<open>auto split: send_status.split\<close>)
    with Some assms(1) show ?thesis by (auto simp: mf forward_stream_def cong: send_status.case_cong)
  qed (use assms(1) in \<open>simp add: mf forward_stream_def\<close>)
qed

lemma forward_manager_unseen:
  assumes "world_recorded c (fst wd)"
  shows "mirrors (\<lambda>r. world_recorded c (fst r)) (map_prod plain_world id) (forward_manager status df wid wd)
    (forward_manager status df wid (map_prod plain_world id wd))"
proof -
  obtain w found where wd: "wd = (w, found)" by fastforce
  show ?thesis
  proof (cases "map_of (watched w) wid")
    case (Some m)
    let ?next = "\<lambda>w (m', found'). Inr (w\<lparr>watched := AList.update wid m' (watched w)\<rparr>, found')"
    have rec: "recorded c m" "capturing (common w) = c" "recording c (common w)"
      using world_recordedD [OF _ Some] assms by (simp_all add: wd all_recorded_def recording_def)
    have s: "world_recorded c (w\<lparr>watched := AList.update wid m' (watched w)\<rparr>)" if "recorded c m'" for m'
      using world_recorded_assign [of c w m' "common w" wid] that rec(3) assms by (simp add: wd all_recorded_def)
    have "mirrors (\<lambda>r. recorded c (fst r)) (map_prod plain_manager id)
        (efold (forward_stream (common w) status wid df) (map fst (streams m)) (m, found))
        (efold (forward_stream (plain_shared (common w)) status wid df) (map fst (streams m)) (map_prod plain_manager id (m, found)))"
      using rec by (intro mirrors_efold forward_stream_unseen) simp_all
    then have "mirrors (\<lambda>r. world_recorded c (fst r)) (map_prod plain_world id)
        (ebind (efold (forward_stream (common w) status wid df) (map fst (streams m)) (m, found)) (?next w))
        (ebind (efold (forward_stream (plain_shared (common w)) status wid df) (map fst (streams m))
          (map_prod plain_manager id (m, found))) (?next (plain_world w)))"
      by (rule mirrors_ebind) (auto intro: s)
    with Some show ?thesis by (simp add: wd forward_manager_def)
  qed (use assms in \<open>simp add: wd forward_manager_def\<close>)
qed

lemma deliver_unseen:
  assumes "world_recorded c w"
  shows "mirrors (world_recorded c) plain_world (deliver status df w) (deliver status df (plain_world w))"
proof -
  let ?close = "\<lambda>(w, found). case found of
      Some (wid, k) \<Rightarrow> if df_to_close df then on_manager wid (close_stream k False) w else Inr w
    | None \<Rightarrow> Inr w"
  let ?refresh = "\<lambda>w. let w = w\<lparr>common := (common w)\<lparr>send_queue_len := send_queue_len (common w) - 1\<rparr>\<rparr>
       in if send_queue_len (common w) < MAX_QUEUE then efold refresh_manager (map fst (watched w)) w else Inr w"
  have split: "deliver status df w =
      ebind (ebind (efold (forward_manager status df) (map fst (watched w)) (w, None)) ?close) ?refresh" for w
    by (simp add: deliver_def ebind_assoc split_beta' cong: option.case_cong)
  have 1: "mirrors (\<lambda>r. world_recorded c (fst r)) (map_prod plain_world id)
      (efold (forward_manager status df) wids (w, None))
      (efold (forward_manager status df) wids (map_prod plain_world id (w, None)))" for wids
    using assms by (intro mirrors_efold forward_manager_unseen) simp_all
  have 2: "mirrors (world_recorded c) plain_world (?close wd) (?close (map_prod plain_world id wd))" if "world_recorded c (fst wd)" for wd
    using that close_unseen.on_manager_unseen by (cases wd) (auto split: option.split)
  have 3: "mirrors (world_recorded c) plain_world (efold refresh_manager wids w) (efold refresh_manager wids (plain_world w))"
    if "world_recorded c w" for w wids
    using that by (rule mirrors_efold) (use refresh_unseen.on_manager_unseen in \<open>simp add: refresh_manager_def\<close>)
  have 4: "mirrors (world_recorded c) plain_world (?refresh w) (?refresh (plain_world w))" if "world_recorded c w" for w
  proof -
    have "world_recorded c (w\<lparr>common := (common w)\<lparr>send_queue_len := n\<rparr>\<rparr>)" for n
      using that by (simp add: world_recorded_def)
    then show ?thesis by (auto simp: Let_def intro: 3)
  qed
  have "mirrors (world_recorded c) plain_world
      (ebind (efold (forward_manager status df) wids (w, None)) ?close)
      (ebind (efold (forward_manager status df) wids (map_prod plain_world id (w, None))) ?close)" for wids
    using 1 2 by (rule mirrors_ebind)
  from this 4 have "mirrors (world_recorded c) plain_world
      (ebind (ebind (efold (forward_manager status df) (map fst (watched w)) (w, None)) ?close) ?refresh)
      (ebind (ebind (efold (forward_manager status df) (map fst (watched w)) (map_prod plain_world id (w, None))) ?close) ?refresh)"
    by (rule mirrors_ebind)
  then show ?thesis unfolding split by simp
qed

lemma run_running_unseen:
  assumes "world_recorded c w"
  shows "mirrors (world_recorded c) plain_world (run_running i as w) (run_running i as (plain_world w))"
proof (cases "i < length (running w)")
  case True
  let ?t = "running w ! i"
  have t: "readable (wt_packet ?t)" using True assms by (simp add: world_recorded_def)
  show ?thesis
  proof (cases "map_of (watched w) (wt_this ?t)")
    case (Some m)
    let ?next = "\<lambda>w r. case r of
                   None \<Rightarrow> Inr w
                 | Some (m', sh') \<Rightarrow>
                     Inr (w\<lparr>watched := AList.update (wt_this ?t) m' (watched w), common := sh',
                            running := take i (running w) @ drop (Suc i) (running w),
                            executed := executed w @ [?t]\<rparr>)"
    have s: "world_recorded c (w\<lparr>watched := AList.update (wt_this ?t) m' (watched w), common := sh',
        running := take i (running w) @ drop (Suc i) (running w), executed := executed w @ [?t]\<rparr>)"
      if "all_recorded c (m', sh')" for m' sh'
      using world_recorded_assign [OF assms that, of "wt_this ?t"] assms
      by (auto simp: world_recorded_def dest: in_set_takeD in_set_dropD)
    have "mirrors (world_recorded c) plain_world
        (ebind (run_task as (wt_packet ?t) (m, common w)) (?next w))
        (ebind (run_task as (wt_packet ?t) (plain (m, common w))) (?next (plain_world w)))"
      by (rule mirrors_ebind [OF run_task_unseen [OF world_recordedD [OF assms Some] t]])
        (use assms s in \<open>auto split: option.split\<close>)
    with True Some show ?thesis by (simp add: run_running_def Let_def cong: option.case_cong)
  qed (use True in \<open>simp add: run_running_def\<close>)
qed (use assms in \<open>simp add: run_running_def\<close>)

lemma step_unseen:
  assumes "world_recorded c w"
  shows "mirrors (world_recorded c) plain_world (step net e w) (step net e (plain_world w))"
proof (cases e)
  case Open
  obtain m where m: "WebSocketManager (next_id w) = Inr m" "streams m = []"
    by (auto simp: WebSocketManager_def send_simps)
  then have "plain_manager m = m" by (simp add: plain_manager_def)
  moreover have "world_recorded c (w\<lparr>watched := AList.update (next_id w) m (watched w)\<rparr>)"
    using world_recorded_assign [OF assms, of m "common w" "next_id w"] assms m(2)
    by (simp add: all_recorded_def recorded_def world_recorded_def)
  ultimately show ?thesis
    using Open m(1) plain_world_assign(1) [where w = w and wid = "next_id w" and m = m] plain_world_simps(12)
    by (simp add: open_socket_def del: plain_world_assign)
next
  case (Message wid now rcv n)
  with assms receive_unseen.on_manager_unseen show ?thesis by simp
next
  case (Drain wid)
  with assms drain_unseen.on_manager_unseen show ?thesis by (simp add: drain_socket_def)
next
  case (Close wid)
  have "world_recorded c (w\<lparr>watched := AList.delete wid (watched w)\<rparr>)" if "world_recorded c w" for w
    using that by (auto simp: world_recorded_def AList.delete_eq)
  with Close assms show ?thesis
    by (auto simp: close_socket_def intro!: mirrors_ebind [OF force_close_unseen.on_manager_unseen])
next
  case (Watch as)
  with assms show ?thesis
    by (auto simp: watch_event_def Let_def world_recorded_def split: list.split option.split)
next
  case (Deliver status)
  with assms deliver_unseen show ?thesis by (simp split: list.split)
next
  case Dequeue
  with assms show ?thesis
    by (auto simp: dequeue_def world_recorded_def recording_def split: list.split)
next
  case (Run i as)
  with assms run_running_unseen show ?thesis by simp
qed (use assms in simp)

section \<open>Runs\<close>

lemma world_recorded_initial: "world_recorded (capturing (common (initial_world c pcap n os))) (initial_world c pcap n os)"
  by (simp add: world_recorded_def recording_def initial_world_def)

lemma plain_initial: "plain_world (initial_world c pcap n os) = initial_world c False n os"
  by (simp add: plain_world_def initial_world_def plain_shared_def)

lemma run_unseen:
  "world_recorded c w \<Longrightarrow> mirrors (world_recorded c) plain_world (run_events net es w) (run_events net es (plain_world w))"
  unfolding run_events_def by (rule mirrors_efold) (auto intro: step_unseen)

text \<open>
  Capturing is invisible in the data: for every run from the start, whatever the clients, the
  targets and the pool do, the server of a build that captures does what the server of a build
  that does not capture does: the same messages, the same calls of the operating system, the
  same tasks, and none of its faults are from the data of the captures. This does not speak
  of the locks, where the two builds differ: only a build that captures locks what it holds
  already, in every delivery to a stream (\<open>capture_relocks\<close> in theory Locks).
\<close>
theorem captures_invisible:
  "case run_events net es (initial_world c True n os) of
     Inl f \<Rightarrow> run_events net es (initial_world c False n os) = Inl f
   | Inr w \<Rightarrow> run_events net es (initial_world c False n os) = Inr (plain_world w)"
  using run_unseen [OF world_recorded_initial [of c True n os], of net es]
  unfolding plain_initial mirrors_def by (auto split: sum.splits)

end
