(* ===== verification/Credits.thy ===== *)
theory Credits
  imports EndToEnd
begin

text \<open>
  Flow control seen from both ends. The server counts the credit of a stream in
  \<open>SocketStreamData::buffer\<close>; the client knows only what it has sent and the CONTINUE packets
  it has received. Over every run of the server the two agree.
\<close>

section \<open>The client's account\<close>

text \<open>What the client of a TCP stream observes: that it sends a DATA packet, and the frames it gets.\<close>

datatype observation = Spend | Hear buffer

definition announced :: "u32 \<Rightarrow> buffer \<Rightarrow> u32 option" where
  "announced k f = (case WispPacket f (of_nat (length f)) of
      Inl e \<Rightarrow> None
    | Inr p \<Rightarrow> if packet_type p = PACKET_CONTINUE \<and> stream_id p = k
        then (case ContinuePacket (data p) (data_len p) of Inl e \<Rightarrow> None | Inr c \<Rightarrow> Some (buffer_remaining c))
        else None)"

fun account :: "u32 \<Rightarrow> observation \<Rightarrow> u32 \<Rightarrow> u32" where
  "account k Spend c = c - 1"
| "account k (Hear f) c = (case announced k f of None \<Rightarrow> c | Some n \<Rightarrow> n)"

definition client_credit :: "u32 \<Rightarrow> observation list \<Rightarrow> u32 \<Rightarrow> u32" where
  "client_credit k os c = fold (account k) os c"

lemma client_credit_simps [simp]:
  "client_credit k [] c = c" "client_credit k (o1 # os) c = client_credit k os (account k o1 c)"
  "client_credit k (os @ os') c = client_credit k os' (client_credit k os c)"
  by (simp_all add: client_credit_def)

definition sends_data :: "size_t \<Rightarrow> u32 \<Rightarrow> event \<Rightarrow> bool" where
  "sends_data wid k e = (case e of
      Message wid' now rcv n \<Rightarrow> wid' = wid \<and> (case WispPacket rcv n of
          Inl e \<Rightarrow> False | Inr p \<Rightarrow> packet_type p = PACKET_DATA \<and> stream_id p = k)
    | _ \<Rightarrow> False)"

definition reconnects :: "size_t \<Rightarrow> u32 \<Rightarrow> event \<Rightarrow> bool" where
  "reconnects wid k e = (case e of
      Message wid' now rcv n \<Rightarrow> wid' = wid \<and> (case WispPacket rcv n of
          Inl e \<Rightarrow> False | Inr p \<Rightarrow> packet_type p = PACKET_CONNECT \<and> stream_id p = k)
    | _ \<Rightarrow> False)"

definition observed :: "net \<Rightarrow> size_t \<Rightarrow> u32 \<Rightarrow> event \<Rightarrow> world \<Rightarrow> observation list" where
  "observed net wid k e w =
     (if sends_data wid k e then [Spend] else []) @
     continue_with [] (step net e w) (\<lambda>w'. map Hear (drop (length (sent_to wid w)) (sent_to wid w')))"

section \<open>Frames\<close>

lemma announced_frame:
  assumes "5 + length b < 2 ^ 63"
  shows "announced k (frame t k' b) = (if t = PACKET_CONTINUE \<and> k' = k
    then (case ContinuePacket b (of_nat (length b)) of Inl e \<Rightarrow> None | Inr c \<Rightarrow> Some (buffer_remaining c)) else None)"
proof -
  have "WispPacket (frame t k' b @ []) (of_nat (5 + length b)) = Inr (packet_of t k' b)"
    unfolding packet_of_def using assms by (rule WispPacket_frame)
  then show ?thesis by (simp add: announced_def)
qed

lemma announced_control [simp]:
  "announced k (continue_frame n k') = (if k' = k then Some n else None)"
  "announced k (close_frame r k') = None"
proof -
  have "ContinuePacket (map Some (u32_bytes n)) 4 = Inr \<lparr>buffer_remaining = n\<rparr>"
    by (auto simp: ContinuePacket_def ebind_eq_Inr load_u32_eq_Inr)
  then show "announced k (continue_frame n k') = (if k' = k then Some n else None)"
    by (simp add: announced_frame)
  show "announced k (close_frame r k') = None" by (simp add: announced_frame packet_types)
qed

lemma announced_data: "5 + length b < 2 ^ 63 \<Longrightarrow> announced k (data_frame k' b) = None"
  by (simp add: announced_frame packet_types)

section \<open>Operations on a connection\<close>

text \<open>Every CONTINUE of the server announces a full credit.\<close>

definition grants :: "u32 \<Rightarrow> buffer \<Rightarrow> bool" where
  "grants k f \<longleftrightarrow> announced k f = None \<or> announced k f = Some BUFFER_COUNT"

lemma grants_control [simp]: "grants k (continue_frame BUFFER_COUNT k')" "grants k (close_frame r k')"
  by (simp_all add: grants_def)

text \<open>
  The counter of the stream \<open>k\<close>, if it still exists, has followed the frames that were sent,
  after \<open>s\<close> packets of the client.
\<close>

definition follows :: "u32 \<Rightarrow> observation list \<Rightarrow> manager \<Rightarrow> manager \<Rightarrow> bool" where
  "follows k spent m m' \<longleftrightarrow> (\<exists>fs. sent m' = sent m @ fs \<and> list_all (grants k) fs \<and>
     (\<forall>d'. map_of (streams m') k = Some d' \<longrightarrow> (\<exists>d. map_of (streams m) k = Some d \<and>
        ss_stream_type d' = ss_stream_type d \<and>
        (ss_stream_type d \<noteq> 2 \<longrightarrow> ss_buffer d' = client_credit k (spent @ map Hear fs) (ss_buffer d)))))"

lemma follows_refl: "follows k [] m m"
  by (simp add: follows_def)

lemma follows_trans:
  assumes "follows k spent m m1" and "follows k [] m1 m2"
  shows "follows k spent m m2"
proof -
  obtain fs where fs: "sent m1 = sent m @ fs" "list_all (grants k) fs"
    "\<And>d'. map_of (streams m1) k = Some d' \<Longrightarrow> \<exists>d. map_of (streams m) k = Some d \<and> ss_stream_type d' = ss_stream_type d \<and>
        (ss_stream_type d \<noteq> 2 \<longrightarrow> ss_buffer d' = client_credit k (spent @ map Hear fs) (ss_buffer d))"
    using assms(1) by (auto simp: follows_def)
  obtain gs where gs: "sent m2 = sent m1 @ gs" "list_all (grants k) gs"
    "\<And>d'. map_of (streams m2) k = Some d' \<Longrightarrow> \<exists>d. map_of (streams m1) k = Some d \<and> ss_stream_type d' = ss_stream_type d \<and>
        (ss_stream_type d \<noteq> 2 \<longrightarrow> ss_buffer d' = client_credit k (map Hear gs) (ss_buffer d))"
    using assms(2) by (auto simp: follows_def)
  have "\<exists>d. map_of (streams m) k = Some d \<and> ss_stream_type d' = ss_stream_type d \<and>
      (ss_stream_type d \<noteq> 2 \<longrightarrow> ss_buffer d' = client_credit k (spent @ map Hear (fs @ gs)) (ss_buffer d))"
    if "map_of (streams m2) k = Some d'" for d'
  proof -
    from gs(3) [OF that] obtain d1 where d1: "map_of (streams m1) k = Some d1" "ss_stream_type d' = ss_stream_type d1"
      "ss_stream_type d1 \<noteq> 2 \<longrightarrow> ss_buffer d' = client_credit k (map Hear gs) (ss_buffer d1)" by blast
    from fs(3) [OF d1(1)] d1(2,3) show ?thesis by auto
  qed
  with fs(1,2) gs(1,2) show ?thesis unfolding follows_def by (intro exI [of _ "fs @ gs"]) simp
qed

text \<open>An operation that changes neither counters nor types and sends frames without credit for \<open>k\<close>.\<close>

lemma follows_quiet:
  assumes "sent m' = sent m @ fs" and "\<And>f. f \<in> set fs \<Longrightarrow> announced k f = None"
    and "\<And>d'. map_of (streams m') k = Some d' \<Longrightarrow> \<exists>d. map_of (streams m) k = Some d \<and>
      ss_stream_type d' = ss_stream_type d \<and> ss_buffer d' = ss_buffer d"
  shows "follows k [] m m'"
proof -
  have "client_credit k (map Hear fs) c = c" for c
    using assms(2) by (induction fs arbitrary: c) simp_all
  moreover have "list_all (grants k) fs" using assms(2) by (auto simp: list_all_iff grants_def)
  ultimately show ?thesis using assms(1,3) unfolding follows_def by (intro exI [of _ fs]) auto
qed

lemma efold_follows:
  assumes "efold f xs m = Inr m'" and "\<And>x m m'. f x m = Inr m' \<Longrightarrow> follows k [] (g m) (g m')"
  shows "follows k [] (g m) (g m')"
  using assms(1) by (rule efold_invariant [where P = "\<lambda>v. follows k [] (g m) (g v)"])
    (use assms(2) follows_refl follows_trans in blast)+

lemma refresh_follows: "refresh_stream k' m = Inr m' \<Longrightarrow> follows k [] m m'"
proof -
  assume "refresh_stream k' m = Inr m'"
  then consider "m' = m" | d where "map_of (streams m) k' = Some d" "m' = emit (continue_frame BUFFER_COUNT k')
      (m\<lparr>streams := AList.update k' (d\<lparr>ss_buffer := BUFFER_COUNT\<rparr>) (streams m)\<rparr>)"
    by (auto simp: refresh_stream_def send_simps split: option.splits if_splits)
  then show ?thesis
  proof cases
    case 2
    then show ?thesis
      unfolding follows_def by (intro exI [of _ "[continue_frame BUFFER_COUNT k']"]) (auto simp: tab.lookup_assign)
  qed (simp add: follows_refl)
qed

lemma flag_follows: "follows k [] m (m\<lparr>has_backpressure := b\<rparr>)" "follows k [] m (noted m)"
  by (auto simp: follows_def noted_def)

lemma update_streams_follows:
  assumes "update_streams sh m = Inr m'"
  shows "follows k [] m m'"
proof (cases "has_backpressure m \<or> MAX_QUEUE < send_queue_len sh")
  case False
  with assms have "efold refresh_stream (map fst (streams m)) m = Inr m'" by (simp add: update_streams_def)
  from efold_follows [OF this, where g = "\<lambda>m. m"] refresh_follows show ?thesis by blast
qed (use assms in \<open>simp add: update_streams_def follows_refl\<close>)

lemma close_stream_follows: "close_stream sid remove_poll ms = Inr ms' \<Longrightarrow> follows k [] (fst ms) (fst ms')"
  by (cases ms; cases ms')
    (auto simp: close_stream_def send_simps ebind_eq_Inr Let_def tab.lookup_erase
      intro!: follows_quiet [where fs = "[close_frame 2 sid]"] split: option.splits if_splits)

lemma force_close_follows:
  assumes "force_close ms = Inr ms'"
  shows "follows k [] (fst ms) (fst ms')"
proof -
  obtain m sh where ms: "ms = (m, sh)" by fastforce
  have "efold (\<lambda>id. close_stream id True) (map fst (streams m)) (m\<lparr>has_backpressure := False\<rparr>, sh) = Inr ms'"
    using assms by (simp add: force_close_def ms)
  from efold_follows [OF this, where g = fst] close_stream_follows
  have "follows k [] (m\<lparr>has_backpressure := False\<rparr>) (fst ms')" by fastforce
  with flag_follows(1) show ?thesis unfolding ms by (auto intro: follows_trans)
qed

lemma capture_follows:
  assumes "capture f sid m = Inr m'"
  shows "follows k [] m m'"
  using assms by (auto simp: capture_def ebind_eq_Inr tab.lookup_assign intro!: follows_quiet [where fs = "[]"] split: option.splits if_splits)

lemma send_data_follows:
  assumes "send_data sh sid b (of_nat (length b)) m = Inr m'" and "5 + length b < 2 ^ 63"
  shows "follows k [] m m'" and "follows k [] m (m'\<lparr>sent := sent m\<rparr>)"
proof -
  have u: "unat (of_nat (length b) :: size_t) = length b" using assms(2) by (intro unat_of_size) simp
  obtain m1 where m1: "(if capturing sh then capture (write_dummy_target b (of_nat (length b))) sid m else Inr m) = Inr m1"
    and m': "m' = emit (data_frame sid b) m1"
    using assms u by (auto simp: send_data_def ebind_eq_Inr wrap_frame ws_send_frame)
  have f: "follows k [] m m1" using m1 by (auto simp: follows_refl capture_follows split: if_splits)
  moreover have "follows k [] m1 m'"
    unfolding m' by (rule follows_quiet [where fs = "[data_frame sid b]"]) (use assms(2) in \<open>auto simp: announced_data\<close>)
  ultimately show "follows k [] m m'" by (rule follows_trans)
  have "sent m1 = sent m" using m1 by (auto simp: capture_def ebind_eq_Inr split: if_splits option.splits)
  with f show "follows k [] m (m'\<lparr>sent := sent m\<rparr>)" unfolding m' by (auto simp: follows_def)
qed

lemma handle_data_follows:
  assumes "handle_data p (m, sh) = Inr (r, m', sh')"
  shows "follows k (if stream_id p = k then [Spend] else []) m m'"
proof (cases "map_of (streams m) (stream_id p)")
  case None
  with assms have "m' = m" by (simp add: handle_data_def)
  with None show ?thesis by (auto simp: follows_def)
next
  case (Some d)
  let ?k = "stream_id p" and ?b = "ss_buffer d - 1"
  from assms Some consider
    (udp) "ss_stream_type d = 2" "m' = m"
  | (refresh) "ss_stream_type d \<noteq> 2" "m' = emit (continue_frame BUFFER_COUNT ?k)
        (m\<lparr>streams := AList.update ?k (d\<lparr>ss_buffer := BUFFER_COUNT\<rparr>) (streams m)\<rparr>)"
  | (spend) "ss_stream_type d \<noteq> 2" "m' = m\<lparr>streams := AList.update ?k (d\<lparr>ss_buffer := ?b\<rparr>) (streams m)\<rparr>"
    by (auto simp: handle_data_def Let_def send_simps split: if_splits)
  then show ?thesis
  proof cases
    case udp
    with Some show ?thesis unfolding follows_def by (intro exI [of _ "[]"]) auto
  next
    case refresh
    with Some show ?thesis unfolding follows_def
      by (intro exI [of _ "[continue_frame BUFFER_COUNT ?k]"]) (auto simp: tab.lookup_assign)
  next
    case spend
    with Some show ?thesis unfolding follows_def by (intro exI [of _ "[]"]) (auto simp: tab.lookup_assign)
  qed
qed

lemma handle_connect_follows:
  assumes "handle_connect net now p (m, sh) = Inr (r, m', sh')" and "stream_id p \<noteq> k"
  shows "follows k [] m m'"
proof -
  obtain c where c: "ConnectPacket (data p) (data_len p) = Inr c"
    using assms(1) by (auto simp: handle_connect_def ebind_eq_Inr)
  obtain con os1 where o: "open_stream (get_conf (conf sh)) net (destination_hostname c) (stream_type c)
      (destination_port c) (os_state sh) = Inr (con, os1)"
    using assms(1) c by (auto simp: handle_connect_def ebind_eq_Inr)
  have "m' = m \<or> (\<exists>d. m' = m\<lparr>streams := AList.update (stream_id p) d (streams m)\<rparr>)"
  proof (cases con)
    case None
    with assms(1) c o show ?thesis by (simp add: handle_connect_def)
  next
    case (Some q)
    with assms(1) c o show ?thesis
      by (cases q; cases "capturing sh") (auto simp: handle_connect_def ebind_eq_Inr Let_def)
  qed
  with assms(2) show ?thesis
    by (auto simp: tab.lookup_assign follows_refl intro!: follows_quiet [where fs = "[]"])
qed

lemma receive_follows:
  assumes "receive net now rcv n (m, sh) = Inr (m', sh')" and "\<not> reconnects wid k (Message wid now rcv n)"
  shows "follows k (if sends_data wid k (Message wid now rcv n) then [Spend] else []) m m'"
proof -
  obtain p where p: "WispPacket rcv n = Inr p" using assms by (auto simp: receive_def ebind_eq_Inr)
  have r: "(if packet_type p = PACKET_INFO then Inr (m, sh)
     else if packet_type p = PACKET_CONNECT then
       ebind (handle_connect net now p (noted m, sh)) (\<lambda>(ret, m, sh).
         if ret = None then ebind (send_close 0x41 (stream_id p) m) (\<lambda>m. Inr (m, sh)) else Inr (m, sh))
     else if packet_type p = PACKET_DATA then ebind (handle_data p (noted m, sh)) (\<lambda>(ret, m, sh). Inr (m, sh))
     else Inr (noted m, sh)) = Inr (m', sh')"
    using assms p unfolding receive_def by (simp add: noted_def Let_def cong: if_cong)
  have s: "sends_data wid k (Message wid now rcv n) \<longleftrightarrow> packet_type p = PACKET_DATA \<and> stream_id p = k"
    "packet_type p = PACKET_CONNECT \<Longrightarrow> stream_id p \<noteq> k"
    using assms(2) p by (simp_all add: sends_data_def reconnects_def)
  have noted: "follows k spent m u" if "follows k spent (noted m) u" for spent u
    using that by (simp add: follows_def)
  consider (data) "packet_type p = PACKET_DATA" | (connect) "packet_type p = PACKET_CONNECT"
    | (other) "packet_type p \<noteq> PACKET_DATA" "packet_type p \<noteq> PACKET_CONNECT" by blast
  then show ?thesis
  proof cases
    case data
    with r have "ebind (handle_data p (noted m, sh)) (\<lambda>(ret, m, sh). Inr (m, sh)) = Inr (m', sh')"
      by (simp add: packet_types)
    then obtain ret where "handle_data p (noted m, sh) = Inr (ret, m', sh')" by (auto simp: ebind_eq_Inr)
    from noted [OF handle_data_follows [OF this, of k]] data s(1) show ?thesis by simp
  next
    case connect
    with r have "ebind (handle_connect net now p (noted m, sh)) (\<lambda>(ret, m, sh).
        if ret = None then ebind (send_close 0x41 (stream_id p) m) (\<lambda>m. Inr (m, sh)) else Inr (m, sh)) = Inr (m', sh')"
      by (simp add: packet_types)
    then obtain ret m1 where h: "handle_connect net now p (noted m, sh) = Inr (ret, m1, sh')"
      and m': "m' = m1 \<or> m' = emit (close_frame 0x41 (stream_id p)) m1"
      by (auto simp: ebind_eq_Inr send_simps split: if_splits)
    have "follows k [] m1 m'"
      using m'
    proof
      assume "m' = emit (close_frame 0x41 (stream_id p)) m1"
      then show ?thesis by (intro follows_quiet [where fs = "[close_frame 0x41 (stream_id p)]"]) auto
    qed (simp add: follows_refl)
    with handle_connect_follows [OF h s(2) [OF connect]] have "follows k [] (noted m) m'" by (rule follows_trans)
    with connect s(1) noted show ?thesis by (simp add: packet_types)
  next
    case other
    with r have "m' = m \<or> m' = noted m" by (auto split: if_splits)
    with other s(1) show ?thesis by (auto simp: follows_refl flag_follows)
  qed
qed

lemma task_round_follows: "task_round a p ms = Inr (again, ms') \<Longrightarrow> follows k [] (fst ms) (fst ms')"
  by (cases ms, cases a)
    (auto simp: task_round_def ebind_eq_Inr follows_refl capture_follows split: option.splits if_splits)

lemma run_task_follows: "run_task as p (m, sh) = Inr (Some (m', sh')) \<Longrightarrow> follows k [] m m'"
proof (induction as arbitrary: m sh)
  case (Cons a as)
  then obtain again m1 sh1 where r: "task_round a p (m, sh) = Inr (again, m1, sh1)"
    "(if again then run_task as p (m1, sh1) else Inr (Some (m1, sh1))) = Inr (Some (m', sh'))"
    by (auto simp: ebind_eq_Inr)
  from task_round_follows [OF r(1), of k] have "follows k [] m m1" by simp
  moreover have "follows k [] m1 m'" using r(2) Cons.IH by (auto simp: follows_refl split: if_splits)
  ultimately show ?case by (rule follows_trans)
qed simp

section \<open>Steps of the server\<close>

definition tracks :: "size_t \<Rightarrow> u32 \<Rightarrow> observation list \<Rightarrow> world \<Rightarrow> world \<Rightarrow> bool" where
  "tracks wid k spent w w' \<longleftrightarrow>
     (\<forall>m'. map_of (watched w') wid = Some m' \<longrightarrow> (\<exists>m. map_of (watched w) wid = Some m \<and> follows k spent m m'))"

lemma tracks_refl: "tracks wid k [] w w"
  by (simp add: tracks_def follows_refl)

lemma tracks_watched: "watched w' = watched w \<Longrightarrow> tracks wid k [] w w'"
  by (simp add: tracks_def follows_refl)

lemma tracks_trans: "tracks wid k spent w w1 \<Longrightarrow> tracks wid k [] w1 w2 \<Longrightarrow> tracks wid k spent w w2"
  unfolding tracks_def by (blast intro: follows_trans)

lemma on_manager_tracks:
  assumes "on_manager wid' f w = Inr w'"
    and "\<And>m sh m' sh'. f (m, sh) = Inr (m', sh') \<Longrightarrow> follows k (if wid' = wid then spent else []) m m'"
  shows "tracks wid k (if wid' = wid then spent else []) w w'"
proof (cases "map_of (watched w) wid'")
  case None
  with assms(1) show ?thesis by (auto simp: on_manager_def follows_refl tracks_def)
next
  case (Some m)
  with assms(1) obtain m' sh' where "f (m, common w) = Inr (m', sh')"
    "w' = w\<lparr>watched := AList.update wid' m' (watched w), common := sh'\<rparr>"
    by (auto simp: on_manager_def ebind_eq_Inr)
  with Some assms(2) show ?thesis by (auto simp: tracks_def tab.lookup_assign follows_refl)
qed

lemma on_manager_tracks_quiet:
  assumes "on_manager wid' f w = Inr w'" and "\<And>m sh m' sh'. f (m, sh) = Inr (m', sh') \<Longrightarrow> follows k [] m m'"
  shows "tracks wid k [] w w'"
proof (cases "map_of (watched w) wid'")
  case (Some m)
  with assms(1) obtain m' sh' where "f (m, common w) = Inr (m', sh')"
    "w' = w\<lparr>watched := AList.update wid' m' (watched w), common := sh'\<rparr>"
    by (auto simp: on_manager_def ebind_eq_Inr)
  with Some assms(2) show ?thesis by (auto simp: tracks_def tab.lookup_assign follows_refl)
qed (use assms(1) in \<open>simp add: on_manager_def tracks_refl\<close>)

lemma efold_tracks:
  assumes "efold f xs s = Inr t" and "\<And>x s t. f x s = Inr t \<Longrightarrow> tracks wid k [] (g s) (g t)"
  shows "tracks wid k [] (g s) (g t)"
  using assms(1) by (rule efold_invariant [where P = "\<lambda>v. tracks wid k [] (g s) (g v)"])
    (use assms(2) tracks_refl tracks_trans in blast)+

lemma forward_manager_tracks:
  assumes "forward_manager status df wid' (w, found) = Inr (w', found')" and "5 + length (df_buffer df) < 2 ^ 63"
  shows "tracks wid k [] w w'"
proof (cases "map_of (watched w) wid'")
  case (Some m)
  with assms(1) obtain m' where
    f: "efold (forward_stream (common w) status wid' df) (map fst (streams m)) (m, found) = Inr (m', found')"
    and w': "w' = w\<lparr>watched := AList.update wid' m' (watched w)\<rparr>"
    by (auto simp: forward_manager_def ebind_eq_Inr)
  have "follows k [] (fst (m, found)) (fst (m', found'))"
  proof (rule efold_follows [OF f, where g = fst])
    fix j u v
    assume "forward_stream (common w) status wid' df j u = Inr v"
    then consider "fst v = fst u" | x where "send_data (common w) j (df_buffer df) (of_nat (length (df_buffer df))) (fst u) = Inr x"
        "fst v = x \<or> fst v = x\<lparr>has_backpressure := True\<rparr> \<or> fst v = x\<lparr>sent := sent (fst u)\<rparr>"
      by (cases u; cases "status wid' j") (auto simp: forward_stream_def ebind_eq_Inr split: option.splits if_splits)
    then show "follows k [] (fst u) (fst v)"
    proof cases
      case 2
      with send_data_follows [OF 2(1) assms(2), of k] show ?thesis
        using flag_follows(1) follows_trans by metis
    qed (simp add: follows_refl)
  qed
  with Some w' show ?thesis by (auto simp: tracks_def tab.lookup_assign follows_refl)
qed (use assms(1) in \<open>simp add: forward_manager_def tracks_refl\<close>)

lemma deliver_tracks:
  assumes "deliver status df w = Inr w'" and "5 + length (df_buffer df) < 2 ^ 63"
  shows "tracks wid k [] w w'"
proof -
  obtain w1 found where f: "efold (forward_manager status df) (map fst (watched w)) (w, None) = Inr (w1, found)"
    and r: "ebind (case found of
              Some (wid, k) \<Rightarrow> if df_to_close df then on_manager wid (close_stream k False) w1 else Inr w1
            | None \<Rightarrow> Inr w1) (\<lambda>w.
       let w = w\<lparr>common := (common w)\<lparr>send_queue_len := send_queue_len (common w) - 1\<rparr>\<rparr>
       in if send_queue_len (common w) < MAX_QUEUE
          then efold refresh_manager (map fst (watched w)) w else Inr w) = Inr w'"
    using assms(1) by (auto simp: deliver_def ebind_eq_Inr)
  have "tracks wid k [] (fst (w, None :: (size_t \<times> u32) option)) (fst (w1, found))"
    by (rule efold_tracks [OF f, where g = fst]) (use forward_manager_tracks assms(2) in fastforce)
  then have t1: "tracks wid k [] w w1" by simp
  from r obtain w2 where c: "(case found of
              Some (wid, k) \<Rightarrow> if df_to_close df then on_manager wid (close_stream k False) w1 else Inr w1
            | None \<Rightarrow> Inr w1) = Inr w2"
    by (auto simp: ebind_eq_Inr)
  have q: "tracks wid k [] w1 w2" if "on_manager wid' (close_stream k' False) w1 = Inr w2" for wid' k'
    using that close_stream_follows by (intro on_manager_tracks_quiet [where f = "close_stream k' False"]) fastforce+
  have t2: "tracks wid k [] w1 w2" using c q by (auto simp: tracks_refl split: option.splits if_splits)
  let ?w3 = "w2\<lparr>common := (common w2)\<lparr>send_queue_len := send_queue_len (common w2) - 1\<rparr>\<rparr>"
  have t3: "tracks wid k [] w2 ?w3" by (rule tracks_watched) simp
  have "tracks wid k [] u v" if "refresh_manager wid' u = Inr v" for wid' u v
    using that unfolding refresh_manager_def
    by (rule on_manager_tracks_quiet) (auto simp: ebind_eq_Inr intro: update_streams_follows)
  then have "tracks wid k [] u v" if "efold refresh_manager wids u = Inr v" for wids u v
    using efold_tracks [OF that, where g = "\<lambda>w. w"] by blast
  then have "tracks wid k [] ?w3 w'"
    using r c by (auto simp: Let_def tracks_refl split: if_splits)
  with t1 t2 t3 show ?thesis by (blast intro: tracks_trans)
qed

lemma step_tracks:
  assumes "buffers_ok w" and "next_id w \<noteq> wid \<or> e \<noteq> Open" and "\<not> reconnects wid k e" and "step net e w = Inr w'"
  shows "tracks wid k (if sends_data wid k e then [Spend] else []) w w'"
proof (cases e)
  case Open
  with assms(2,4) show ?thesis
    by (auto simp: sends_data_def tracks_def open_socket_def ebind_eq_Inr tab.lookup_assign follows_refl)
next
  case (Message wid' now rcv n)
  have other: "\<not> sends_data wid k e" if "wid' \<noteq> wid" using that Message by (simp add: sends_data_def)
  show ?thesis
  proof (cases "wid' = wid")
    case True
    with assms(3,4) Message show ?thesis
      using on_manager_tracks [where wid' = wid' and wid = wid and f = "receive net now rcv n" and w = w and w' = w'
          and k = k and spent = "if sends_data wid k e then [Spend] else []"]
        receive_follows [where wid = wid and k = k] by auto
  next
    case False
    with assms(4) Message other show ?thesis
      by (auto simp: on_manager_def ebind_eq_Inr tracks_def tab.lookup_assign follows_refl split: option.splits)
  qed
next
  case (Drain wid')
  with assms(4) have "tracks wid k [] w w'"
    by (auto simp: drain_socket_def ebind_eq_Inr intro!: on_manager_tracks_quiet
        intro: follows_trans [OF flag_follows(1) update_streams_follows])
  with Drain show ?thesis by (simp add: sends_data_def)
next
  case (Close wid')
  with assms(4) obtain w1 where w1: "on_manager wid' force_close w = Inr w1"
    and w': "w' = w1\<lparr>watched := AList.delete wid' (watched w1)\<rparr>"
    by (auto simp: close_socket_def ebind_eq_Inr)
  have "tracks wid k [] w w1" using w1 force_close_follows by (intro on_manager_tracks_quiet [OF w1]) fastforce
  moreover have "tracks wid k [] w1 w'" by (auto simp: w' tracks_def tab.lookup_erase follows_refl)
  ultimately show ?thesis using Close by (auto simp: sends_data_def intro: tracks_trans)
next
  case (Watch as)
  with assms(4) show ?thesis
    by (auto simp: sends_data_def watch_event_def Let_def intro!: tracks_watched split: list.splits option.splits)
next
  case (Deliver status)
  show ?thesis
  proof (cases "deferreds w")
    case (Cons df dfs)
    then have "5 + length (df_buffer df) < 2 ^ 63" using assms(1) by (auto simp: buffers_ok_def)
    with Cons Deliver assms(4) have "tracks wid k [] (w\<lparr>deferreds := dfs\<rparr>) w'" by (intro deliver_tracks) simp_all
    then show ?thesis using Deliver by (simp add: tracks_def sends_data_def)
  qed (use Deliver assms(4) in \<open>simp add: sends_data_def tracks_refl\<close>)
next
  case Dequeue
  with assms(4) show ?thesis by (auto simp: sends_data_def dequeue_def intro!: tracks_watched split: list.splits)
next
  case (Run i as)
  have "tracks wid k [] w w'"
  proof (cases "w' = w")
    case False
    with Run assms(4) obtain m m' sh' where m: "map_of (watched w) (wt_this (running w ! i)) = Some m"
      and r: "run_task as (wt_packet (running w ! i)) (m, common w) = Inr (Some (m', sh'))"
      and w': "watched w' = AList.update (wt_this (running w ! i)) m' (watched w)"
      by (auto simp: run_running_def Let_def ebind_eq_Inr split: option.splits if_splits)
    have "follows k [] m m'" using r by (rule run_task_follows)
    with m w' show ?thesis by (auto simp: tracks_def tab.lookup_assign follows_refl)
  qed (simp add: tracks_refl)
  with Run show ?thesis by (simp add: sends_data_def)
qed (use assms(4) in \<open>auto simp: sends_data_def intro!: tracks_watched split: if_splits\<close>)

section \<open>Both ends agree\<close>

text \<open>The credit of an open TCP stream.\<close>

definition credit :: "size_t \<Rightarrow> u32 \<Rightarrow> world \<Rightarrow> u32 option" where
  "credit wid k w = (case map_of (watched w) wid of
      None \<Rightarrow> None
    | Some m \<Rightarrow> (case map_of (streams m) k of
        None \<Rightarrow> None
      | Some d \<Rightarrow> if ss_stream_type d \<noteq> 2 then Some (ss_buffer d) else None))"

lemma follows_credit:
  assumes "follows k spent m m'" and "map_of (streams m') k = Some d'" and "ss_stream_type d' \<noteq> 2"
  obtains fs d where "sent m' = sent m @ fs" and "map_of (streams m) k = Some d" and "ss_stream_type d \<noteq> 2"
    and "ss_buffer d' = client_credit k (spent @ map Hear fs) (ss_buffer d)" and "list_all (grants k) fs"
proof -
  from assms(1) obtain fs where fs: "sent m' = sent m @ fs" "list_all (grants k) fs"
    "\<forall>d'. map_of (streams m') k = Some d' \<longrightarrow> (\<exists>d. map_of (streams m) k = Some d \<and>
        ss_stream_type d' = ss_stream_type d \<and>
        (ss_stream_type d \<noteq> 2 \<longrightarrow> ss_buffer d' = client_credit k (spent @ map Hear fs) (ss_buffer d)))"
    by (auto simp: follows_def)
  with assms(2) obtain d where "map_of (streams m) k = Some d" "ss_stream_type d' = ss_stream_type d"
    "ss_stream_type d \<noteq> 2 \<longrightarrow> ss_buffer d' = client_credit k (spent @ map Hear fs) (ss_buffer d)" by blast
  with fs(1,2) assms(3) that show ?thesis by simp
qed

lemma tracks_credit:
  assumes "tracks wid k spent w w'"
  obtains "credit wid k w' = None"
  | c fs where "credit wid k w = Some c" "fs = drop (length (sent_to wid w)) (sent_to wid w')" "list_all (grants k) fs"
      "credit wid k w' = Some (client_credit k (spent @ map Hear fs) c)"
proof (cases "credit wid k w'")
  case (Some c')
  then obtain m' d' where m': "map_of (watched w') wid = Some m'" "map_of (streams m') k = Some d'"
    "ss_stream_type d' \<noteq> 2" "c' = ss_buffer d'"
    by (auto simp: credit_def split: option.splits if_splits)
  then obtain m where m: "map_of (watched w) wid = Some m" "follows k spent m m'"
    using assms by (auto simp: tracks_def)
  obtain fs d where "sent m' = sent m @ fs" "map_of (streams m) k = Some d" "ss_stream_type d \<noteq> 2"
    "ss_buffer d' = client_credit k (spent @ map Hear fs) (ss_buffer d)" "list_all (grants k) fs"
    using follows_credit [OF m(2) m'(2,3)] .
  with m m' Some show ?thesis by (intro that(2)) (auto simp: credit_def sent_to_def)
qed (use that(1) in blast)

lemma step_credit:
  assumes "serves net w" and "steady wid k fd e w" and "\<not> reconnects wid k e" and "step net e w = Inr w'"
  obtains "credit wid k w' = None"
  | c fs where "credit wid k w = Some c" "list_all (grants k) fs"
      "observed net wid k e w = (if sends_data wid k e then [Spend] else []) @ map Hear fs"
      "credit wid k w' = Some (client_credit k (observed net wid k e w) c)"
proof -
  have "tracks wid k (if sends_data wid k e then [Spend] else []) w w'"
    using assms by (intro step_tracks) (auto simp: serves_def steady_def)
  then show ?thesis
  proof (cases rule: tracks_credit)
    case (2 c fs)
    with assms(4) show ?thesis by (intro that(2)) (simp_all add: observed_def)
  qed (use that(1) in blast)
qed

section \<open>Properties\<close>

text \<open>
  C4: Flow control is consistent: over every run of the server in which a TCP stream is open
  (until its last event) and its id is not used again, whatever else happens, the counter the
  server keeps for the stream is the credit its client computes from its own observations:
  what it had, less one for each DATA packet it sends, replaced by the number in each
  CONTINUE packet for the stream that it receives.
\<close>
theorem credits_agree:
  assumes "serves net w" and "along (step net) (\<lambda>e w. steady wid k fd e w \<and> \<not> reconnects wid k e) es w"
    and "run_events net es w = Inr w'" and "credit wid k w = Some c"
  shows "credit wid k w' \<in> {None, Some (client_credit k (collect (step net) (observed net wid k) es w) c)}"
proof -
  have "credit wid k w' = None \<or> (\<exists>c. credit wid k w = Some c \<and>
      credit wid k w' = Some (client_credit k (collect (step net) (observed net wid k) es w) c))"
    using assms(1-3)
  proof (induction es arbitrary: w)
    case Nil
    then show ?case by (cases "credit wid k w") (auto simp: run_events_def)
  next
    case (Cons e es)
    then obtain u where u: "step net e w = Inr u" "steady wid k fd e w" "\<not> reconnects wid k e"
      "along (step net) (\<lambda>e w. steady wid k fd e w \<and> \<not> reconnects wid k e) es u" "run_events net es u = Inr w'"
      by (auto simp: continue_with_True run_events_def)
    have "serves net u" using serves_step [OF Cons.prems(1) u(2,1)] .
    from Cons.IH [OF this u(4,5)] show ?case
      using u(1) by (cases rule: step_credit [OF Cons.prems(1) u(2,3,1)]) auto
  qed
  with assms(4) show ?thesis by auto
qed

text \<open>
  C10: A client that keeps the rule of the protocol (no DATA packet without credit) never has
  more than a full credit, so the counter of the server never wraps: at most 127 packets of
  the stream are in the hands of the server that no CONTINUE has covered.
\<close>
theorem credits_bounded:
  assumes "serves net w"
    and "along (step net) (\<lambda>e w. steady wid k fd e w \<and> \<not> reconnects wid k e \<and>
      (sends_data wid k e \<longrightarrow> credit wid k w \<noteq> Some 0)) es w"
    and "run_events net es w = Inr w'" and "credit wid k w = Some c" and "c \<le> BUFFER_COUNT"
    and "credit wid k w' = Some c'"
  shows "c' \<le> BUFFER_COUNT"
proof -
  have h: "client_credit k (map Hear fs) x \<le> BUFFER_COUNT" if "list_all (grants k) fs" "x \<le> BUFFER_COUNT" for fs x
    using that
  proof (induction fs arbitrary: x)
    case (Cons f fs)
    then have "announced k f = None \<or> announced k f = Some BUFFER_COUNT" by (simp add: grants_def)
    then have "account k (Hear f) x \<le> BUFFER_COUNT" using Cons.prems(2) by (elim disjE) simp_all
    with Cons show ?case by simp
  qed simp
  have b: "\<forall>c. credit wid k w = Some c \<longrightarrow> c \<le> BUFFER_COUNT \<Longrightarrow> \<forall>c. credit wid k w' = Some c \<longrightarrow> c \<le> BUFFER_COUNT"
    using assms(1-3)
  proof (induction es arbitrary: w)
    case (Cons e es)
    then obtain u where u: "step net e w = Inr u" "steady wid k fd e w" "\<not> reconnects wid k e"
      "sends_data wid k e \<longrightarrow> credit wid k w \<noteq> Some 0"
      "along (step net) (\<lambda>e w. steady wid k fd e w \<and> \<not> reconnects wid k e \<and>
         (sends_data wid k e \<longrightarrow> credit wid k w \<noteq> Some 0)) es u" "run_events net es u = Inr w'"
      by (auto simp: continue_with_True run_events_def)
    have s: "serves net u" using serves_step [OF Cons.prems(2) u(2,1)] .
    have "\<forall>c. credit wid k u = Some c \<longrightarrow> c \<le> BUFFER_COUNT"
    proof (cases rule: step_credit [OF Cons.prems(2) u(2,3,1)])
      case (2 c fs)
      have "account k Spend c \<le> BUFFER_COUNT" if "sends_data wid k e"
      proof -
        have "c \<noteq> 0" "c \<le> BUFFER_COUNT" using that u(4) 2(1) Cons.prems(1) by auto
        then have "c - 1 \<le> c" by (simp add: word_le_nat_alt unat_minus_one)
        with \<open>c \<le> BUFFER_COUNT\<close> show ?thesis by simp
      qed
      moreover have "c \<le> BUFFER_COUNT" using 2(1) Cons.prems(1) by simp
      ultimately have "(if sends_data wid k e then account k Spend c else c) \<le> BUFFER_COUNT" by (cases "sends_data wid k e") (simp_all only: if_True if_False)
      from h [OF 2(2) this] have "client_credit k (observed net wid k e w) c \<le> BUFFER_COUNT"
        unfolding 2(3) by (cases "sends_data wid k e") (simp_all only: client_credit_simps append_Nil append_Cons if_True if_False)
      with 2(4) show ?thesis by simp
    qed simp
    from Cons.IH [OF this s u(5,6)] show ?case .
  qed (simp add: run_events_def)
  have "\<forall>x. credit wid k w = Some x \<longrightarrow> x \<le> BUFFER_COUNT"
    unfolding assms(4) using assms(5) by (intro allI impI) (drule option.inject [THEN iffD1], simp only:)
  from b [OF this] assms(6) show ?thesis by blast
qed

text \<open>A client that spends its last credit; the next delivery of the server renews it.\<close>

definition last_stream :: stream_data where
  "last_stream = example_stream\<lparr>ss_buffer := 1\<rparr>"

definition spending :: world where
  "spending = talking\<lparr>watched := [(0, example_manager\<lparr>streams := [(7, last_stream)]\<rparr>)]\<rparr>"

definition spend_events :: "event list" where
  "spend_events = [data_message 0 7 1, Deliver (\<lambda>wid k. SUCCESS), data_message 0 7 2]"

lemma spending_serves: "serves quiet_net spending"
proof -
  have "fields_unique ss_fd [(7, last_stream)]" by (auto simp: fields_unique_def split: if_splits)
  then have "manager_ok (example_shared\<lparr>send_queue_len := 1\<rparr>) (example_manager\<lparr>streams := [(7, last_stream)]\<rparr>)"
    by (auto simp: manager_ok_def stream_ok_def example_manager_def last_stream_def example_stream_def fresh_stream_def
        example_shared_def keys_ok_def capturing_def example_conf_def)
  moreover have "os_ok (os_state example_shared)" by (simp add: os_ok_def example_shared_def)
  ultimately have "managers_ok spending"
    by (simp add: managers_ok_def spending_def talking_def example_world_def keys_ok_def example_manager_def)
  then show ?thesis
    using fresh_quiet_net
    by (simp add: serves_def world_ok_def buffers_ok_def spending_def talking_def example_world_def example_deferred_def)
qed

theorem credits_agree_witness:
  "\<exists>w'. run_events quiet_net spend_events spending = Inr w' \<and> credit 0 7 w' = Some 126"
proof -
  have a: "along (step quiet_net) (\<lambda>e w. steady 0 7 6 e w \<and> \<not> reconnects 0 7 e) spend_events spending" by code_simp
  then obtain w' where w': "run_events quiet_net spend_events spending = Inr w'"
    using along_returns [OF a] unfolding run_events_def by blast
  have "credit 0 7 spending = Some 1" by code_simp
  note c = credits_agree [OF spending_serves a w' this]
  have "client_credit 7 (collect (step quiet_net) (observed quiet_net 0 7) spend_events spending) 1 = 126" by code_simp
  moreover have "ebind (run_events quiet_net spend_events spending) (\<lambda>w. Inr (credit 0 7 w = None)) = (Inr False :: bool result)"
    by code_simp
  then have "credit 0 7 w' \<noteq> None" using w' by simp
  ultimately show ?thesis using c w' by auto
qed

theorem credits_bounded_witness:
  "\<exists>w' c. run_events quiet_net spend_events spending = Inr w' \<and> credit 0 7 w' = Some c \<and> c \<le> BUFFER_COUNT"
proof -
  have a: "along (step quiet_net) (\<lambda>e w. steady 0 7 6 e w \<and> \<not> reconnects 0 7 e \<and>
      (sends_data 0 7 e \<longrightarrow> credit 0 7 w \<noteq> Some 0)) spend_events spending" by code_simp
  then obtain w' where w': "run_events quiet_net spend_events spending = Inr w'"
    using along_returns [OF a] unfolding run_events_def by blast
  have c: "credit 0 7 spending = Some 1" by code_simp
  have "ebind (run_events quiet_net spend_events spending) (\<lambda>w. Inr (credit 0 7 w = None)) = (Inr False :: bool result)"
    by code_simp
  then obtain c' where c': "credit 0 7 w' = Some c'" using w' by auto
  have "(1 :: u32) \<le> BUFFER_COUNT" by (simp add: BUFFER_COUNT_def)
  from credits_bounded [OF spending_serves a w' c this c'] w' c' show ?thesis by blast
qed

end
