(* ===== verification/Recordings.thy ===== *)
theory Recordings
  imports Captures Credits
begin

text \<open>
  What the captures of a running server contain (src/src/websocketManager.h,
  src/src/websocketManager.cpp, src/src/pcap.h): \<open>records\<close> follows the capture of one stream
  through every operation of the server, to the file it ends in.
\<close>

section \<open>What the captures contain\<close>

text \<open>
  The stream and the captures that are finished, before and after: what was written to the
  capture of the stream in between is \<open>ws\<close>; if the stream is gone, its capture is finished.
\<close>

definition records ::
  "capture_write list \<Rightarrow> stream_data option \<times> pcap_interface list \<Rightarrow> stream_data option \<times> pcap_interface list \<Rightarrow> bool" where
  "records ws v v' \<longleftrightarrow> set (snd v) \<subseteq> set (snd v') \<and> (fst v = None \<longrightarrow> fst v' = None) \<and>
     (\<forall>d p. fst v = Some d \<longrightarrow> ss_pcap d = Some p \<longrightarrow> (\<exists>p'. efold do_write ws p = Inr p' \<and>
        (case fst v' of
           Some d' \<Rightarrow> ss_fd d' = ss_fd d \<and> ss_pcap d' = Some p'
         | None \<Rightarrow> PcapInterface_destroy p' \<in> set (snd v'))))"

lemma records_refl [simp]: "records [] v v"
  by (auto simp: records_def split: option.split)

lemma records_trans:
  assumes "records ws v v1" and "records ws' v1 v2" and "fst v1 = None \<Longrightarrow> ws' = []"
  shows "records (ws @ ws') v v2"
proof -
  have "\<exists>p'. efold do_write (ws @ ws') p = Inr p' \<and> (case fst v2 of
      Some d' \<Rightarrow> ss_fd d' = ss_fd d \<and> ss_pcap d' = Some p' | None \<Rightarrow> PcapInterface_destroy p' \<in> set (snd v2))"
    if d: "fst v = Some d" "ss_pcap d = Some p" for d p
  proof -
    obtain p1 where p1: "efold do_write ws p = Inr p1" "case fst v1 of
        Some d' \<Rightarrow> ss_fd d' = ss_fd d \<and> ss_pcap d' = Some p1 | None \<Rightarrow> PcapInterface_destroy p1 \<in> set (snd v1)"
      using assms(1) d by (auto simp: records_def)
    show ?thesis
    proof (cases "fst v1")
      case None
      then have "fst v2 = None" "set (snd v1) \<subseteq> set (snd v2)" "ws' = []" using assms(2,3) by (auto simp: records_def)
      with None p1 show ?thesis by auto
    next
      case (Some d1)
      then obtain p2 where "efold do_write ws' p1 = Inr p2" "case fst v2 of
          Some d' \<Rightarrow> ss_fd d' = ss_fd d1 \<and> ss_pcap d' = Some p2 | None \<Rightarrow> PcapInterface_destroy p2 \<in> set (snd v2)"
        using assms(2) p1(2) by (auto simp: records_def)
      with Some p1 show ?thesis by (auto simp: efold_append split: option.splits)
    qed
  qed
  with assms(1,2) show ?thesis unfolding records_def by auto
qed

lemma records_quiet:
  assumes "set fin \<subseteq> set fin'" and "s = None \<Longrightarrow> s' = None"
    and "\<And>d. s = Some d \<Longrightarrow> \<exists>d'. s' = Some d' \<and> ss_fd d' = ss_fd d \<and> ss_pcap d' = ss_pcap d"
  shows "records [] (s, fin) (s', fin')"
  using assms by (auto simp: records_def split: option.split)

definition view :: "u32 \<Rightarrow> manager \<times> shared \<Rightarrow> stream_data option \<times> pcap_interface list" where
  "view k ms = (map_of (streams (fst ms)) k, finished_captures (snd ms))"

lemma mirrors_kept: "mirrors P g r r' \<Longrightarrow> r = Inr x \<Longrightarrow> P x"
  by simp

lemma efold_records:
  assumes "efold f xs s = Inr t" and "P s"
    and "\<And>x s t. P s \<Longrightarrow> f x s = Inr t \<Longrightarrow> P t \<and> records [] (g s) (g t)"
  shows "P t \<and> records [] (g s) (g t)"
  using assms(1) by (rule efold_invariant [where P = "\<lambda>v. P v \<and> records [] (g s) (g v)"])
    (use assms(2,3) records_trans [of "[]" _ _ "[]"] in fastforce)+

lemma refresh_records:
  assumes "refresh_stream k' m = Inr m'"
  shows "records [] (map_of (streams m) k, fin) (map_of (streams m') k, fin)"
  using assms
  by (auto simp: refresh_stream_def send_simps tab.lookup_assign intro!: records_quiet split: option.splits if_splits)

lemma update_streams_records:
  assumes "update_streams sh m = Inr m'"
  shows "records [] (map_of (streams m) k, fin) (map_of (streams m') k, fin)"
proof (cases "has_backpressure m \<or> MAX_QUEUE < send_queue_len sh")
  case False
  with assms have "efold refresh_stream (map fst (streams m)) m = Inr m'" by (simp add: update_streams_def)
  from efold_records [OF this, where P = "\<lambda>_. True" and g = "\<lambda>m. (map_of (streams m) k, fin)"] refresh_records
  show ?thesis by blast
qed (use assms in \<open>simp add: update_streams_def\<close>)

lemma close_stream_records:
  assumes "all_recorded True ms" and "close_stream sid remove_poll ms = Inr ms'"
  shows "records [] (view k ms) (view k ms')"
proof -
  obtain m sh where ms: "ms = (m, sh)" by fastforce
  have c: "capturing sh" using assms(1) by (simp add: ms all_recorded_def recording_def)
  with assms(2) obtain d p where "map_of (streams m) sid = Some d" "ss_pcap d = Some p"
    "map_of (streams (fst ms')) = map_of (AList.delete sid (streams m))"
    "finished_captures (snd ms') = finished_captures sh @ [PcapInterface_destroy p]"
    by (auto simp: ms close_stream_def send_simps Let_def split: option.splits)
  then show ?thesis by (auto simp: ms view_def records_def tab.lookup_erase split: option.split)
qed

lemma force_close_records:
  assumes "all_recorded True ms" and "force_close ms = Inr ms'"
  shows "records [] (view k ms) (view k ms')"
proof -
  obtain m sh where ms: "ms = (m, sh)" by fastforce
  have "efold (\<lambda>id. close_stream id True) (map fst (streams m)) (m\<lparr>has_backpressure := False\<rparr>, sh) = Inr ms'"
    using assms(2) by (simp add: force_close_def ms)
  moreover have "all_recorded True (m\<lparr>has_backpressure := False\<rparr>, sh)" using assms(1) by (simp add: ms all_recorded_def)
  ultimately have "records [] (view k (m\<lparr>has_backpressure := False\<rparr>, sh)) (view k ms')"
    by (rule efold_records [where P = "all_recorded True" and g = "view k", THEN conjunct2])
      (use close_stream_records mirrors_kept [OF close_stream_unseen] in blast)
  then show ?thesis by (simp add: ms view_def)
qed

lemma handle_data_records:
  assumes "handle_data p (m, sh) = Inr (r, m', sh')"
  shows "records [] (view k (m, sh)) (view k (m', sh'))"
  using assms
  by (auto simp: handle_data_def Let_def send_simps view_def tab.lookup_assign intro!: records_quiet split: option.splits if_splits)

lemma handle_connect_records:
  assumes "handle_connect net now p (m, sh) = Inr (r, m', sh')" and "stream_id p \<noteq> k"
  shows "records [] (view k (m, sh)) (view k (m', sh'))"
proof -
  obtain c where c: "ConnectPacket (data p) (data_len p) = Inr c"
    using assms(1) by (auto simp: handle_connect_def ebind_eq_Inr)
  obtain con os1 where o: "open_stream (get_conf (conf sh)) net (destination_hostname c) (stream_type c)
      (destination_port c) (os_state sh) = Inr (con, os1)"
    using assms(1) c by (auto simp: handle_connect_def ebind_eq_Inr)
  have "finished_captures sh' = finished_captures sh \<and>
      (m' = m \<or> (\<exists>d. m' = m\<lparr>streams := AList.update (stream_id p) d (streams m)\<rparr>))"
  proof (cases con)
    case None
    with assms(1) c o show ?thesis by (auto simp: handle_connect_def)
  next
    case (Some q)
    with assms(1) c o show ?thesis
      by (cases q; cases "capturing sh") (auto simp: handle_connect_def ebind_eq_Inr Let_def open_pcap_def)
  qed
  with assms(2) show ?thesis
    by (auto simp: tab.lookup_assign view_def intro!: records_quiet)
qed

lemma receive_records:
  assumes "receive net now rcv n (m, sh) = Inr (m', sh')" and "\<not> reconnects wid k (Message wid now rcv n)"
  shows "records [] (view k (m, sh)) (view k (m', sh'))"
proof -
  obtain p where p: "WispPacket rcv n = Inr p" using assms by (auto simp: receive_def ebind_eq_Inr)
  have r: "(if packet_type p = PACKET_INFO then Inr (m, sh)
     else if packet_type p = PACKET_CONNECT then
       ebind (handle_connect net now p (noted m, sh)) (\<lambda>(ret, m, sh).
         if ret = None then ebind (send_close 0x41 (stream_id p) m) (\<lambda>m. Inr (m, sh)) else Inr (m, sh))
     else if packet_type p = PACKET_DATA then ebind (handle_data p (noted m, sh)) (\<lambda>(ret, m, sh). Inr (m, sh))
     else Inr (noted m, sh)) = Inr (m', sh')"
    using assms p unfolding receive_def by (simp add: noted_def Let_def cong: if_cong)
  have s: "packet_type p = PACKET_CONNECT \<Longrightarrow> stream_id p \<noteq> k"
    using assms(2) p by (simp add: reconnects_def)
  have noted: "view k (noted m, sh) = view k (m, sh)" by (simp add: view_def)
  consider (data) "packet_type p = PACKET_DATA" | (connect) "packet_type p = PACKET_CONNECT"
    | (other) "packet_type p \<noteq> PACKET_DATA" "packet_type p \<noteq> PACKET_CONNECT" by blast
  then show ?thesis
  proof cases
    case data
    with r have "ebind (handle_data p (noted m, sh)) (\<lambda>(ret, m, sh). Inr (m, sh)) = Inr (m', sh')"
      by (simp add: packet_types)
    then obtain ret where "handle_data p (noted m, sh) = Inr (ret, m', sh')" by (auto simp: ebind_eq_Inr)
    from handle_data_records [OF this, of k] show ?thesis by (simp add: noted)
  next
    case connect
    with r have "ebind (handle_connect net now p (noted m, sh)) (\<lambda>(ret, m, sh).
        if ret = None then ebind (send_close 0x41 (stream_id p) m) (\<lambda>m. Inr (m, sh)) else Inr (m, sh)) = Inr (m', sh')"
      by (simp add: packet_types)
    then obtain ret m1 where h: "handle_connect net now p (noted m, sh) = Inr (ret, m1, sh')"
      and m': "m' = m1 \<or> m' = emit (close_frame 0x41 (stream_id p)) m1"
      by (auto simp: ebind_eq_Inr send_simps split: if_splits)
    from m' have "view k (m', sh') = view k (m1, sh')" by (auto simp: view_def)
    with handle_connect_records [OF h s [OF connect]] show ?thesis by (simp add: noted)
  next
    case other
    with r have "view k (m', sh') = view k (m, sh)" by (auto simp: view_def split: if_splits)
    then show ?thesis by simp
  qed
qed

text \<open>A write to the capture of a stream.\<close>

lemma capture_records:
  assumes "capture g sid m = Inr m'" and "\<And>p p'. g p = Inr p' \<Longrightarrow> do_write x p = Inr p'"
  shows "records (if sid = k then [x] else []) (map_of (streams m) k, fin) (map_of (streams m') k, fin)"
proof -
  obtain d p p' where d: "map_of (streams m) sid = Some d" "ss_pcap d = Some p" "g p = Inr p'"
    "m' = m\<lparr>streams := AList.update sid (d\<lparr>ss_pcap := Some p'\<rparr>) (streams m)\<rparr>"
    using assms(1) by (auto simp: capture_def ebind_eq_Inr split: option.splits)
  with assms(2) [OF d(3)] show ?thesis
    by (auto simp: records_def tab.lookup_assign split: option.split)
qed

lemma do_write_user:
  assumes "write_dummy_user b n p = Inr p'"
  shows "do_write (From_user (take (unat n) b)) p = Inr p'"
proof -
  have "unat n \<le> length b"
    using assms by (cases "unat n \<le> length b") (simp_all add: write_dummy_user_def write_tcp_def Let_def)
  moreover from this have "(of_nat (min (length b) (unat n)) :: size_t) = n" by (simp add: min_def)
  ultimately show ?thesis
    using assms by (simp add: write_dummy_user_def write_tcp_def Let_def)
qed

lemma send_data_records:
  assumes "capturing sh" and "send_data sh sid b (of_nat (length b)) m = Inr m'"
  shows "records (if sid = k then [From_target b] else []) (map_of (streams m) k, fin) (map_of (streams m') k, fin)"
proof -
  obtain m1 where "capture (write_dummy_target b (of_nat (length b))) sid m = Inr m1" "streams m' = streams m1"
    using assms by (auto simp: send_data_def ebind_eq_Inr ws_send_def)
  with capture_records [of _ sid m m1 "From_target b" k fin] show ?thesis by simp
qed

text \<open>The rounds a write task goes; it captures its payload in each.\<close>

fun rounds :: "write_answer list \<Rightarrow> nat" where
  "rounds [] = 0"
| "rounds (a # as) = Suc (if a = Write_again then rounds as else 0)"

lemma task_round_records:
  assumes "all_recorded True ms" and "task_round a p ms = Inr (again, ms')"
  shows "records (if stream_id p = k then [From_user (payload p)] else []) (view k ms) (view k ms') \<and>
    (again \<longleftrightarrow> a = Write_again)"
proof -
  obtain m sh where ms: "ms = (m, sh)" by fastforce
  have c: "capturing sh" using assms(1) by (simp add: ms all_recorded_def recording_def)
  with assms(2) obtain m1 where m1: "capture (write_dummy_user (data p) (data_len p)) (stream_id p) m = Inr m1"
    "fst ms' = m1" "finished_captures (snd ms') = finished_captures sh" "again \<longleftrightarrow> a = Write_again"
    by (cases a) (auto simp: ms task_round_def ebind_eq_Inr split: option.splits)
  have "records (if stream_id p = k then [From_user (payload p)] else [])
      (map_of (streams m) k, finished_captures sh) (map_of (streams m1) k, finished_captures sh)"
    using m1(1) do_write_user unfolding payload_def by (rule capture_records)
  with m1 show ?thesis by (simp add: ms view_def)
qed

lemma run_task_records:
  assumes "all_recorded True ms" and "readable p" and "run_task as p ms = Inr (Some ms')"
  shows "records (if stream_id p = k then replicate (rounds as) (From_user (payload p)) else []) (view k ms) (view k ms')"
  using assms(1,3)
proof (induction as arbitrary: ms)
  case (Cons a as)
  from Cons.prems(2) obtain again ms1 where r: "task_round a p ms = Inr (again, ms1)"
    "(if again then run_task as p ms1 else Inr (Some ms1)) = Inr (Some ms')"
    by (auto simp: ebind_eq_Inr)
  have k: "all_recorded True ms1"
    using mirrors_kept [OF task_round_unseen [OF Cons.prems(1) assms(2)] r(1)] by simp
  have s: "fst (view k ms1) = None \<Longrightarrow> stream_id p \<noteq> k"
  proof -
    assume gone: "fst (view k ms1) = None"
    have "fst (view (stream_id p) ms1) \<noteq> None"
      using r(1) by (cases ms, cases a)
        (auto simp: task_round_def view_def capture_def ebind_eq_Inr tab.lookup_assign split: option.splits if_splits)
    with gone show "stream_id p \<noteq> k" by auto
  qed
  note t = task_round_records [OF Cons.prems(1) r(1), of k]
  show ?case
  proof (cases again)
    case True
    from records_trans [OF conjunct1 [OF t] Cons.IH [OF k]] r(2) True t s show ?thesis
      by (auto split: if_splits)
  next
    case False
    with r(2) t show ?thesis by (auto split: if_splits)
  qed
qed simp

lemma run_task_waits: "run_task as p ms = Inr None \<Longrightarrow> list_all (\<lambda>a. a = Write_again) as"
proof (induction as arbitrary: ms)
  case (Cons a as)
  then obtain again ms1 where r: "task_round a p ms = Inr (again, ms1)"
    "(if again then run_task as p ms1 else Inr (Some ms1)) = Inr None"
    by (auto simp: ebind_eq_Inr)
  then have again by (cases again) simp_all
  moreover have "again \<Longrightarrow> a = Write_again"
    using r(1) by (cases ms, cases a) (auto simp: task_round_def ebind_eq_Inr split: option.splits if_splits)
  ultimately show ?case using r(2) Cons.IH [of ms1] by simp
qed simp

lemma run_task_ends: "run_task as p ms = Inr (Some ms') \<Longrightarrow> \<not> list_all (\<lambda>a. a = Write_again) as"
proof (induction as arbitrary: ms)
  case (Cons a as)
  then obtain again ms1 where r: "task_round a p ms = Inr (again, ms1)"
    "(if again then run_task as p ms1 else Inr (Some ms1)) = Inr (Some ms')"
    by (auto simp: ebind_eq_Inr)
  moreover have "a = Write_again \<Longrightarrow> again"
    using r(1) by (cases ms) (auto simp: task_round_def ebind_eq_Inr split: option.splits if_splits)
  ultimately show ?case using Cons.IH [of ms1] by auto
qed simp

section \<open>Steps of the server\<close>

definition world_view :: "size_t \<Rightarrow> u32 \<Rightarrow> world \<Rightarrow> stream_data option \<times> pcap_interface list" where
  "world_view wid k w = (Option.bind (map_of (watched w) wid) (\<lambda>m. map_of (streams m) k), finished_captures (common w))"

text \<open>What an event writes to the capture of a stream.\<close>

definition captured_by :: "size_t \<Rightarrow> u32 \<Rightarrow> event \<Rightarrow> world \<Rightarrow> capture_write list" where
  "captured_by wid k e w = (case e of
      Run i as \<Rightarrow>
        if i < length (running w) \<and> wt_this (running w ! i) = wid \<and> stream_id (wt_packet (running w ! i)) = k \<and>
           \<not> list_all (\<lambda>a. a = Write_again) as
        then replicate (rounds as) (From_user (payload (wt_packet (running w ! i)))) else []
    | Deliver status \<Rightarrow> (case deferreds w of
          [] \<Rightarrow> []
        | df # dfs \<Rightarrow> if has_stream wid k (df_fd df) w then [From_target (df_buffer df)] else [])
    | _ \<Rightarrow> [])"

lemma on_manager_records:
  assumes "on_manager wid' f w = Inr w'" and "world_recorded True w"
    and "\<And>m m' sh'. map_of (watched w) wid' = Some m \<Longrightarrow> f (m, common w) = Inr (m', sh') \<Longrightarrow>
      records (if wid' = wid then ws else []) (view k (m, common w)) (view k (m', sh'))"
    and "wid' = wid \<Longrightarrow> map_of (watched w) wid' = None \<Longrightarrow> ws = []"
  shows "records (if wid' = wid then ws else []) (world_view wid k w) (world_view wid k w')"
proof (cases "map_of (watched w) wid'")
  case None
  with assms(1,4) show ?thesis by (auto simp: on_manager_def)
next
  case (Some m)
  with assms(1) obtain m' sh' where f: "f (m, common w) = Inr (m', sh')"
    and w': "w' = w\<lparr>watched := AList.update wid' m' (watched w), common := sh'\<rparr>"
    by (auto simp: on_manager_def ebind_eq_Inr)
  note r = assms(3) [OF Some f]
  show ?thesis
  proof (cases "wid' = wid")
    case True
    with r Some w' show ?thesis by (simp add: world_view_def view_def tab.lookup_assign)
  next
    case False
    with r have "set (finished_captures (common w)) \<subseteq> set (finished_captures sh')"
      by (simp add: records_def view_def)
    with False w' show ?thesis
      by (auto simp: world_view_def tab.lookup_assign intro!: records_quiet)
  qed
qed

lemma on_manager_silent:
  assumes "on_manager wid' f w = Inr w'" and "world_recorded True w"
    and "\<And>m m' sh'. all_recorded True (m, common w) \<Longrightarrow> f (m, common w) = Inr (m', sh') \<Longrightarrow>
      records [] (view k (m, common w)) (view k (m', sh'))"
  shows "records [] (world_view wid k w) (world_view wid k w')"
proof -
  have "records (if wid' = wid then [] else []) (world_view wid k w) (world_view wid k w')"
    using assms(1,2)
  proof (rule on_manager_records)
    fix m m' sh'
    assume "map_of (watched w) wid' = Some m" and "f (m, common w) = Inr (m', sh')"
    with assms(3) world_recordedD [OF assms(2)]
    show "records (if wid' = wid then [] else []) (view k (m, common w)) (view k (m', sh'))" by simp
  qed simp
  then show ?thesis by simp
qed

lemma forward_streams_records:
  assumes "efold (forward_stream sh status wid df) ks (m, found) = Inr (m', found')" and "distinct ks" and "capturing sh"
  shows "records (if k \<in> set ks \<and> (\<exists>d. map_of (streams m) k = Some d \<and> ss_fd d = df_fd df) then [From_target (df_buffer df)] else [])
    (map_of (streams m) k, fin) (map_of (streams m') k, fin)"
  using assms(1,2)
proof (induction ks arbitrary: m found)
  case (Cons j ks)
  then obtain m1 found1 where st: "forward_stream sh status wid df j (m, found) = Inr (m1, found1)"
    and rest: "efold (forward_stream sh status wid df) ks (m1, found1) = Inr (m', found')"
    by (auto simp: ebind_eq_Inr)
  note ih = Cons.IH [OF rest] 
  consider (none) "m1 = m" "\<And>d. map_of (streams m) j = Some d \<Longrightarrow> ss_fd d \<noteq> df_fd df"
    | (sends) d u where "map_of (streams m) j = Some d" "ss_fd d = df_fd df"
        "send_data sh j (df_buffer df) (of_nat (length (df_buffer df))) m = Inr u" "streams m1 = streams u"
    using st by (cases "status wid j") (auto simp: forward_stream_def ebind_eq_Inr split: option.splits if_splits)
  then show ?case
  proof cases
    case none
    with ih Cons.prems(2) show ?thesis by (cases "j = k") (auto split: if_splits)
  next
    case sends
    have r: "records (if j = k then [From_target (df_buffer df)] else []) (map_of (streams m) k, fin) (map_of (streams m1) k, fin)"
      using send_data_records [OF assms(3) sends(3), of k fin] sends(4) by simp
    show ?thesis
    proof (cases "j = k")
      case True
      with ih Cons.prems(2) have "records [] (map_of (streams m1) k, fin) (map_of (streams m') k, fin)" by auto
      from records_trans [OF r this] True sends(1,2) show ?thesis by auto
    next
      case False
      have "map_of (streams u) k = map_of (streams m) k"
        using sends(3) False assms(3)
        by (auto simp: send_data_def capture_def ebind_eq_Inr ws_send_def tab.lookup_assign split: option.splits)
      with ih Cons.prems(2) False sends(4) show ?thesis by auto
    qed
  qed
qed simp

lemma forward_managers_records:
  assumes "efold (forward_manager status df) wids (w, found) = Inr (w', found')" and "distinct wids"
    and "world_recorded True w" and "\<And>m. map_of (watched w) wid = Some m \<Longrightarrow> keys_ok (streams m)"
  shows "records (if wid \<in> set wids \<and> has_stream wid k (df_fd df) w then [From_target (df_buffer df)] else [])
    (world_view wid k w) (world_view wid k w')"
  using assms
proof (induction wids arbitrary: w found)
  case (Cons j wids)
  then obtain w1 found1 where st: "forward_manager status df j (w, found) = Inr (w1, found1)"
    and rest: "efold (forward_manager status df) wids (w1, found1) = Inr (w', found')"
    by (auto simp: ebind_eq_Inr)
  have rec: "world_recorded True w1"
    using mirrors_kept [OF forward_manager_unseen [of True "(w, found)"] st] Cons.prems(3) by simp
  have c: "capturing (common w)" using Cons.prems(3) by (simp add: world_recorded_def recording_def)
  show ?case
  proof (cases "map_of (watched w) j")
    case None
    with st have "w1 = w" by (simp add: forward_manager_def)
    moreover have "\<not> has_stream wid k (df_fd df) w" if "wid = j" using None that by (simp add: has_stream_def)
    ultimately show ?thesis
      using Cons.IH [OF rest _ rec] Cons.prems(2,4) by (auto split: if_splits)
  next
    case (Some m)
    then obtain m1 where f: "efold (forward_stream (common w) status j df) (map fst (streams m)) (m, found) = Inr (m1, found1)"
      and w1: "w1 = w\<lparr>watched := AList.update j m1 (watched w)\<rparr>"
      using st by (auto simp: forward_manager_def ebind_eq_Inr)
    show ?thesis
    proof (cases "j = wid")
      case True
      have d: "distinct (map fst (streams m))" using Cons.prems(4) Some True by (simp add: keys_ok_def)
      have "records (if has_stream wid k (df_fd df) w then [From_target (df_buffer df)] else [])
          (world_view wid k w) (world_view wid k w1)"
        using forward_streams_records [OF f d c, of k "finished_captures (common w)"] Some True w1 map_of_eq_None_iff [of "streams m" k]
        by (auto simp: world_view_def has_stream_def tab.lookup_assign split: option.splits if_splits)
      moreover have "records [] (world_view wid k w1) (world_view wid k w')"
        using Cons.prems(2) True rest
      proof (induction wids arbitrary: w1 found1)
        case (Cons i wids)
        then obtain w2 found2 where i: "forward_manager status df i (w1, found1) = Inr (w2, found2)" "i \<noteq> wid"
          "efold (forward_manager status df) wids (w2, found2) = Inr (w', found')"
          by (auto simp: ebind_eq_Inr)
        then have "world_view wid k w2 = world_view wid k w1"
          by (auto simp: forward_manager_def world_view_def ebind_eq_Inr tab.lookup_assign split: option.splits)
        with Cons.IH [OF _ _ i(3)] Cons.prems show ?case by simp
      qed simp
      ultimately show ?thesis using records_trans True by fastforce
    next
      case False
      then have "map_of (watched w1) wid = map_of (watched w) wid" "world_view wid k w1 = world_view wid k w"
        by (simp_all add: w1 tab.lookup_assign world_view_def)
      with Cons.IH [OF rest _ rec] Cons.prems(2,4) False show ?thesis by (auto simp: has_stream_def)
    qed
  qed
qed simp

lemma deliver_records:
  assumes "deliver status df w = Inr w'" and "world_recorded True w" and "managers_ok w"
  shows "records (if has_stream wid k (df_fd df) w then [From_target (df_buffer df)] else [])
    (world_view wid k w) (world_view wid k w')"
proof -
  obtain w1 found where f: "efold (forward_manager status df) (map fst (watched w)) (w, None) = Inr (w1, found)"
    and r: "ebind (case found of
              Some (wid, k) \<Rightarrow> if df_to_close df then on_manager wid (close_stream k False) w1 else Inr w1
            | None \<Rightarrow> Inr w1) (\<lambda>w.
       let w = w\<lparr>common := (common w)\<lparr>send_queue_len := send_queue_len (common w) - 1\<rparr>\<rparr>
       in if send_queue_len (common w) < MAX_QUEUE
          then efold refresh_manager (map fst (watched w)) w else Inr w) = Inr w'"
    using assms(1) by (auto simp: deliver_def ebind_eq_Inr)
  have "mirrors (\<lambda>r. world_recorded True (fst r)) (map_prod plain_world id)
      (efold (forward_manager status df) (map fst (watched w)) (w, None))
      (efold (forward_manager status df) (map fst (watched w)) (map_prod plain_world id (w, None)))"
    using assms(2) by (intro mirrors_efold forward_manager_unseen) simp_all
  from mirrors_kept [OF this f] have rec1: "world_recorded True w1" by simp
  have t1: "records (if has_stream wid k (df_fd df) w then [From_target (df_buffer df)] else [])
      (world_view wid k w) (world_view wid k w1)"
  proof -
    have "distinct (map fst (watched w))" "\<And>m. map_of (watched w) wid = Some m \<Longrightarrow> keys_ok (streams m)"
      using assms(3) managers_okD [OF assms(3)] by (auto simp: managers_ok_def keys_ok_def manager_ok_def)
    note forwarded = forward_managers_records [where k = k and wid = wid, OF f this(1) assms(2) this(2)]
    have "wid \<in> set (map fst (watched w))" if "has_stream wid k (df_fd df) w"
      using that map_of_eq_None_iff [of "watched w" wid] by (auto simp: has_stream_def split: option.splits)
    with forwarded show ?thesis by (auto split: if_splits)
  qed
  from r obtain w2 where c: "(case found of
              Some (wid, k) \<Rightarrow> if df_to_close df then on_manager wid (close_stream k False) w1 else Inr w1
            | None \<Rightarrow> Inr w1) = Inr w2"
    by (auto simp: ebind_eq_Inr)
  have q: "records [] (world_view wid k w1) (world_view wid k w2) \<and> world_recorded True w2"
    if o: "on_manager wid' (close_stream k' False) w1 = Inr w2" for wid' k'
  proof
    show "world_recorded True w2" using mirrors_kept [OF close_unseen.on_manager_unseen [OF rec1] o] .
    show "records [] (world_view wid k w1) (world_view wid k w2)"
      using o rec1 close_stream_records by (rule on_manager_silent)
  qed
  have t2: "records [] (world_view wid k w1) (world_view wid k w2)" and rec2: "world_recorded True w2"
    using c q rec1 by (auto split: option.splits if_splits)
  let ?w3 = "w2\<lparr>common := (common w2)\<lparr>send_queue_len := send_queue_len (common w2) - 1\<rparr>\<rparr>"
  have t3: "world_view wid k ?w3 = world_view wid k w2" and rec3: "world_recorded True ?w3"
    using rec2 by (simp_all add: world_view_def world_recorded_def)
  have "world_recorded True v \<and> records [] (world_view wid k u) (world_view wid k v)"
    if o: "refresh_manager wid' u = Inr v" and u: "world_recorded True u" for wid' u v
  proof
    show "world_recorded True v"
      using mirrors_kept [OF refresh_unseen.on_manager_unseen [OF u]] o by (simp add: refresh_manager_def)
    show "records [] (world_view wid k u) (world_view wid k v)"
      using o [unfolded refresh_manager_def] u
      by (rule on_manager_silent) (auto simp: ebind_eq_Inr view_def intro: update_streams_records)
  qed
  then have "records [] (world_view wid k ?w3) (world_view wid k v)"
    if "efold refresh_manager wids ?w3 = Inr v" for wids v
    using efold_records [where P = "world_recorded True" and g = "world_view wid k", OF that rec3] by blast
  then have "records [] (world_view wid k ?w3) (world_view wid k w')"
    using r c by (auto simp: Let_def split: if_splits)
  with t2 t3 have "records [] (world_view wid k w1) (world_view wid k w')"
    using records_trans [of "[]" _ _ "[]"] by simp
  with t1 show ?thesis using records_trans [of _ _ _ "[]"] by fastforce
qed

lemma step_records:
  assumes "world_recorded True w" and "managers_ok w" and "step net e w = Inr w'"
    and "\<not> reconnects wid k e" and "e = Open \<longrightarrow> next_id w \<noteq> wid" and "e \<noteq> Close wid"
  shows "records (captured_by wid k e w) (world_view wid k w) (world_view wid k w')"
proof (cases e)
  case Open
  with assms(3,5) show ?thesis
    by (auto simp: captured_by_def open_socket_def ebind_eq_Inr world_view_def tab.lookup_assign intro!: records_quiet)
next
  case (Message wid' now rcv n)
  have "records [] (world_view wid k w) (world_view wid k w')"
  proof (cases "wid' = wid")
    case True
    have "records [] (view k (m, common w)) (view k (m', sh'))"
      if "receive net now rcv n (m, common w) = Inr (m', sh')" for m m' sh'
      using receive_records [OF that, of wid k] assms(4) Message True by simp
    with assms(3) [unfolded Message step.simps] assms(1) show ?thesis by (rule on_manager_silent)
  next
    case False
    show ?thesis
    proof (cases "map_of (watched w) wid'")
      case (Some m)
      with assms(3) Message obtain m' sh' where st: "receive net now rcv n (m, common w) = Inr (m', sh')"
        "w' = w\<lparr>watched := AList.update wid' m' (watched w), common := sh'\<rparr>"
        by (auto simp: on_manager_def ebind_eq_Inr)
      have "\<not> (reconnects wid' 0 (Message wid' now rcv n) \<and> reconnects wid' 1 (Message wid' now rcv n))"
        by (cases "WispPacket rcv n") (simp_all add: reconnects_def)
      then have "\<exists>k'. \<not> reconnects wid' k' (Message wid' now rcv n)" by blast
      with st(1) receive_records obtain k' where "records [] (view k' (m, common w)) (view k' (m', sh'))" by blast
      then have "set (finished_captures (common w)) \<subseteq> set (finished_captures sh')" by (simp add: records_def view_def)
      with False st(2) show ?thesis by (auto simp: world_view_def tab.lookup_assign intro!: records_quiet)
    qed (use assms(3) Message in \<open>simp add: on_manager_def\<close>)
  qed
  with Message show ?thesis by (simp add: captured_by_def)
next
  case (Drain wid')
  have "records [] (world_view wid k w) (world_view wid k w')"
    using assms(3) [unfolded Drain step.simps drain_socket_def] assms(1)
    by (rule on_manager_silent) (auto simp: ebind_eq_Inr view_def dest: update_streams_records)
  with Drain show ?thesis by (simp add: captured_by_def)
next
  case (Close wid')
  with assms(3) obtain w1 where w1: "on_manager wid' force_close w = Inr w1"
    and w': "w' = w1\<lparr>watched := AList.delete wid' (watched w1)\<rparr>"
    by (auto simp: close_socket_def ebind_eq_Inr)
  have "records [] (world_view wid k w) (world_view wid k w1)"
    using w1 assms(1) force_close_records by (rule on_manager_silent)
  moreover have "world_view wid k w' = world_view wid k w1"
    using assms(6) Close by (simp add: w' world_view_def tab.lookup_erase)
  ultimately show ?thesis using Close by (simp add: captured_by_def)
next
  case (Watch as)
  with assms(3) have "world_view wid k w' = world_view wid k w"
    by (auto simp: world_view_def watch_event_def Let_def split: list.splits option.splits)
  with Watch show ?thesis by (simp add: captured_by_def)
next
  case (Deliver status)
  show ?thesis
  proof (cases "deferreds w")
    case (Cons df dfs)
    have "managers_ok (w\<lparr>deferreds := dfs\<rparr>)"
      by (rule managers_ok_cong [where w = w]) (use assms(2) in \<open>simp_all add: managers_ok_def\<close>)
    moreover have "deliver status df (w\<lparr>deferreds := dfs\<rparr>) = Inr w'" using assms(3) Deliver Cons by simp
    ultimately show ?thesis
      using deliver_records [of status df "w\<lparr>deferreds := dfs\<rparr>" w' wid k] assms(1) Deliver Cons
      by (simp add: captured_by_def world_view_def has_stream_def)
  qed (use Deliver assms(3) in \<open>simp add: captured_by_def\<close>)
next
  case Dequeue
  with assms(3) have "world_view wid k w' = world_view wid k w"
    by (auto simp: world_view_def dequeue_def split: list.splits)
  with Dequeue show ?thesis by (simp add: captured_by_def)
next
  case (Run i as)
  let ?t = "running w ! i"
  show ?thesis
  proof (cases "i < length (running w)")
    case True
    have rd: "readable (wt_packet ?t)" using assms(1) True by (simp add: world_recorded_def)
    from assms(3) Run True obtain m r where m: "map_of (watched w) (wt_this ?t) = Some m"
      and r: "run_task as (wt_packet ?t) (m, common w) = Inr r"
      and w': "(case r of None \<Rightarrow> Inr w | Some (m', sh') \<Rightarrow> Inr (w\<lparr>watched := AList.update (wt_this ?t) m' (watched w),
          common := sh', running := take i (running w) @ drop (Suc i) (running w), executed := executed w @ [?t]\<rparr>)) = Inr w'"
      by (auto simp: run_running_def Let_def ebind_eq_Inr split: option.splits)
    show ?thesis
    proof (cases r)
      case None
      with run_task_waits r have "list_all (\<lambda>a. a = Write_again) as" by blast
      with None w' Run show ?thesis by (simp add: captured_by_def)
    next
      case (Some ms')
      obtain m' sh' where ms': "ms' = (m', sh')" by fastforce
      have e: "\<not> list_all (\<lambda>a. a = Write_again) as" using run_task_ends r Some by blast
      have rec: "records (if stream_id (wt_packet ?t) = k' then replicate (rounds as) (From_user (payload (wt_packet ?t))) else [])
          (view k' (m, common w)) (view k' (m', sh'))" for k'
        using run_task_records [OF world_recordedD [OF assms(1) m] rd, of as "(m', sh')" k'] r Some ms' by simp
      have sub: "set (finished_captures (common w)) \<subseteq> set (finished_captures sh')"
        using rec [of k] by (simp add: records_def view_def)
      show ?thesis
      proof (cases "wt_this ?t = wid")
        case True
        with w' Some ms' m e rec [of k] Run \<open>i < length (running w)\<close> show ?thesis
          by (auto simp: captured_by_def world_view_def view_def tab.lookup_assign)
      next
        case False
        with w' Some ms' sub Run show ?thesis
          by (auto simp: captured_by_def world_view_def tab.lookup_assign intro!: records_quiet)
      qed
    qed
  qed (use Run assms(3) in \<open>simp add: captured_by_def run_running_def\<close>)
qed (use assms(3) in \<open>auto simp: captured_by_def world_view_def split: if_splits\<close>)

section \<open>Runs\<close>

text \<open>A server that captures, in the states it reaches.\<close>

definition captures :: "net \<Rightarrow> world \<Rightarrow> bool" where
  "captures net w \<longleftrightarrow> fresh_socket net \<and> world_ok w \<and> buffers_ok w \<and> world_recorded True w"

lemma plain_serves:
  assumes "captures net w"
  shows "serves net (plain_world w)"
proof -
  have s: "manager_ok (plain_shared sh) (plain_manager m)" if "manager_ok sh m" for sh m
  proof -
    have "fields_unique ss_fd (streams (plain_manager m))"
      using that by (fastforce simp: manager_ok_def fields_unique_def)
    with that show ?thesis
      by (fastforce simp: manager_ok_def stream_ok_def keys_ok_def)
  qed
  have f: "fds (plain_manager m) = fds m" for m
    by (auto simp: fds_def) (metis, metis plain_stream_simps(3))
  have "managers_ok (plain_world w)"
    using assms s f by (fastforce simp: captures_def world_ok_def managers_ok_def keys_ok_def)
  with assms show ?thesis by (simp add: captures_def serves_def world_ok_def buffers_ok_def)
qed

lemma captures_reached:
  assumes "fresh_socket net" and "os_ok os" and "pcap_capture (get_conf c)" and "buffers_ok w"
    and "run_events net es (initial_world c True n os) = Inr w"
  shows "captures net w"
proof -
  let ?w = "initial_world c True n os"
  have i: "world_ok ?w" using assms(2) starts_ok by (simp add: starts_def)
  have "capturing (common ?w)" using assms(3) by (simp add: capturing_def initial_world_def)
  then have "world_recorded True ?w" using world_recorded_initial [of c True n os] by simp
  from mirrors_kept [OF run_unseen [OF this] assms(5)] have r: "world_recorded True w" .
  have "world_ok w"
    using assms(5) [unfolded run_events_def] i
    by (rule efold_invariant [where P = world_ok]) (use step_ok [OF assms(1)] in blast)
  with r assms show ?thesis by (simp add: captures_def)
qed

lemma has_stream_plain [simp]: "has_stream wid k fd (plain_world w) = has_stream wid k fd w"
  by (auto simp: has_stream_def split: option.split)

lemma steady_plain [simp]: "steady wid k fd e (plain_world w) = steady wid k fd e w"
  by (simp add: steady_def cong: event.case_cong)

lemma client_gets_plain [simp]: "client_gets wid k (plain_world w) = client_gets wid k w"
  by (simp add: client_gets_def sent_to_def split: option.split)

lemma captures_step:
  assumes "captures net w" and "steady wid k fd e w" and "step net e w = Inr w'"
  shows "captures net w'" "step net e (plain_world w) = Inr (plain_world w')"
proof -
  have r: "world_recorded True w" using assms(1) by (simp add: captures_def)
  from step_unseen [OF r, of net e] assms(3) show st: "step net e (plain_world w) = Inr (plain_world w')" by simp
  have "serves net (plain_world w')" by (rule serves_step [OF plain_serves [OF assms(1)] _ st]) (use assms(2) in simp)
  then have "buffers_ok w'" by (simp add: serves_def buffers_ok_def)
  moreover have "world_ok w'" using step_ok [OF _ _ assms(3)] assms(1) by (simp add: captures_def)
  moreover have "world_recorded True w'" using step_unseen [OF r, of net e] assms(3) by simp
  ultimately show "captures net w'" using assms(1) by (simp add: captures_def)
qed

lemma written_append [simp]:
  "written (ws @ ws') = (fst (written ws) @ fst (written ws'), snd (written ws) @ snd (written ws'))"
  by (induction ws rule: written.induct) simp_all

lemma written_replicate [simp]:
  "written (replicate n (From_user b)) = (concat (replicate n b), [])"
  by (induction n) simp_all

text \<open>Of what is captured, the client has got the part from the target.\<close>

lemma step_gets:
  assumes "serves net w" and "steady wid k fd e w" and "undropped wid k e" and "step net e w = Inr w'"
  shows "client_gets wid k w' = client_gets wid k w @ snd (written (captured_by wid k e w))"
proof (cases "callback e")
  case True
  then have "captured_by wid k e w = []" by (cases e) (simp_all add: callback_def captured_by_def)
  with callback_calm [OF assms(1,2,4) True] show ?thesis by (simp add: calm_for_def)
next
  case False
  have hs: "has_stream wid k fd w" using assms(2) by (simp add: steady_def)
  show ?thesis
  proof (cases e)
    case (Wait fds)
    with assms(4) show ?thesis by (auto simp: captured_by_def client_gets_def sent_to_def split: if_splits)
  next
    case (Watch as)
    with assms(4) have "watched w' = watched w" by (auto simp: watch_event_keeps split: list.splits)
    from sent_to_cong [OF this] Watch show ?thesis by (simp add: captured_by_def)
  next
    case (Deliver status)
    show ?thesis
    proof (cases "deferreds w")
      case (Cons df dfs)
      have "has_stream wid k (df_fd df) w \<longleftrightarrow> df_fd df = fd" using hs by (auto simp: has_stream_def split: option.splits)
      with deliver_moves [OF assms(1) hs Cons] assms(3,4) Deliver Cons show ?thesis by (simp add: captured_by_def undropped_def)
    qed (use Deliver assms(4) in \<open>simp add: captured_by_def\<close>)
  next
    case Dequeue
    with assms(4) dequeue_moves [of w] show ?thesis by (auto simp: captured_by_def client_gets_def sent_to_def)
  next
    case (Run i as)
    then have "run_running i as w = Inr w'" using assms(4) by simp
    from run_running_moves [OF assms(1) this] have "map_of (watched w') = map_of (watched w)" by (auto simp: Let_def)
    with Run show ?thesis by (simp add: captured_by_def client_gets_def sent_to_def)
  qed (use False in \<open>simp_all add: callback_def\<close>)
qed

text \<open>The user's part: the payloads of the write tasks that end, one copy for each round.\<close>

definition tried :: "size_t \<Rightarrow> u32 \<Rightarrow> event \<Rightarrow> world \<Rightarrow> buffer" where
  "tried wid k e w = fst (written (captured_by wid k e w))"

lemma captured_writes:
  assumes "captured us ts p" and "efold do_write ws p = Inr p'" and "list_all (\<lambda>x. write_size x < 2 ^ 63) ws"
  shows "captured (us @ fst (written ws)) (ts @ snd (written ws)) p'"
  using do_writes_captured [OF assms(1,3)] assms(2) by auto

lemma captured_by_plain [simp]: "captured_by wid k e (plain_world w) = captured_by wid k e w"
  by (cases e) (auto simp: captured_by_def cong: list.case_cong)

lemma captured_by_size:
  assumes "captures net w"
  shows "list_all (\<lambda>x. write_size x < 2 ^ 63) (captured_by wid k e w)"
proof -
  have t: "length (payload (wt_packet (running w ! i))) < 2 ^ 63" if "i < length (running w)" for i
  proof -
    have "readable (wt_packet (running w ! i))" using that assms by (simp add: captures_def world_recorded_def)
    then show ?thesis by (simp add: readable_def payload_def)
  qed
  have d: "length (df_buffer df) < 2 ^ 63" if "deferreds w = df # dfs" for df dfs
  proof -
    have "length (df_buffer df) \<le> 63020480" using that assms by (simp add: captures_def buffers_ok_def)
    then show ?thesis by simp
  qed
  show ?thesis
    using t d by (cases "deferreds w") (auto simp: captured_by_def list_all_iff simp del: power_numeral split: event.split)
qed

text \<open>The capture of the stream, open or finished.\<close>

definition has_capture :: "size_t \<Rightarrow> u32 \<Rightarrow> pcap_interface \<Rightarrow> world \<Rightarrow> bool" where
  "has_capture wid k p w \<longleftrightarrow> (case fst (world_view wid k w) of
      Some d \<Rightarrow> ss_pcap d = Some p
    | None \<Rightarrow> PcapInterface_destroy p \<in> set (finished_captures (common w)))"

lemma run_captures:
  assumes "captures net w" and "along (step net) (\<lambda>e w. steady wid k fd e w \<and> undropped wid k e \<and> \<not> reconnects wid k e) es w"
    and "run_events net es w = Inr w'" and "has_capture wid k p w" and "captured us ts p"
  shows "\<exists>p' x. has_capture wid k p' w' \<and> client_gets wid k w' = client_gets wid k w @ x \<and>
    captured (us @ collect (step net) (tried wid k) es w) (ts @ x) p'"
  using assms
proof (induction es arbitrary: w p us ts)
  case Nil
  then show ?case by (auto simp: run_events_def)
next
  case (Cons e es)
  then obtain u where u: "step net e w = Inr u" "steady wid k fd e w" "undropped wid k e" "\<not> reconnects wid k e"
    "along (step net) (\<lambda>e w. steady wid k fd e w \<and> undropped wid k e \<and> \<not> reconnects wid k e) es u" "run_events net es u = Inr w'"
    by (auto simp: continue_with_True run_events_def)
  note s = captures_step [OF Cons.prems(1) u(2,1)]
  let ?ws = "captured_by wid k e w"
  have "records ?ws (world_view wid k w) (world_view wid k u)"
  proof (rule step_records [OF _ _ u(1,4)])
    show "world_recorded True w" "managers_ok w" using Cons.prems(1) by (simp_all add: captures_def world_ok_managers)
    show "e = Open \<longrightarrow> next_id w \<noteq> wid" "e \<noteq> Close wid" using u(2) by (auto simp: steady_def)
  qed
  moreover obtain d where d: "fst (world_view wid k w) = Some d"
    using u(2) by (auto simp: steady_def has_stream_def world_view_def split: option.splits)
  moreover have "ss_pcap d = Some p" using Cons.prems(4) d by (simp add: has_capture_def)
  ultimately obtain p1 where p1: "efold do_write ?ws p = Inr p1" "has_capture wid k p1 u"
    by (fastforce simp: records_def has_capture_def world_view_def split: option.splits)
  have "captured (us @ fst (written ?ws)) (ts @ snd (written ?ws)) p1"
    using captured_writes [OF Cons.prems(5) p1(1) captured_by_size [OF Cons.prems(1)]] .
  from Cons.IH [OF s(1) u(5,6) p1(2) this] obtain p' x where p': "has_capture wid k p' w'"
    "client_gets wid k w' = client_gets wid k u @ x"
    "captured ((us @ fst (written ?ws)) @ collect (step net) (tried wid k) es u) ((ts @ snd (written ?ws)) @ x) p'"
    by blast
  moreover have "client_gets wid k u = client_gets wid k w @ snd (written ?ws)"
    using step_gets [OF plain_serves [OF Cons.prems(1)] _ u(3) s(2), of fd] u(2) by simp
  ultimately show ?case using u(1)
    by (intro exI [of _ p'] exI [of _ "snd (written ?ws) @ x"]) (simp add: tried_def [of wid k e w])
qed

text \<open>A run of a server that captures is one of the server that does not, with the same observations.\<close>

lemma plain_run:
  assumes "captures net w" and "along (step net) G es w" and "run_events net es w = Inr w'"
    and "\<And>e w. G e w \<Longrightarrow> steady wid k fd e w" and "\<And>e w. G e (plain_world w) = G e w"
    and "\<And>e w. f e (plain_world w) = f e w"
  shows "along (step net) G es (plain_world w) \<and> run_events net es (plain_world w) = Inr (plain_world w') \<and>
    collect (step net) f es (plain_world w) = collect (step net) f es w"
  using assms(1-3)
proof (induction es arbitrary: w)
  case Nil
  then show ?case by (simp add: run_events_def)
next
  case (Cons e es)
  then obtain u where u: "step net e w = Inr u" "G e w" "along (step net) G es u" "run_events net es u = Inr w'"
    by (auto simp: continue_with_True run_events_def)
  note s = captures_step [OF Cons.prems(1) assms(4) [OF u(2)] u(1)]
  from Cons.IH [OF s(1) u(3,4)] s(2) u(1,2) assms(5,6) show ?case by (simp add: run_events_def)
qed

text \<open>So both channels of theory EndToEnd work in a server that captures.\<close>

corollary capturing_target_to_client:
  assumes "captures net w" and "along (step net) (\<lambda>e w. steady wid k fd e w \<and> undropped wid k e) es w" and "run_events net es w = Inr w'"
  shows "client_gets wid k w' @ deferred_bytes fd (deferreds w') =
    client_gets wid k w @ deferred_bytes fd (deferreds w) @ collect (step net) (bytes_from fd) es w"
proof -
  note p = plain_run [OF assms, of wid k fd "bytes_from fd"]
  have "bytes_from fd e (plain_world w) = bytes_from fd e w" for e w
    by (simp add: bytes_from_def cong: event.case_cong)
  with p downstream.run_conserves [of net wid k fd es "plain_world w" "plain_world w'"] plain_serves [OF assms(1)]
  show ?thesis by (simp add: run_events_def)
qed

corollary capturing_client_to_target:
  assumes "captures net w" and "workers w \<le> 1"
    and "along (step net) (\<lambda>e w. steady wid k fd e w \<and> takes_whole e w) es w" and "run_events net es w = Inr w'"
  shows "target_gets fd w' @ waiting_bytes wid k w' =
    target_gets fd w @ waiting_bytes wid k w @ collect (step net) (bytes_to wid k) es w"
proof -
  have e: "takes_whole e (plain_world w) = takes_whole e w" "bytes_to wid k e (plain_world w) = bytes_to wid k e w" for e w
    by (simp_all add: takes_whole_def bytes_to_def cong: event.case_cong)
  note p = plain_run [OF assms(1,3,4), of wid k fd "bytes_to wid k"]
  have "target_gets fd (plain_world v) = target_gets fd v" "waiting_bytes wid k (plain_world v) = waiting_bytes wid k v" for v
    by (simp_all add: target_gets_def waiting_bytes_def)
  with p e upstream.run_conserves [of net wid k fd es "plain_world w" "plain_world w'"] plain_serves [OF assms(1)] assms(2)
  show ?thesis by (simp add: run_events_def)
qed

section \<open>Properties\<close>

text \<open>
  The capture of a stream is what happened to it: over a run in which the stream is open (until
  its last event), its id is not used again and uWebSockets drops none of its messages, its
  file (finished, if the stream has been closed) stays a well-formed TCP conversation, in
  which the target has sent what the client has received in DATA frames, and the client the
  payloads of the write tasks that have ended, in the order in which they have ended: each as
  often as its task has gone round its loop, also if the \<open>poll\<close> of a round fails. The rounds of
  a task are one event here, at its end. In the code they are not: the payload is in the file
  before the \<open>poll\<close> of its round, so the file is ahead of the model while a task waits, and with
  several workers the rounds of their tasks may be in another order.
\<close>
theorem captures_faithful:
  assumes "captures net w" and "along (step net) (\<lambda>e w. steady wid k fd e w \<and> undropped wid k e \<and> \<not> reconnects wid k e) es w"
    and "run_events net es w = Inr w'" and "has_capture wid k p w" and "captured us ts p"
  shows "\<exists>p' x. has_capture wid k p' w' \<and> client_gets wid k w' = client_gets wid k w @ x \<and>
    captured (us @ collect (step net) (tried wid k) es w) (ts @ x) p'"
  using assms by (rule run_captures)

text \<open>
  A client sends one byte; the first write of the task is answered with \<open>EAGAIN\<close>, the second
  takes the byte. The target gets it once, but it is in the capture twice.
\<close>

definition capturing_world :: world where
  "capturing_world = initial_world (example_conf\<lparr>pcap_capture := True\<rparr>) True 1 quiet_os"

definition opening_events :: "event list" where
  "opening_events = [Open, connect_message 0 7]"

definition retry_events :: "event list" where
  "retry_events = [data_message 0 7 1, Dequeue, Run 0 [Write_again, Write_took 1]]"

theorem captures_faithful_witness:
  "\<exists>w w' p. run_events quiet_net opening_events capturing_world = Inr w \<and> run_events quiet_net retry_events w = Inr w' \<and>
     has_capture 0 7 p w' \<and> captured [Some 1, Some 1] [] p \<and> target_gets 6 w' = [Some 1]"
proof -
  have "ebind (run_events quiet_net opening_events capturing_world) (\<lambda>w.
      ebind (run_events quiet_net retry_events w) (\<lambda>w'. Inr (
        case fst (world_view 0 7 w) of None \<Rightarrow> False | Some d \<Rightarrow>
          (case PcapInterface (ss_pcap_file d) (ai_addr (ss_fd_info d)) 80 of Inl e \<Rightarrow> False | Inr p \<Rightarrow> ss_pcap d = Some p),
        (deferreds w = [],
        along (step quiet_net) (\<lambda>e w. steady 0 7 6 e w \<and> undropped 0 7 e \<and> \<not> reconnects 0 7 e) retry_events w,
        collect (step quiet_net) (tried 0 7) retry_events w, target_gets 6 w', client_gets 0 7 w')))) =
    (Inr (True, True, True, [Some 1, Some 1], [Some 1], []) :: (bool \<times> bool \<times> bool \<times> buffer \<times> buffer \<times> buffer) result)"
    by code_simp
  then obtain w w' where w: "run_events quiet_net opening_events capturing_world = Inr w"
    "run_events quiet_net retry_events w = Inr w'"
    and v: "case fst (world_view 0 7 w) of None \<Rightarrow> False | Some d \<Rightarrow>
          (case PcapInterface (ss_pcap_file d) (ai_addr (ss_fd_info d)) 80 of Inl e \<Rightarrow> False | Inr p \<Rightarrow> ss_pcap d = Some p)"
    and a: "deferreds w = []" "along (step quiet_net) (\<lambda>e w. steady 0 7 6 e w \<and> undropped 0 7 e \<and> \<not> reconnects 0 7 e) retry_events w"
      "collect (step quiet_net) (tried 0 7) retry_events w = [Some 1, Some 1]" "target_gets 6 w' = [Some 1]"
      "client_gets 0 7 w' = []"
    by (auto simp: ebind_eq_Inr)
  from v obtain d p where d: "fst (world_view 0 7 w) = Some d" "ss_pcap d = Some p"
    "PcapInterface (ss_pcap_file d) (ai_addr (ss_fd_info d)) 80 = Inr p"
    by (auto split: option.splits sum.splits)
  have c: "captured [] [] p" using PcapInterface_captured [of "ss_pcap_file d" "ai_addr (ss_fd_info d)" 80] d(3) by auto
  have h: "has_capture 0 7 p w" using d by (simp add: has_capture_def)
  have "captures quiet_net w"
    using w(1) unfolding capturing_world_def
    by (intro captures_reached [OF fresh_quiet_net]) (auto simp: os_ok_def quiet_os_def buffers_ok_def a example_conf_def get_conf_def)
  from captures_faithful [OF this a(2) w(2) h c] a w show ?thesis by auto
qed

end
