(* ===== verification/Integrity.thy ===== *)
theory Integrity
  imports Deployment EndToEnd
begin

text \<open>
  What a target can get at all, without any assumption on the pool or the kernel: theory
  EndToEnd says when everything arrives; here the workers are many, writes are partial or
  fail, and tasks are reordered. What is left is integrity: a target gets nothing but initial
  parts of the packets its own client has sent to it, each packet at most once.
\<close>

section \<open>The tasks of a stream\<close>

definition stream_tasks :: "size_t \<Rightarrow> u32 \<Rightarrow> write_task list \<Rightarrow> write_task list" where
  "stream_tasks wid k ts = filter (\<lambda>t. wt_this t = wid \<and> stream_id (wt_packet t) = k) ts"

lemma stream_tasks_simps [simp]:
  "stream_tasks wid k [] = []" "stream_tasks wid k (ts @ us) = stream_tasks wid k ts @ stream_tasks wid k us"
  "stream_tasks wid k (t # ts) =
     (if wt_this t = wid \<and> stream_id (wt_packet t) = k then [t] else []) @ stream_tasks wid k ts"
  by (simp_all add: stream_tasks_def)

definition task_payload :: "write_task \<Rightarrow> buffer" where
  "task_payload t = payload (wt_packet t)"

text \<open>The payloads of the DATA packets that the client sends on the stream.\<close>

definition packets_to :: "size_t \<Rightarrow> u32 \<Rightarrow> event \<Rightarrow> world \<Rightarrow> buffer list" where
  "packets_to wid k e w = (case e of
      Message wid' now rcv n \<Rightarrow> if wid' = wid then
          (case WispPacket rcv n of
             Inl e \<Rightarrow> []
           | Inr p \<Rightarrow> if packet_type p = PACKET_DATA \<and> stream_id p = k then [payload p] else [])
        else []
    | _ \<Rightarrow> [])"

lemma new_tasks_packets:
  assumes "managers_ok w" and "has_stream wid k fd w"
  shows "map task_payload (stream_tasks wid k (new_tasks e w)) = packets_to wid k e w"
proof (cases e)
  case (Message wid' now rcv n)
  show ?thesis
  proof (cases "map_of (watched w) wid'")
    case None
    with assms(2) have "wid' \<noteq> wid" by (auto simp: has_stream_iff)
    with Message None show ?thesis by (simp add: new_tasks_def packets_to_def)
  next
    case (Some m)
    have s: "socket_id m = wid'" using managers_okD [OF assms(1) Some] by simp
    have "wid' = wid \<longrightarrow> map_of (streams m) k \<noteq> None" using assms(2) Some by (auto simp: has_stream_iff owns_def)
    with Message Some s show ?thesis
      by (auto simp: new_tasks_def packets_to_def message_tasks_def task_for_def task_payload_def split: sum.split)
  qed
qed (simp_all add: new_tasks_def packets_to_def)

section \<open>Steps\<close>

text \<open>
  Between two states: the tasks of the stream that have been executed, \<open>ts\<close>, each with an
  initial part of its payload written; and the payloads of the packets that have come in.
\<close>

definition transmits :: "size_t \<Rightarrow> u32 \<Rightarrow> int \<Rightarrow> buffer list \<Rightarrow> world \<Rightarrow> world \<Rightarrow> bool" where
  "transmits wid k fd bs w w' \<longleftrightarrow> (\<exists>ts ps.
     stream_tasks wid k (executed w') = stream_tasks wid k (executed w) @ ts \<and>
     list_all2 prefix ps (map task_payload ts) \<and> target_gets fd w' = target_gets fd w @ concat ps \<and>
     mset (map task_payload (stream_tasks wid k (history w'))) =
       mset (map task_payload (stream_tasks wid k (history w))) + mset bs)"

lemma transmits_trans:
  assumes "transmits wid k fd bs w w1" and "transmits wid k fd bs' w1 w'"
  shows "transmits wid k fd (bs @ bs') w w'"
proof -
  obtain ts ps where 1: "stream_tasks wid k (executed w1) = stream_tasks wid k (executed w) @ ts"
    "list_all2 prefix ps (map task_payload ts)" "target_gets fd w1 = target_gets fd w @ concat ps"
    "mset (map task_payload (stream_tasks wid k (history w1))) =
       mset (map task_payload (stream_tasks wid k (history w))) + mset bs"
    using assms(1) by (auto simp: transmits_def)
  obtain ts' ps' where 2: "stream_tasks wid k (executed w') = stream_tasks wid k (executed w1) @ ts'"
    "list_all2 prefix ps' (map task_payload ts')" "target_gets fd w' = target_gets fd w1 @ concat ps'"
    "mset (map task_payload (stream_tasks wid k (history w'))) =
       mset (map task_payload (stream_tasks wid k (history w1))) + mset bs'"
    using assms(2) by (auto simp: transmits_def)
  show ?thesis
    unfolding transmits_def
    using 1 2 by (intro exI [of _ "ts @ ts'"] exI [of _ "ps @ ps'"]) (simp add: list_all2_appendI ac_simps)
qed

text \<open>A step that executes nothing.\<close>

lemma transmits_quiet:
  assumes "executed w' = executed w" and "target_gets fd w' = target_gets fd w"
    and "mset (running w' @ tasks (common w')) = mset (running w @ tasks (common w) @ us)"
    and "map task_payload (stream_tasks wid k us) = bs"
  shows "transmits wid k fd bs w w'"
proof -
  have "mset (history w') = mset (history w @ us)" using assms(1,3) by (simp add: history_def)
  then have "mset (stream_tasks wid k (history w')) = mset (stream_tasks wid k (history w @ us))"
    unfolding stream_tasks_def mset_filter by simp
  then have "mset (map task_payload (stream_tasks wid k (history w'))) =
      mset (map task_payload (stream_tasks wid k (history w))) + mset bs"
    unfolding mset_map assms(4) [symmetric] by simp
  with assms(1,2) show ?thesis
    unfolding transmits_def by (intro exI [of _ "[]"]) simp
qed

lemma step_transmits:
  assumes "serves net w" and "steady wid k fd e w" and "step net e w = Inr w'"
  shows "transmits wid k fd (packets_to wid k e w) w w'"
proof -
  have hs: "has_stream wid k fd w" using assms(2) by (simp add: steady_def)
  have ok: "managers_ok w" using assms(1) by (simp add: serves_def world_ok_managers)
  show ?thesis
  proof (cases "callback e")
    case True
    have "executed w' = executed w"
      using True assms(3) by (intro step_executed [of e net]) (auto simp: callback_def is_pool_event_def split: event.splits)
    with callback_calm [OF assms True] new_tasks_packets [OF ok hs, of e] show ?thesis
      by (intro transmits_quiet [where us = "new_tasks e w"]) (simp_all add: calm_for_def)
  next
    case False
    then have n: "packets_to wid k e w = []" by (cases e) (simp_all add: callback_def packets_to_def)
    have quiet: ?thesis if "executed w' = executed w" "target_gets fd w' = target_gets fd w"
        "running w' @ tasks (common w') = running w @ tasks (common w)"
      using that n by (intro transmits_quiet [where us = "[]"]) simp_all
    show ?thesis
    proof (cases e)
      case (Wait fds)
      with assms(3) show ?thesis by (intro quiet) (auto simp: target_gets_def split: if_splits)
    next
      case (Watch as)
      with assms(3) step_executed [of e net w w'] show ?thesis
        by (intro quiet) (auto simp: target_gets_def watch_event_keeps is_pool_event_def split: list.splits)
    next
      case (Deliver status)
      have x: "executed w' = executed w" using assms(3) Deliver by (intro step_executed [of e net]) (simp_all add: is_pool_event_def)
      show ?thesis
      proof (cases "deferreds w")
        case Nil
        with Deliver assms(3) show ?thesis by (intro quiet) simp_all
      next
        case (Cons df dfs)
        with deliver_moves [OF assms(1) hs Cons] assms(3) Deliver x show ?thesis
          by (intro quiet) (simp_all add: still_def target_gets_def)
      qed
    next
      case Dequeue
      with assms(3) dequeue_moves [of w] show ?thesis
        by (intro quiet) (auto simp: target_gets_def dequeue_def split: list.splits)
    next
      case (Run i as)
      then have r: "run_running i as w = Inr w'" using assms(3) by simp
      show ?thesis
      proof (cases "w' = w")
        case False
        let ?t = "running w ! i"
        obtain m d b where i: "i < length (running w)" and m: "map_of (watched w) (wt_this ?t) = Some m"
          and d: "map_of (streams m) (stream_id (wt_packet ?t)) = Some d"
          and w': "running w' = take i (running w) @ drop (Suc i) (running w)" "tasks (common w') = tasks (common w)"
            "executed w' = executed w @ [?t]" "target_gets fd w' = target_gets fd w @ (if ss_fd d = fd then b else [])"
          and b: "prefix b (payload (wt_packet ?t))"
          using run_running_moves [OF assms(1) r] False by (auto simp: Let_def)
        have h: "mset (history w') = mset (history w)"
        proof -
          have "mset (running w) = mset (take i (running w) @ ?t # drop (Suc i) (running w))"
            using i by (simp add: id_take_nth_drop [symmetric])
          then show ?thesis using w' by (simp add: history_def)
        qed
        then have "mset (stream_tasks wid k (history w')) = mset (stream_tasks wid k (history w))"
          unfolding stream_tasks_def mset_filter by simp
        then have h': "mset (map task_payload (stream_tasks wid k (history w'))) =
            mset (map task_payload (stream_tasks wid k (history w)))"
          unfolding mset_map by simp
        have o: "ss_fd d = fd \<longleftrightarrow> wt_this ?t = wid \<and> stream_id (wt_packet ?t) = k"
          using ok hs m d by (rule task_owner)
        show ?thesis
        proof (cases "ss_fd d = fd")
          case True
          with o w' b h' n show ?thesis
            unfolding transmits_def by (intro exI [of _ "[?t]"] exI [of _ "[b]"]) (simp add: task_payload_def)
        next
          case False
          with o w' h' n show ?thesis
            unfolding transmits_def by (intro exI [of _ "[]"]) simp
        qed
      qed (intro quiet; simp)
    qed (use False in \<open>simp_all add: callback_def\<close>)
  qed
qed

section \<open>Properties\<close>

text \<open>
  C17: Integrity of the way to the target, with any number of workers and whatever the kernel
  answers (short writes, errors, \<open>EAGAIN\<close>): over a run in which a stream is open, the bytes
  written to its descriptor are initial parts of the payloads of the write tasks of this
  stream that have been executed, in the order of their execution; and the tasks are those
  there were and exactly one for each DATA packet that the client has sent on the stream.
\<close>
theorem integrity:
  assumes "serves net w" and "along (step net) (steady wid k fd) es w" and "run_events net es w = Inr w'"
  shows "\<exists>ts ps. stream_tasks wid k (executed w') = stream_tasks wid k (executed w) @ ts \<and>
     list_all2 prefix ps (map task_payload ts) \<and> target_gets fd w' = target_gets fd w @ concat ps \<and>
     mset (map task_payload (stream_tasks wid k (history w'))) =
       mset (map task_payload (stream_tasks wid k (history w))) + mset (collect (step net) (packets_to wid k) es w)"
proof -
  have "transmits wid k fd (collect (step net) (packets_to wid k) es w) w w'"
    using assms
  proof (induction es arbitrary: w)
    case Nil
    then show ?case by (intro transmits_quiet [where us = "[]"]) (simp_all add: run_events_def)
  next
    case (Cons e es)
    then obtain u where u: "step net e w = Inr u" "steady wid k fd e w" "along (step net) (steady wid k fd) es u"
      "run_events net es u = Inr w'"
      by (auto simp: continue_with_True run_events_def)
    from transmits_trans [OF step_transmits [OF Cons.prems(1) u(2,1)] Cons.IH [OF serves_step [OF Cons.prems(1) u(2,1)] u(3,4)]] u(1)
    show ?case by simp
  qed
  then show ?thesis by (simp add: transmits_def)
qed

text \<open>
  Two workers and partial writes: the packets [1, 2] and [3] are executed in the opposite order,
  and of [1, 2] only the first byte is written.
\<close>

definition partial_events :: "event list" where
  "partial_events = [Message 0 0 (frame PACKET_DATA 7 [Some 1, Some 2]) 7, data_message 0 7 3, Dequeue, Dequeue,
     Run 1 [Write_took 1], Run 0 [Write_again, Write_took 1]]"

theorem integrity_witness:
  "\<exists>w' ts ps. run_events quiet_net partial_events (talking\<lparr>workers := 2\<rparr>) = Inr w' \<and>
     stream_tasks 0 7 (executed w') = ts \<and> list_all2 prefix ps (map task_payload ts) \<and>
     map task_payload ts = [[Some 3], [Some 1, Some 2]] \<and> concat ps = [Some 3, Some 1]"
proof -
  let ?w = "talking\<lparr>workers := 2\<rparr>"
  have s: "serves quiet_net ?w"
    using talking_serves(1) by (simp add: serves_def world_ok_def managers_ok_def buffers_ok_def) (simp add: talking_def example_world_def)
  have a: "along (step quiet_net) (steady 0 7 6) partial_events ?w" by code_simp
  then obtain w' where w': "run_events quiet_net partial_events ?w = Inr w'"
    using along_returns [OF a] unfolding run_events_def by blast
  have "ebind (run_events quiet_net partial_events ?w) (\<lambda>w. Inr (map task_payload (stream_tasks 0 7 (executed w)), target_gets 6 w)) =
      (Inr ([[Some 3], [Some 1, Some 2]], [Some 3, Some 1]) :: (buffer list \<times> buffer) result)" by code_simp
  with w' have e: "map task_payload (stream_tasks 0 7 (executed w')) = [[Some 3], [Some 1, Some 2]]"
    "target_gets 6 w' = [Some 3, Some 1]" by simp_all
  have "executed ?w = []" "target_gets 6 ?w = []" by code_simp+
  with integrity [OF s a w'] w' e show ?thesis by auto
qed

end
