(* ===== verification/Hazards.thy ===== *)
theory Hazards
  imports Credits Deployment
begin

text \<open>
  What goes wrong, in general: theorems about the runs in which a write task has outlived its
  stream or its connection, or in which two workers have taken two tasks of one stream
  (src/src/websocketManager.cpp, \<open>handle_data\<close>). Theory WorldProps has the shortest runs.
\<close>

section \<open>Streams that are gone\<close>

definition stale :: "size_t \<Rightarrow> u32 \<Rightarrow> world \<Rightarrow> bool" where
  "stale wid k w \<longleftrightarrow> (case map_of (watched w) wid of None \<Rightarrow> True | Some m \<Rightarrow> map_of (streams m) k = None)"

text \<open>No new connection gets the id, no CONNECT opens the stream again; reads fit their buffers.\<close>

definition stays_away :: "size_t \<Rightarrow> u32 \<Rightarrow> event \<Rightarrow> world \<Rightarrow> bool" where
  "stays_away wid k e w \<longleftrightarrow> \<not> reconnects wid k e \<and> (case e of
      Open \<Rightarrow> next_id w \<noteq> wid | Watch as \<Rightarrow> list_all read_ok as | _ \<Rightarrow> True)"

lemma on_manager_deferreds: "on_manager wid f w = Inr w' \<Longrightarrow> deferreds w' = deferreds w"
  by (auto simp: on_manager_def ebind_eq_Inr split: option.splits)

lemma buffers_step:
  assumes "fresh_socket net" and "world_ok w" and "buffers_ok w" and "stays_away wid k e w" and "step net e w = Inr w'"
  shows "buffers_ok w'"
proof (cases e)
  case (Watch as)
  show ?thesis
  proof (cases "ready w")
    case (Cons fd rest)
    have a: "list_all read_ok as" using assms(4) Watch by (simp add: stays_away_def)
    have b: "length b \<le> 63020480" if "read_loop as [] = Some (b, c)" for b c
      using read_loop_spec [OF that a] by auto
    show ?thesis
    proof (cases "fd = fst (pipes (os_state (common (w\<lparr>ready := rest\<rparr>))))")
      case True
      from watch_event_keeps(5) [OF True, of as] Watch Cons assms(3,5) show ?thesis by (simp add: buffers_ok_def)
    next
      case False
      from watch_event_moves [OF False, of as] b Watch Cons assms(3,5) show ?thesis
        by (auto simp: buffers_ok_def split: option.splits)
    qed
  qed (use Watch assms(3,5) in simp)
next
  case (Deliver status)
  show ?thesis
  proof (cases "deferreds w")
    case (Cons df dfs)
    have "managers_ok (w\<lparr>deferreds := dfs\<rparr>)"
      by (rule managers_ok_cong [where w = w]) (use assms(2) in \<open>simp_all add: world_ok_def managers_ok_def\<close>)
    with assms(1,5) Deliver Cons have "still (w\<lparr>deferreds := dfs\<rparr>) w'" by (intro deliver_still) simp_all
    with Cons assms(3) show ?thesis by (simp add: still_def buffers_ok_def)
  qed (use Deliver assms(3,5) in simp)
next
  case Dequeue
  with assms(3,5) dequeue_moves [of w] show ?thesis by (auto simp: buffers_ok_def)
next
  case (Run i as)
  with assms(3,5) show ?thesis
    by (auto simp: buffers_ok_def run_running_def Let_def ebind_eq_Inr split: option.splits if_splits)
qed (use assms(3,5) in \<open>auto simp: buffers_ok_def open_socket_def drain_socket_def close_socket_def ebind_eq_Inr
    dest: on_manager_deferreds split: if_splits\<close>)

lemma stale_step:
  assumes "buffers_ok w" and "stale wid k w" and "stays_away wid k e w" and "step net e w = Inr w'"
  shows "stale wid k w'"
proof -
  have t: "tracks wid k (if sends_data wid k e then [Spend] else []) w w'"
    using assms by (intro step_tracks) (auto simp: stays_away_def)
  show ?thesis
  proof (cases "map_of (watched w') wid")
    case (Some m')
    then obtain m where "map_of (watched w) wid = Some m" "follows k (if sends_data wid k e then [Spend] else []) m m'"
      using t by (auto simp: tracks_def)
    with assms(2) Some show ?thesis
      by (cases "map_of (streams m') k") (auto simp: stale_def follows_def)
  qed (simp add: stale_def)
qed

section \<open>Tasks of streams that are gone\<close>

lemma stale_run:
  assumes "stale wid k w" and "i < length (running w)" and "wt_this (running w ! i) = wid"
    and "stream_id (wt_packet (running w ! i)) = k" and "as \<noteq> []"
  shows "step net (Run i as) w = Inl (if map_of (watched w) wid = None then Use_after_free else End_iterator)"
  using assms by (cases as) (auto simp: stale_def run_running_def task_round_def split: option.splits)

text \<open>Tasks of the stream that have been executed do not become more.\<close>

lemma stale_executed:
  assumes "stale wid k w" and "step net e w = Inr w'" and "wt_this t = wid" and "stream_id (wt_packet t) = k"
  shows "count (mset (executed w')) t = count (mset (executed w)) t"
proof (cases "is_pool_event e")
  case True
  then consider "e = Dequeue" | i as where "e = Run i as" by (cases e) (simp_all add: is_pool_event_def)
  then show ?thesis
  proof cases
    case 1
    with assms(2) show ?thesis by (auto simp: dequeue_def split: list.splits)
  next
    case 2
    show ?thesis
    proof (cases "i < length (running w) \<and> running w ! i = t \<and> as \<noteq> []")
      case True
      with stale_run [OF assms(1), of i as net] assms(2-4) 2 show ?thesis by simp
    next
      case False
      with assms(2) 2 show ?thesis
        by (auto simp: run_running_def Let_def ebind_eq_Inr split: option.splits if_splits)
    qed
  qed
qed (use step_executed [of e net w w'] assms(2) in simp)

lemma stale_pending:
  assumes "fresh_socket net" and "world_ok w" and "stale wid k w" and "step net e w = Inr w'"
    and "wt_this t = wid" and "stream_id (wt_packet t) = k" and "t \<in> set (running w @ tasks (common w))"
  shows "t \<in> set (running w' @ tasks (common w'))"
proof -
  obtain us where "mset (history w') = mset (history w @ us)"
    using step_ok [OF assms(1,2,4)] by (auto simp: progresses_def)
  then have "count (mset (history w)) t \<le> count (mset (history w')) t" by simp
  then have "count (mset (running w @ tasks (common w))) t \<le> count (mset (running w' @ tasks (common w'))) t"
    using stale_executed [OF assms(3-6)] by (simp add: history_def)
  moreover have "0 < count (mset (running w @ tasks (common w))) t"
    using assms(7) by (simp only: count_greater_zero_iff set_mset_mset)
  ultimately have "0 < count (mset (running w' @ tasks (common w'))) t" by (rule order.strict_trans2 [rotated])
  then show ?thesis by (simp only: count_greater_zero_iff set_mset_mset)
qed

section \<open>Two workers\<close>

text \<open>The loop of the task goes on at \<open>EAGAIN\<close> only.\<close>

definition answered :: "write_answer list \<Rightarrow> bool" where
  "answered as \<longleftrightarrow> \<not> list_all (\<lambda>a. a = Write_again) as"

lemma run_task_completes:
  assumes "\<not> capturing sh" and "map_of (streams m) (stream_id p) \<noteq> None" and "answered as"
  shows "\<exists>ms'. run_task as p (m, sh) = Inr (Some ms')"
  using assms(3)
proof (induction as)
  case (Cons a as)
  obtain d where "map_of (streams m) (stream_id p) = Some d" using assms(2) by auto
  with assms(1) Cons show ?case by (cases a) (auto simp: task_round_def answered_def)
qed (simp add: answered_def)

lemma run_whole:
  assumes "serves net w" and "has_stream wid k fd w" and "i < length (running w)" and "t = running w ! i"
    and "wt_this t = wid" and "stream_id (wt_packet t) = k" and "list_all (whole (wt_packet t)) as" and "answered as"
  obtains w' where "run_running i as w = Inr w'" and "target_gets fd w' = target_gets fd w @ payload (wt_packet t)"
    and "serves net w'" and "has_stream wid k fd w'" and "running w' = take i (running w) @ drop (Suc i) (running w)"
proof -
  obtain m d where m: "map_of (watched w) wid = Some m" "map_of (streams m) k = Some d" "ss_fd d = fd"
    using assms(2) by (auto simp: has_stream_def split: option.splits)
  have "\<not> capturing (common w)" using assms(1) by (simp add: serves_def)
  then have "\<exists>ms'. run_task as (wt_packet t) (m, common w) = Inr (Some ms')"
    using m(2) assms(6,8) by (intro run_task_completes) simp_all
  then obtain m' sh' where rt: "run_task as (wt_packet t) (m, common w) = Inr (Some (m', sh'))" by auto
  have "run_running i as w = Inr (w\<lparr>watched := AList.update wid m' (watched w), common := sh',
      running := take i (running w) @ drop (Suc i) (running w), executed := executed w @ [t]\<rparr>)"
    using rt m(1) by (simp add: run_running_def assms(3) assms(4) [symmetric] assms(5))
  then obtain w' where r: "run_running i as w = Inr w'" and e: "executed w' = executed w @ [t]" by simp
  then have ne: "w' \<noteq> w" by auto
  have "map_of (watched w') = map_of (watched w)" "running w' = take i (running w) @ drop (Suc i) (running w)"
    "target_gets fd w' = target_gets fd w @ payload (wt_packet t)"
    using run_running_moves [OF assms(1) r] ne assms(4-7) m by (auto simp: Let_def)
  moreover have "serves net w'"
    by (rule serves_step [OF assms(1), of wid k fd "Run i as"]) (use assms(2) r in \<open>simp_all add: steady_def\<close>)
  ultimately show ?thesis using r assms(2) by (intro that [of w']) (simp_all add: has_stream_def)
qed

section \<open>Properties\<close>

text \<open>
  C18: A write task keeps neither its stream nor its connection alive. A task whose stream has
  been closed by its target, or whose client has disconnected, stays in the pool in every
  later state as long as the stream stays away (no CONNECT of its client opens a stream under
  the same id again, and no new connection gets the id of the old one), and the moment a
  worker executes it the server uses the deleted connection or dereferences the end iterator
  of the table. If the stream id is used again, the task writes to the new target
  (\<open>stale_task_misdirected\<close>).
\<close>
theorem stale_tasks_fault:
  assumes "fresh_socket net" and "world_ok w" and "buffers_ok w" and "stale wid k w"
    and "t \<in> set (running w @ tasks (common w))" and "wt_this t = wid" and "stream_id (wt_packet t) = k"
    and "along (step net) (stays_away wid k) es w" and "run_events net es w = Inr w'"
  shows "t \<in> set (running w' @ tasks (common w')) \<and>
    (\<forall>i as. i < length (running w') \<longrightarrow> running w' ! i = t \<longrightarrow> as \<noteq> [] \<longrightarrow>
       step net (Run i as) w' = Inl (if map_of (watched w') wid = None then Use_after_free else End_iterator))"
proof -
  have "stale wid k w' \<and> t \<in> set (running w' @ tasks (common w'))"
    using assms(2-5,8,9)
  proof (induction es arbitrary: w)
    case Nil
    then show ?case by (simp add: run_events_def)
  next
    case (Cons e es)
    then obtain u where u: "step net e w = Inr u" "stays_away wid k e w" "along (step net) (stays_away wid k) es u"
      "run_events net es u = Inr w'"
      by (auto simp: continue_with_True run_events_def)
    have "world_ok u" using step_ok [OF assms(1) Cons.prems(1) u(1)] by simp
    moreover have "buffers_ok u" by (rule buffers_step [OF assms(1) Cons.prems(1,2) u(2,1)])
    moreover have "stale wid k u" by (rule stale_step [OF Cons.prems(2,3) u(2,1)])
    moreover have "t \<in> set (running u @ tasks (common u))"
      by (rule stale_pending [OF assms(1) Cons.prems(1,3) u(1) assms(6,7) Cons.prems(4)])
    ultimately show ?case using u(3,4) by (rule Cons.IH)
  qed
  then show ?thesis using stale_run assms(6,7) by blast
qed

text \<open>
  A client sends a packet and its target closes the connection: the packet's task is still
  queued. The client may go on; the server ends with the task.
\<close>

definition closing_events :: "event list" where
  "closing_events = [Open, connect_message 0 7, data_message 0 7 1, Wait [6], Watch [Read_eof], Deliver (\<lambda>wid k. SUCCESS)]"

definition going_on :: "event list" where
  "going_on = [Open, Drain 0, connect_message 0 9, Dequeue]"

theorem stale_tasks_fault_witness:
  "\<exists>w w'. run_events quiet_net closing_events (start_world 2) = Inr w \<and> run_events quiet_net going_on w = Inr w' \<and>
     step quiet_net (Run 0 [Write_took 1]) w' = Inl End_iterator"
proof -
  have "ebind (run_events quiet_net closing_events (start_world 2)) (\<lambda>w. ebind (run_events quiet_net going_on w) (\<lambda>w'.
      Inr (stale 0 7 w, along (step quiet_net) (stays_away 0 7) going_on w, deferreds w = [],
        map wt_this (running w @ tasks (common w)) = [0] \<and> map (stream_id \<circ> wt_packet) (running w @ tasks (common w)) = [7],
        running w' = running w @ tasks (common w), map_of (watched w') 0 = None))) =
      (Inr (True, True, True, True, True, False) :: (bool \<times> bool \<times> bool \<times> bool \<times> bool \<times> bool) result)"
    by code_simp
  then obtain w w' where w: "run_events quiet_net closing_events (start_world 2) = Inr w"
    "run_events quiet_net going_on w = Inr w'" "stale 0 7 w"
    "along (step quiet_net) (stays_away 0 7) going_on w" "deferreds w = []"
    "map wt_this (running w @ tasks (common w)) = [0]" "map (stream_id \<circ> wt_packet) (running w @ tasks (common w)) = [7]"
    "running w' = running w @ tasks (common w)" "map_of (watched w') 0 \<noteq> None"
    by (auto simp: ebind_eq_Inr)
  have "world_ok w" using run_events_ok [OF fresh_quiet_net start_world_ok w(1)] by simp
  moreover have "buffers_ok w" using w(5) by (simp add: buffers_ok_def)
  moreover obtain t where t: "running w @ tasks (common w) = [t]" "wt_this t = 0" "stream_id (wt_packet t) = 7"
    using w(6,7) by (cases "running w @ tasks (common w)") (auto simp del: map_append)
  ultimately have "\<forall>i as. i < length (running w') \<longrightarrow> running w' ! i = t \<longrightarrow> as \<noteq> [] \<longrightarrow>
      step quiet_net (Run i as) w' = Inl (if map_of (watched w') 0 = None then Use_after_free else End_iterator)"
    using stale_tasks_fault [OF fresh_quiet_net _ _ w(3) _ t(2,3) w(4,2)] by simp
  from this [rule_format, of 0 "[Write_took 1]"] w t show ?thesis by auto
qed

text \<open>
  A CONNECT under the same id instead, after the target has closed: the packet that was meant
  for the old target (descriptor 6) goes to the new one (here with the same descriptor number,
  which the kernel has given out again).
\<close>
theorem stale_task_misdirected:
  "ebind (run_events quiet_net (closing_events @ [connect_message 0 7]) (start_world 2)) (\<lambda>w.
     ebind (run_events quiet_net [Dequeue, Run 0 [Write_took 1]] w) (\<lambda>w'. Inr (
       has_stream 0 7 6 w, target_gets 6 w, target_gets 6 w'))) =
   (Inr (True, [], [Some 1]) :: (bool \<times> buffer \<times> buffer) result)"
  by code_simp

text \<open>
  C19: With two workers the order of a stream is lost: whenever two tasks of one stream are in
  execution, the later one may be the first to write, and then its payload arrives in front
  of the payload of the earlier one, although the kernel takes both as a whole.
\<close>
theorem workers_reorder:
  assumes "serves net w" and "has_stream wid k fd w" and "i < j" and "j < length (running w)"
    and "t = running w ! i" and "u = running w ! j"
    and "wt_this t = wid" and "stream_id (wt_packet t) = k" and "wt_this u = wid" and "stream_id (wt_packet u) = k"
    and "list_all (whole (wt_packet t)) as" and "answered as" and "list_all (whole (wt_packet u)) bs" and "answered bs"
  shows "\<exists>w'. run_events net [Run j bs, Run i as] w = Inr w' \<and>
    target_gets fd w' = target_gets fd w @ payload (wt_packet u) @ payload (wt_packet t)"
proof -
  obtain v where v: "run_running j bs w = Inr v" "target_gets fd v = target_gets fd w @ payload (wt_packet u)"
    "serves net v" "has_stream wid k fd v" "running v = take j (running w) @ drop (Suc j) (running w)"
    by (rule run_whole [OF assms(1,2,4,6,9,10,13,14)])
  have i: "i < length (running v)" "t = running v ! i" using assms(3-5) v(5) by (simp_all add: nth_append)
  obtain w' where "run_running i as v = Inr w'" "target_gets fd w' = target_gets fd v @ payload (wt_packet t)"
    by (rule run_whole [OF v(3,4) i assms(7,8,11,12)])
  with v(1,2) show ?thesis by (simp add: run_events_def)
qed

theorem workers_reorder_witness:
  "\<exists>w w'. run_events quiet_net [data_message 0 7 1, data_message 0 7 2, Dequeue, Dequeue] (talking\<lparr>workers := 2\<rparr>) = Inr w \<and>
     run_events quiet_net [Run 1 [Write_took 1], Run 0 [Write_again, Write_took 1]] w = Inr w' \<and>
     target_gets 6 w' = [Some 2, Some 1]"
proof -
  let ?es = "[data_message 0 7 1, data_message 0 7 2, Dequeue, Dequeue]" and ?w = "talking\<lparr>workers := 2\<rparr>"
  have s: "serves quiet_net ?w"
    using talking_serves(1) by (simp add: serves_def world_ok_def managers_ok_def buffers_ok_def) (simp add: talking_def example_world_def)
  have a: "along (step quiet_net) (\<lambda>e w. steady 0 7 6 e w \<and> undropped 0 7 e) ?es ?w" by code_simp
  have "ebind (run_events quiet_net ?es ?w) (\<lambda>w. Inr (has_stream 0 7 6 w, target_gets 6 w = [],
      map wt_this (running w) = [0, 0], map (stream_id \<circ> wt_packet) (running w) = [7, 7],
      map (payload \<circ> wt_packet) (running w) = [[Some 1], [Some 2]], map (data_len \<circ> wt_packet) (running w) = [1, 1])) =
    (Inr (True, True, True, True, True, True) :: (bool \<times> bool \<times> bool \<times> bool \<times> bool \<times> bool) result)" by code_simp
  then obtain w where w: "run_events quiet_net ?es ?w = Inr w" "has_stream 0 7 6 w" "target_gets 6 w = []"
    "map wt_this (running w) = [0, 0]" "map (stream_id \<circ> wt_packet) (running w) = [7, 7]"
    "map (payload \<circ> wt_packet) (running w) = [[Some 1], [Some 2]]" "map (data_len \<circ> wt_packet) (running w) = [1, 1]"
    by (auto simp: ebind_eq_Inr)
  from w(4) obtain t u where r: "running w = [t, u]" by (auto simp: map_eq_Cons_conv)
  note tu = w(4-7) [unfolded r, simplified]
  have sw: "serves quiet_net w" using downstream.run_conserves [OF a w(1) [unfolded run_events_def] s] by blast
  have wh: "list_all (whole (wt_packet t)) [Write_again, Write_took 1]" "list_all (whole (wt_packet u)) [Write_took 1]"
    using tu by (simp_all add: whole_def)
  have an: "answered [Write_again, Write_took 1]" "answered [Write_took 1]" by (simp_all add: answered_def)
  have ij: "0 < Suc 0" "Suc 0 < length (running w)" "t = running w ! 0" "u = running w ! Suc 0" by (simp_all add: r)
  have "\<exists>w'. run_events quiet_net [Run (Suc 0) [Write_took 1], Run 0 [Write_again, Write_took 1]] w = Inr w' \<and>
      target_gets 6 w' = target_gets 6 w @ payload (wt_packet u) @ payload (wt_packet t)"
    by (rule workers_reorder [OF sw w(2) ij _ _ _ _ wh(1) an(1) wh(2) an(2)]) (use tu in simp_all)
  with w(1,3) tu show ?thesis by (simp del: append_Cons append_Nil) fastforce
qed

end
