(* ===== verification/Shutdown.thy ===== *)
theory Shutdown
  imports Hazards PoolStop
begin

text \<open>
  The end of the server (src/src/server.cpp): SIGINT sets a flag, the handler that runs after
  each iteration of the event loop closes the application, uWebSockets calls the \<open>close\<close>
  callback of every connection, the loop ends, and the destructor of the static pool waits
  for the tasks that are left. The order in which uWebSockets closes the connections is a
  parameter.
\<close>

section \<open>The handler after each iteration\<close>

definition close_all :: "net \<Rightarrow> size_t list \<Rightarrow> deployment \<Rightarrow> deployment result" where
  "close_all net order = run_deployed net (map (\<lambda>wid. Serve (Close wid)) order)"

definition after_iteration :: "net \<Rightarrow> size_t list \<Rightarrow> bool \<times> deployment \<Rightarrow> (bool \<times> deployment) result" where
  "after_iteration net order st =
     (case st of (interupted, s) \<Rightarrow> (case post_handler interupted of (closes, interupted') \<Rightarrow>
        if closes then emap (Pair interupted') (close_all net order s) else Inr (interupted', s)))"

section \<open>Closing every connection\<close>

definition fds_of :: "size_t set \<Rightarrow> world \<Rightarrow> int set" where
  "fds_of wids w = {fd. \<exists>wid m. wid \<in> wids \<and> map_of (watched w) wid = Some m \<and> fd \<in> fds m}"

lemma close_socket_closes:
  assumes "managers_ok w"
  obtains w' where "close_socket wid w = Inr w'" and "managers_ok w'"
    and "map_of (watched w') = (map_of (watched w))(wid := None)" and "tasks (common w') = tasks (common w)"
    and "set (open_fds (os_state (common w'))) = set (open_fds (os_state (common w))) - fds_of {wid} w"
proof (cases "map_of (watched w) wid")
  case None
  then have c: "close_socket wid w = Inr (w\<lparr>watched := AList.delete wid (watched w)\<rparr>)"
    by (simp add: close_socket_def on_manager_def)
  show ?thesis
    by (rule that [OF c])
      (use None managers_ok_delete [OF assms, of wid] in \<open>simp_all add: tab.lookup_erase fds_of_def\<close>)
next
  case (Some m)
  have ok: "manager_ok (common w) m" using managers_okD [OF assms Some] by simp
  have k: "keys_ok (streams m)" using ok by (simp add: manager_ok_def)
  have p: "capturing (common w) \<longrightarrow> ss_pcap d \<noteq> None" if "map_of (streams m) j = Some d" for j d
    using manager_okD [OF ok that] by (simp add: stream_ok_def)
  obtain fin where f: "force_close (m, common w) =
    Inr (m\<lparr>streams := [], has_backpressure := False,
            sent := sent m @ map (\<lambda>(k, d). close_frame 2 k) (streams m)\<rparr>,
         (common w)\<lparr>os_state := fold (\<lambda>(k, d). sys_close (ss_fd d)) (streams m) (os_state (common w)),
            finished_captures := fin\<rparr>)"
    using force_close_spec [OF k, of "common w"] p by blast
  let ?s = "fold (\<lambda>(k, d). sys_close (ss_fd d)) (streams m) (os_state (common w))"
  have "(ss_fd \<circ> snd) ` set (streams m) = fds m"
    using tab.entries_lookup [OF k] unfolding fds_def by force
  then have o: "set (open_fds ?s) = set (open_fds (os_state (common w))) - fds m"
    unfolding fold_sys_close by auto
  define w1 where "w1 = w\<lparr>watched := AList.update wid (m\<lparr>streams := [], has_backpressure := False,
      sent := sent m @ map (\<lambda>(k, d). close_frame 2 k) (streams m)\<rparr>) (watched w),
    common := (common w)\<lparr>os_state := ?s, finished_captures := fin\<rparr>\<rparr>"
  have w1: "on_manager wid force_close w = Inr w1" using Some f by (simp add: on_manager_def w1_def)
  define w2 where "w2 = w1\<lparr>watched := AList.delete wid (watched w1)\<rparr>"
  have "extends w w1"
    by (rule force_close_op.on_manager_extends [OF fresh_quiet_net assms w1])
  then have "managers_ok w2" unfolding w2_def by (intro managers_ok_delete extends_ok)
  moreover have "close_socket wid w = Inr w2" using w1 by (simp add: close_socket_def w2_def)
  moreover have "map_of (watched w2) = (map_of (watched w))(wid := None)"
    by (simp add: w2_def w1_def tab.lookup_erase tab.lookup_assign)
  moreover have "tasks (common w2) = tasks (common w)" "open_fds (os_state (common w2)) = open_fds ?s"
    by (simp_all add: w2_def w1_def)
  moreover have "fds_of {wid} w = fds m" using Some by (auto simp: fds_of_def)
  ultimately show ?thesis using o by (intro that [of w2]) simp_all
qed

lemma close_all_closes:
  assumes "managers_ok (serving s)" and "tasks (common (serving s)) = []"
  obtains s' where "close_all net order s = Inr s'" and "workforce s' = workforce s"
    and "tasks (common (serving s')) = []"
    and "map_of (watched (serving s')) = map_of (watched (serving s)) |` (- set order)"
    and "set (open_fds (os_state (common (serving s')))) =
      set (open_fds (os_state (common (serving s)))) - fds_of (set order) (serving s)"
proof -
  have "\<exists>s'. close_all net order s = Inr s' \<and> workforce s' = workforce s \<and> tasks (common (serving s')) = [] \<and>
      map_of (watched (serving s')) = map_of (watched (serving s)) |` (- set order) \<and>
      set (open_fds (os_state (common (serving s')))) =
        set (open_fds (os_state (common (serving s)))) - fds_of (set order) (serving s)"
    using assms
  proof (induction order arbitrary: s)
    case Nil
    then show ?case by (simp add: close_all_def run_deployed_def fds_of_def)
  next
    case (Cons wid order)
    obtain w where w: "close_socket wid (serving s) = Inr w" "managers_ok w"
      "map_of (watched w) = (map_of (watched (serving s)))(wid := None)" "tasks (common w) = []"
      "set (open_fds (os_state (common w))) = set (open_fds (os_state (common (serving s)))) - fds_of {wid} (serving s)"
      using close_socket_closes [OF Cons.prems(1)] Cons.prems(2) by metis
    let ?s = "\<lparr>serving = w, workforce = workforce s\<rparr>"
    have "deployed_step net (Serve (Close wid)) s = Inr ?s"
      using w(1,4) by (simp add: hand_over_def is_pool_event_def)
    then have c: "close_all net (wid # order) s = close_all net order ?s"
      by (simp add: close_all_def run_deployed_def)
    have f: "fds_of {wid} (serving s) \<union> fds_of (set order) w = fds_of (set (wid # order)) (serving s)"
      using w(3) by (auto simp: fds_of_def split: if_splits)
    have r: "map_of (watched w) |` (- set order) = map_of (watched (serving s)) |` (- set (wid # order))"
      using w(3) by (auto simp: restrict_map_def)
    from Cons.IH [of ?s] w(2,4) obtain s' where s': "close_all net order ?s = Inr s'"
      "workforce s' = workforce s" "tasks (common (serving s')) = []"
      "map_of (watched (serving s')) = map_of (watched w) |` (- set order)"
      "set (open_fds (os_state (common (serving s')))) = set (open_fds (os_state (common w))) - fds_of (set order) w"
      by auto
    show ?case
      using s' c r w(5) f [symmetric] by (intro exI [of _ s']) auto
  qed
  then show ?thesis using that by blast
qed

section \<open>What is left in the pool\<close>

definition left_over :: "'a pool \<Rightarrow> 'a multiset" where
  "left_over p = mset (map task (queue p)) + executing (threads p)"

lemma worker_check_left_over:
  assumes "i < length (threads p)" and "task_of (threads p ! i) = []"
  shows "left_over (worker_check c i p) = left_over p"
proof -
  have u: "executing ((threads p)[i := v]) = executing (threads p) + mset (task_of v)" for v
    using executing_update [OF assms(1), of v] assms(2) by simp
  from assms(1) show ?thesis
  proof (cases rule: worker_check_cases [where c = c])
    case (pop t ts)
    have "queue p \<noteq> []" using pop(4) by auto
    then have "mset (map task (queue p)) = add_mset t (mset (map task ts))"
      using popped_mset [OF pop(3)] pop(3) by (simp add: popped_def)
    with pop(5) u [of "Busy t"] show ?thesis by (simp add: left_over_def)
  next
    case stop
    with u [of Stopped] show ?thesis by (simp add: left_over_def)
  next
    case sleep
    with u [of Sleeping] show ?thesis by (simp add: left_over_def)
  qed
qed

lemma worker_left_over:
  assumes "busy_with i p = None"
  shows "left_over (worker c i p) = left_over p"
proof (cases rule: worker_cases [of c i p])
  case loop
  then have "task_of (threads p ! i) = []" using assms by (cases "threads p ! i") (simp_all add: busy_with_def)
  with loop worker_check_left_over [of i "worker_back p" c] show ?thesis by (simp add: worker_loop_back left_over_def)
next
  case check
  then have "task_of (threads p ! i) = []" by (cases "threads p ! i") simp_all
  with check show ?thesis by (simp add: worker_check_left_over)
qed simp

text \<open>A pool that the server runs on is a reachable pool, and never paused.\<close>

lemma hand_over_run: "fold (\<lambda>t. detach_task t 0) ts p = run_pool (map (\<lambda>t. Detach t 0) ts) p"
  by (induction ts arbitrary: p) (simp_all add: run_pool_def)

lemma deployed_pool:
  assumes "run_deployed net es s = Inr s'"
  shows "\<exists>pes. workforce s' = run_pool pes (workforce s)"
  using assms unfolding run_deployed_def
proof (rule efold_invariant [where P = "\<lambda>v. \<exists>pes. workforce v = run_pool pes (workforce s)"])
  show "\<exists>pes. workforce s = run_pool pes (workforce s)" by (rule exI [of _ "[]"]) (simp add: run_pool_def)
next
  fix e u v
  assume "\<exists>pes. workforce u = run_pool pes (workforce s)" and step: "deployed_step net e u = Inr v"
  then obtain pes where u: "workforce u = run_pool pes (workforce s)" by blast
  have one: "\<exists>more. p = run_pool more (workforce u)" if "p = pool_step f (workforce u) \<or> p = workforce u" for p f
  proof -
    have "pool_step f (workforce u) = run_pool [f] (workforce u)" "workforce u = run_pool [] (workforce u)"
      by (simp_all add: run_pool_def)
    with that show ?thesis by blast
  qed
  have "\<exists>more. workforce v = run_pool more (workforce u)"
  proof (cases e)
    case (Serve f)
    with step have "workforce v = workforce u \<or> (\<exists>ts. workforce v = fold (\<lambda>t. detach_task t 0) ts (workforce u))"
      by (auto simp: emap_eq_Inr hand_over_def split: if_splits)
    then show ?thesis using one hand_over_run by metis
  next
    case (Work c i as)
    with step have "workforce v = pool_step (Worker c i) (workforce u) \<or> workforce v = workforce u"
      by (auto simp: pool_worker_def emap_eq_Inr split: option.splits)
    then show ?thesis by (rule one)
  next
    case (Within f)
    with step have "workforce v = pool_step f (workforce u) \<or> workforce v = workforce u"
      by (auto split: if_splits)
    then show ?thesis by (rule one)
  qed
  then show "\<exists>pes. workforce v = run_pool pes (workforce s)" unfolding u run_pool_append [symmetric] by blast
qed

lemma pause_stays: "pause_enabled (run_pool es p) = pause_enabled p"
proof (induction es arbitrary: p)
  case (Cons e es)
  have "pause_enabled (pool_step e p) = pause_enabled p"
    by (cases e; auto simp: client_defs wait_call_def reset_begin_def reset_end_def request_stop_def notify_one_def
        notify_all_def wake_worker_def destroy_threads_def create_threads_def Let_def split: option.split)
  with Cons show ?case by (simp add: run_pool_def)
qed (simp add: run_pool_def)

lemma done_left_over:
  assumes "workforce s = run_pool pes (server_pool hc)" and "tasks_done (workforce s)"
  shows "left_over (workforce s) = {#}"
proof -
  let ?p = "workforce s"
  have ok: "pool_ok ?p" using assms(1) run_pool_ok by (simp add: server_pool_def)
  have "pause_enabled ?p = pause_enabled (server_pool hc :: write_task pool)" using assms(1) by (simp add: pause_stays)
  then have "\<not> is_suspended ?p" by (simp add: is_suspended_def server_pool_def thread_pool_def create_threads_def Let_def)
  with assms(2) have q: "queue ?p = []" by (simp add: tasks_done_def)
  have "task_of v = []" if "v \<in> set (threads ?p)" for v
    using active_not_done [OF ok that] assms(2) by (cases v) auto
  with q show ?thesis by (simp add: left_over_def executing_def)
qed

section \<open>Without connections\<close>

definition abandoned :: "deployment \<Rightarrow> bool" where
  "abandoned s \<longleftrightarrow> watched (serving s) = [] \<and> tasks (common (serving s)) = []"

lemma abandoned_execute: "abandoned s \<Longrightarrow> execute as t (serving s) = Inl Use_after_free"
  by (simp add: abandoned_def execute_def)

lemma abandoned_serve:
  assumes "watched w = []" and "tasks (common w) = []" and "f \<noteq> Open" and "step net f w = Inr w'" and "\<not> is_pool_event f"
  shows "watched w' = [] \<and> tasks (common w') = []"
  using assms
  by (cases f) (auto simp: on_manager_def drain_socket_def close_socket_def deliver_def watch_event_def Let_def is_pool_event_def
      split: if_splits list.splits option.splits)

lemma abandoned_step:
  assumes "abandoned s" and "e \<noteq> Serve Open" and "deployed_step net e s = Inr s'"
  shows "abandoned s' \<and> left_over (workforce s') = left_over (workforce s)"
proof (cases e)
  case (Serve f)
  show ?thesis
  proof (cases "is_pool_event f")
    case False
    with Serve assms(3) obtain w where w: "step net f (serving s) = Inr w" "s' = hand_over (workforce s) w"
      by (auto simp: emap_eq_Inr)
    have "watched w = [] \<and> tasks (common w) = []"
      by (rule abandoned_serve [OF _ _ _ w(1) False]) (use assms(1,2) Serve in \<open>simp_all add: abandoned_def\<close>)
    with w(2) show ?thesis by (simp add: abandoned_def hand_over_def)
  qed (use Serve assms in simp)
next
  case (Work c i as)
  show ?thesis
  proof (cases "busy_with i (workforce s)")
    case None
    with Work assms worker_left_over [OF None, of c] show ?thesis by (auto simp: pool_worker_def abandoned_def)
  next
    case (Some t)
    with Work assms abandoned_execute [OF assms(1)] show ?thesis by (simp add: pool_worker_def)
  qed
next
  case (Within f)
  with assms within_queue [of f "workforce s"] show ?thesis
    by (auto simp: abandoned_def left_over_def split: if_splits)
qed

lemma run_abandoned:
  assumes "abandoned s" and "Serve Open \<notin> set es" and "run_deployed net es s = Inr s'"
  shows "abandoned s' \<and> left_over (workforce s') = left_over (workforce s)"
  using assms
proof (induction es arbitrary: s)
  case (Cons e es)
  then obtain u where u: "deployed_step net e s = Inr u" "run_deployed net es u = Inr s'"
    by (auto simp: run_deployed_def ebind_eq_Inr)
  have "abandoned u \<and> left_over (workforce u) = left_over (workforce s)"
    by (rule abandoned_step [OF Cons.prems(1) _ u(1)]) (use Cons.prems(2) in auto)
  with Cons.IH [OF _ _ u(2)] Cons.prems(2) show ?case by simp
qed (simp add: run_deployed_def)

section \<open>Properties\<close>


text \<open>A client has sent one packet, which the only worker has just taken, when the server is interrupted.\<close>

definition interrupted_events :: "deployed_event list" where
  "interrupted_events = [Serve Open, Serve (connect_message 0 7), Serve (data_message 0 7 1), Work 0 0 []]"


end
