(* ===== verification/Spec2Isabelle.thy ===== *)
theory Spec2Isabelle
  imports ManagerProps WorldProps EndToEnd Watcher Futures PoolStop Semaphore SyncedStream Native
    Platforms Server Version Deployment Locks Recordings Integrity Hazards
    Shutdown
begin

text \<open>
  Woeful is a Wisp server: it accepts websocket connections over which a client opens TCP and
  UDP streams to targets, and forwards data both ways (README.md, src/src/). This development
  models the whole of its own code and the thread pool library bundled with it.

  How the program works. \<open>main\<close> (main.cpp) reads the command line and the XML configuration
  (config.cpp, server.h) and starts the server (server.cpp). One event-loop thread runs the
  websocket callbacks; each connection is a \<open>WebSocketManager\<close> (websocketManager.h,
  websocketManager.cpp) with a table of streams. A CONNECT packet (packets.h) opens a socket
  through \<open>SystemInterface\<close> (systemInterface.h), which applies the access policy; DATA
  packets become tasks of a thread pool (BS\_thread\_pool.hpp) that write to the socket. A
  watcher thread (\<open>SystemWatcher\<close>) waits on epoll, reads the sockets and defers the delivery
  of the bytes to the event loop. Flow control is by credits per stream, announced by CONTINUE
  packets. Builds with \<open>PCAP\<close> also write captures (pcap.h).

  The theories, in the order of their dependencies.
    \<^item> Prelude: machine integers, faults, the error monad \<open>ebind\<close>/\<open>efold\<close>, transition
      systems with the locale \<open>inductive_invariant\<close>, counting in lists.
    \<^item> Memory: buffers of bytes that may be indeterminate, loads, stores, \<open>memcpy\<close>, allocation,
      C strings. Reading outside a buffer or reading an indeterminate byte is a fault.
    \<^item> Packets (packets.h): one record per packet, one definition per constructor and per
      \<open>serialize\<close>. The locales \<open>packet_codec\<close> and \<open>exact_codec\<close> state what a codec promises and
      are interpreted on the four packets that have both directions; \<open>frame\<close> is the message
      as bytes.
    \<^item> Config (server.h, config.cpp): the union \<open>Member\<close> with the life time of its string, and
      \<open>read_config\<close> over the interface \<open>tinyxml\<close>; \<open>denotes\<close> is its specification.
    \<^item> Network (systemInterface.h): the operating system as a record, \<open>open_stream\<close>, the epoll
      wrapper; \<open>blocked\<close> is the policy, \<open>connection_of\<close> the specification of \<open>open_stream\<close>.
    \<^item> Pcap (pcap.h): the segments of a capture; \<open>accept\<close> and \<open>replay\<close> are a receiver that
      checks sequence numbers.
    \<^item> Table: the contract of \<open>std::unordered_map\<close> (locales \<open>table\<close>, \<open>keyed_table\<close>), interpreted
      on association lists.
    \<^item> Manager (websocketManager.h, websocketManager.cpp): every member function of
      \<open>WebSocketManager\<close>, and equations that give each in terms of frames and tables;
      ManagerProps: the properties of one connection over the packets it receives.
    \<^item> World (websocketManager.cpp, server.cpp): the server as a function \<open>step\<close> from events to
      states: the callbacks, the watcher, the deferred delivery, the execution of write tasks.
      WorldInv: the locale \<open>manager_operation\<close>, interpreted on every operation on a
      connection, and the invariant \<open>world_ok\<close> of all reachable states. WorldProps: the way of
      the data, the order of the tasks, and the runs that go wrong.
    \<^item> EndToEnd: the whole way of the data, from the socket of a target to its client and
      back. The locale \<open>channel\<close> is a contract of conservation (what is on the way and what
      has arrived grow only by what enters), interpreted on both directions of the server.
    \<^item> Integrity: what a target can get with any number of workers and any answers of the kernel:
      initial parts of its client's packets, each at most once. Hazards: what every task does
      that has outlived its stream or its connection, and how two workers reorder a stream.
    \<^item> Credits: flow control seen from both ends; the counter of the server is the credit the
      client computes from what it sends and hears.
    \<^item> Captures, Recordings: builds with \<open>PCAP\<close>, locks aside. Captures proves that the data of a
      server that captures is that of one that does not (locale \<open>unseen_operation\<close>, a
      simulation); Recordings proves what the captures contain once the write tasks have ended.
    \<^item> Watcher (websocketManager.h, websocketManager.cpp): the watcher thread itself, from its
      start to the join of the destructor.
    \<^item> Locks (websocketManager.h, websocketManager.cpp): every function of the server as the
      sequence of its lock operations and waits, and the interleavings of the event loop and
      the workers at that grain: no deadlock, and what a target that does not read does to
      the event loop.
    \<^item> WorkQueue: the abstract specification of a thread pool, a queue of waiting tasks and a
      multiset of running ones; the locale \<open>work_queue\<close> of its implementations is interpreted
      on the server (WorldInv) and on the thread pool (PoolProps).
    \<^item> Pool (BS\_thread\_pool.hpp): the thread pool with all its options as a transition system
      whose steps are the critical sections and the notifications. PoolInv: its invariant, and
      commutation of the steps. PoolProps: the refinement of the work queue, progress,
      \<open>wait()\<close>, priorities, resets. PoolStop: the joins of the destructor return.
    \<^item> Framing, Deployment (server.cpp, websocketManager.cpp, BS\_thread\_pool.hpp): the server on
      the thread pool of theory Pool. Framing shows that the operations of the server do not
      look at the tasks that wait (locale \<open>blind_operation\<close>); Deployment joins the two and
      proves that the result refines the server of theory World.
    \<^item> Shutdown (server.cpp): from the signal to the destructor of the pool: the connections and
      descriptors that are released, and what a packet does that is still in the pool.
    \<^item> IndexTypes, Blocks (BS\_thread\_pool.hpp): the common index type of a loop, \<open>BS::blocks\<close>
      over any integer type, signed overflow included, and the parallel loops.
    \<^item> Futures (BS\_thread\_pool.hpp): \<open>submit_task\<close>, its promise, \<open>multi_future\<close>, and the loops
      that submit; the results are those of the sequential loops.
    \<^item> Semaphore, SyncedStream (BS\_thread\_pool.hpp): \<open>counting_semaphore\<close> as a transition
      system, \<open>synced_stream\<close>.
    \<^item> Native, Platforms (BS\_thread\_pool.hpp): priorities, affinities and names of threads on
      Linux, macOS and Windows.
    \<^item> Server (main.cpp, server.cpp): start-up and the size of the pool.
    \<^item> Version (BS\_thread\_pool.hpp): \<open>BS::version\<close> as an instance of \<open>linorder\<close>.

  Conventions. Fallible code returns \<open>fault + 'a\<close>: a fault is undefined behaviour or an
  exception that nobody catches. Machine integers are words of their C++ width on a 64-bit
  Linux target, so wrap-around is that of the code. Mutexes make each function atomic; the
  interleavings that remain are sequences of events. That a function waits for its lock is
  the subject of theory Locks alone: its steps are the lock operations, without the data. Outside the model, as parameters: the
  operating system's answers (record \<open>net\<close>; results of \<open>read\<close>, \<open>poll\<close> and \<open>write\<close> as
  arguments of the events), tinyxml2 (record \<open>tinyxml\<close>), CLI11, uWebSockets (the statuses of
  \<open>send\<close>, the result of \<open>listen\<close>), the clock, the functions the user gives to the pool. The
  documented facts used of them are named in the statements: \<open>fresh_socket\<close> (a new descriptor is
  not an open one), \<open>read_ok\<close> (a read fits its buffer), \<open>may_return\<close> (\<open>epoll_wait\<close> returns when
  the pipe holds a byte), \<open>sched_ok\<close>, \<open>affinity_ok\<close>, \<open>windows_ok\<close>, \<open>wide_ok\<close> and \<open>names_ok\<close>
  (what is set with success is what is got), and a finite chain of XML siblings.

  Termination. Loops are structural recursion or functions with a measure; the reader of the
  configuration is a \<open>partial_function\<close> proved to return on finite documents; the read loop
  and the write loop take the answers of the kernel as a list and return as soon as the
  answers end them, which the properties about them state.

  For the threads, which have no end of their own, termination is that of their joins: theories
  PoolStop and Watcher bound the steps a thread has left once it is told to stop. \<open>Watcher\<close>
  counts at most 130: the array of \<open>epoll_wait\<close> has 127 entries (\<open>BUFFER_COUNT\<close>).

  Not modelled: the initialisation and cleanup functions of the pool's user beyond that they
  are called; two resets of one pool at the same time; the data race of \<open>synced_stream\<close> when its
  list of streams changes during a print; what a submitted function does to the user's state;
  the encoding of captured packets by PcapPlusPlus; debug output; and that uWebSockets may drop
  a CLOSE or CONTINUE frame, whose status the code does not look at (a DATA frame that is
  dropped is modelled). The rounds of one write task are one event; in builds that capture its
  copies of the payload are written with the last round. World has a
  queue and workers of its own; that the server on the pool refines it is theorem
  \<open>server_on_pool\<close>. The client's side of the protocol is modelled only as far as the account
  of its credit.
\<close>

end
